(* ===== verification/Kevy_Prelude.thy ===== *)
theory Kevy_Prelude
  imports Main "HOL-Library.Word" "HOL-Library.Monad_Syntax"
begin

unbundle bit_operations_syntax

text \<open>
  Shared vocabulary of the development: byte strings, Rust's \<open>Result\<close> as a sum,
  the checked and saturating integer operations of \<open>std\<close> that the sources use,
  decimal formatting and parsing (\<open>to_string\<close>, \<open>str::parse\<close>), and generic
  lemmas on lists and slices that several components need.
\<close>

section \<open>Types\<close>

type_synonym u8 = "8 word"
type_synonym bytes = "u8 list"

text \<open>A Rust \<open>Result<T, E>\<close>: \<open>Inl\<close> carries the error, \<open>Inr\<close> the value.\<close>

type_synonym ('e, 'a) result = "'e + 'a"

abbreviation Ok :: "'a \<Rightarrow> 'e + 'a" where
  "Ok \<equiv> Inr"

abbreviation Err :: "'e \<Rightarrow> 'e + 'a" where
  "Err \<equiv> Inl"

text \<open>A byte-string literal \<open>b"..."\<close>.\<close>

definition ascii :: "string \<Rightarrow> bytes" where
  "ascii s = map of_char s"

text \<open>\<open>&buf[s..e]\<close>: only meaningful for \<open>s \<le> e \<le> length buf\<close>, which the callers check.\<close>

definition slice :: "'a list \<Rightarrow> nat \<Rightarrow> nat \<Rightarrow> 'a list" where
  "slice xs s e = take (e - s) (drop s xs)"

text \<open>\<open>buf.get(i)\<close>: \<open>None\<close> past the end.\<close>

definition nth_opt :: "'a list \<Rightarrow> nat \<Rightarrow> 'a option" where
  "nth_opt xs i = (if i < length xs then Some (xs ! i) else None)"

text \<open>\<open>Iterator::position\<close>.\<close>

fun position :: "('a \<Rightarrow> bool) \<Rightarrow> 'a list \<Rightarrow> nat option" where
  "position P [] = None"
| "position P (x # xs) = (if P x then Some 0 else map_option Suc (position P xs))"

section \<open>Machine integers\<close>

definition i64_max :: int where "i64_max = 9223372036854775807"
definition i64_min :: int where "i64_min = -9223372036854775808"
definition u64_max :: nat where "u64_max = 18446744073709551615"

definition in_i64 :: "int \<Rightarrow> bool" where
  "in_i64 n \<longleftrightarrow> i64_min \<le> n \<and> n \<le> i64_max"

definition checked_i64 :: "int \<Rightarrow> int option" where
  "checked_i64 n = (if in_i64 n then Some n else None)"

definition checked_u64 :: "nat \<Rightarrow> nat option" where
  "checked_u64 n = (if n \<le> u64_max then Some n else None)"

definition sat_add_u64 :: "nat \<Rightarrow> nat \<Rightarrow> nat" where
  "sat_add_u64 a b = min (a + b) u64_max"

text \<open>Rust's \<open>/\<close> and \<open>%\<close> on signed integers truncate towards zero.\<close>

definition quot_trunc :: "int \<Rightarrow> int \<Rightarrow> int" where
  "quot_trunc a b = sgn a * sgn b * (\<bar>a\<bar> div \<bar>b\<bar>)"

definition rem_trunc :: "int \<Rightarrow> int \<Rightarrow> int" where
  "rem_trunc a b = a - b * quot_trunc a b"

section \<open>Decimal digits\<close>

definition is_digit :: "u8 \<Rightarrow> bool" where
  "is_digit b \<longleftrightarrow> 48 \<le> b \<and> b \<le> 57"

definition digit_val :: "u8 \<Rightarrow> nat" where
  "digit_val b = unat b - 48"

definition digit_byte :: "nat \<Rightarrow> u8" where
  "digit_byte d = 48 + of_nat d"

text \<open>The decimal text of an unsigned integer (\<open>u64::to_string\<close>).\<close>

fun dec_digits :: "nat \<Rightarrow> bytes" where
  "dec_digits n = (if n < 10 then [digit_byte n] else dec_digits (n div 10) @ [digit_byte (n mod 10)])"

declare dec_digits.simps [simp del]

text \<open>The decimal text of a signed integer.\<close>

definition dec_int :: "int \<Rightarrow> bytes" where
  "dec_int n = (if n < 0 then 45 # dec_digits (nat (- n)) else dec_digits (nat n))"

text \<open>The value of a run of digits, most significant first.\<close>

definition digits_val :: "bytes \<Rightarrow> nat" where
  "digits_val bs = foldl (\<lambda>n b. n * 10 + digit_val b) 0 bs"

text \<open>
  \<open>str::parse::<u64>\<close> of the standard library: an optional leading \<open>+\<close>, at least one
  digit, nothing else, and the value fits.
\<close>

definition parse_u64_str :: "bytes \<Rightarrow> nat option" where
  "parse_u64_str s = (let ds = (case s of b # r \<Rightarrow> if b = 43 then r else s | [] \<Rightarrow> s) in
     if ds \<noteq> [] \<and> list_all is_digit ds then checked_u64 (digits_val ds) else None)"

text \<open>\<open>str::parse::<i64>\<close>: an optional sign, at least one digit, and the value fits.\<close>

definition parse_i64_str :: "bytes \<Rightarrow> int option" where
  "parse_i64_str s =
     (let (neg, ds) = (case s of [] \<Rightarrow> (False, s)
        | b # r \<Rightarrow> if b = 45 then (True, r) else if b = 43 then (False, r) else (False, s)) in
      if ds \<noteq> [] \<and> list_all is_digit ds
      then checked_i64 (if neg then - int (digits_val ds) else int (digits_val ds)) else None)"

text \<open>\<open>eq_ignore_ascii_case\<close> of the standard library.\<close>

definition ascii_lower :: "u8 \<Rightarrow> u8" where
  "ascii_lower b = (if 65 \<le> b \<and> b \<le> 90 then b + 32 else b)"

definition eq_ignore_ascii_case :: "bytes \<Rightarrow> bytes \<Rightarrow> bool" where
  "eq_ignore_ascii_case a b \<longleftrightarrow> map ascii_lower a = map ascii_lower b"

section \<open>Generic lemmas\<close>

named_theorems int_bounds \<open>the constants that bound machine integers\<close>

lemmas [int_bounds] = i64_max_def i64_min_def u64_max_def in_i64_def

lemma slice_append_left [simp]:
  "e \<le> length xs \<Longrightarrow> slice (xs @ ys) s e = slice xs s e"
  by (simp add: slice_def)

lemma slice_skip [simp]:
  "slice (xs @ ys) (length xs + s) (length xs + e) = slice ys s e"
  by (simp add: slice_def)

lemma slice_whole [simp]: "slice xs 0 (length xs) = xs"
  by (simp add: slice_def)

lemma length_slice: "e \<le> length xs \<Longrightarrow> length (slice xs s e) = e - s"
  by (simp add: slice_def)

lemma slice_mid: "slice (xs @ ys @ zs) (length xs) (length xs + length ys) = ys"
  by (simp add: slice_def)

lemma slice_drop: "slice (drop k xs) s e = slice xs (k + s) (k + e)"
  by (simp add: slice_def add.commute)

lemma nth_opt_append [simp]: "i < length xs \<Longrightarrow> nth_opt (xs @ ys) i = nth_opt xs i"
  by (simp add: nth_opt_def nth_append)

lemma position_eq_Some:
  "position P xs = Some i \<longleftrightarrow> i < length xs \<and> P (xs ! i) \<and> (\<forall>j < i. \<not> P (xs ! j))"
proof (induction xs arbitrary: i)
  case Nil
  then show ?case by simp
next
  case (Cons x xs)
  show ?case
  proof (cases i)
    case 0
    then show ?thesis by auto
  next
    case (Suc k)
    then show ?thesis using Cons [of k] by (auto simp: All_less_Suc2)
  qed
qed

lemma position_eq_None: "position P xs = None \<longleftrightarrow> (\<forall>x \<in> set xs. \<not> P x)"
  by (induction xs) auto

lemma length_ascii [simp]: "length (ascii s) = length s"
  by (simp add: ascii_def)

lemma unat_digit_byte:
  assumes "d < 10" shows "unat (digit_byte d) = 48 + d"
proof -
  have "unat (of_nat d :: u8) = d"
    using assms by (simp add: unat_of_nat)
  then show ?thesis
    using assms unfolding digit_byte_def by (simp add: unat_word_ariths)
qed

lemma digit_byte_is_digit [simp]: "d < 10 \<Longrightarrow> is_digit (digit_byte d)"
  by (simp add: is_digit_def word_le_nat_alt unat_digit_byte)

lemma digit_val_byte [simp]: "d < 10 \<Longrightarrow> digit_val (digit_byte d) = d"
  by (simp add: digit_val_def unat_digit_byte)

lemma digit_val_less:
  assumes "is_digit b" shows "digit_val b < 10"
proof -
  have "unat b \<le> unat (57 :: u8)"
    using assms unfolding is_digit_def by (metis word_le_nat_alt)
  then show ?thesis
    by (simp add: digit_val_def)
qed

lemma not_digit_bytes [simp]:
  "\<not> is_digit 13" "\<not> is_digit 10" "\<not> is_digit 45" "\<not> is_digit 43" "\<not> is_digit 36"
  by (simp_all add: is_digit_def)

lemma digits_val_snoc [simp]: "digits_val (bs @ [b]) = digits_val bs * 10 + digit_val b"
  by (simp add: digits_val_def)

lemma digits_val_Nil [simp]: "digits_val [] = 0"
  by (simp add: digits_val_def)

lemma dec_digits_nonempty [simp]: "dec_digits n \<noteq> []"
  by (subst dec_digits.simps) simp

lemma dec_digits_all_digits [simp]: "list_all is_digit (dec_digits n)"
proof (induction n rule: dec_digits.induct)
  case (1 n)
  then show ?case by (subst dec_digits.simps) simp
qed

lemma dec_digits_mem: "b \<in> set (dec_digits n) \<Longrightarrow> is_digit b"
  using dec_digits_all_digits [of n] by (simp add: list_all_iff)

lemma digits_val_dec [simp]: "digits_val (dec_digits n) = n"
proof (induction n rule: dec_digits.induct)
  case (1 n)
  show ?case
  proof (cases "n < 10")
    case True
    then show ?thesis by (subst dec_digits.simps) (simp add: digits_val_def)
  next
    case False
    with 1 have "digits_val (dec_digits (n div 10)) = n div 10" by simp
    with False show ?thesis by (subst dec_digits.simps) simp
  qed
qed

lemma hd_dec_digits: "is_digit (hd (dec_digits n))"
  by (rule dec_digits_mem [of _ n]) simp

lemma dec_digits_inj: "dec_digits m = dec_digits n \<Longrightarrow> m = n"
  by (metis digits_val_dec)

lemma parse_u64_str_dec [simp]:
  assumes "n \<le> u64_max" shows "parse_u64_str (dec_digits n) = Some n"
proof -
  obtain b r where br: "dec_digits n = b # r"
    by (cases "dec_digits n") simp_all
  then have "b \<noteq> 43"
    using hd_dec_digits [of n] by auto
  with br assms show ?thesis
    using digits_val_dec [of n] dec_digits_all_digits [of n]
    by (simp add: parse_u64_str_def checked_u64_def Let_def)
qed

lemma parse_i64_str_dec [simp]:
  assumes "in_i64 n" shows "parse_i64_str (dec_int n) = Some n"
proof -
  obtain b r where br: "dec_digits (nat n) = b # r"
    by (cases "dec_digits (nat n)") simp_all
  then have "b \<noteq> 43" "b \<noteq> 45"
    using hd_dec_digits [of "nat n"] by auto
  with br assms show ?thesis
    using digits_val_dec [of "nat n"] dec_digits_all_digits [of "nat n"]
    by (auto simp: parse_i64_str_def dec_int_def checked_i64_def Let_def)
qed

section \<open>Powers of two\<close>

text \<open>\<open>usize::checked_next_power_of_two\<close>.\<close>

function pow2_from :: "nat \<Rightarrow> nat \<Rightarrow> nat" where
  "pow2_from n p = (if n \<le> p \<or> p = 0 then p else pow2_from n (2 * p))"
  by pat_completeness auto
termination
  by (relation "measure (\<lambda>(n, p). n - p)") auto

declare pow2_from.simps [simp del]

definition checked_next_power_of_two :: "nat \<Rightarrow> nat option" where
  "checked_next_power_of_two n = (let p = pow2_from n 1 in if p < 2 ^ 64 then Some p else None)"

lemma pow2_from_power:
  assumes "p = 2 ^ j" "2 ^ j < 2 * n" "0 < n"
  shows "\<exists>k. pow2_from n p = 2 ^ k \<and> n \<le> 2 ^ k \<and> 2 ^ k < 2 * n"
  using assms
proof (induction n p arbitrary: j rule: pow2_from.induct)
  case (1 n p)
  show ?case
  proof (cases "n \<le> p")
    case True
    then show ?thesis using "1.prems" by (subst pow2_from.simps) auto
  next
    case False
    then have "\<exists>k. pow2_from n (2 * p) = 2 ^ k \<and> n \<le> 2 ^ k \<and> 2 ^ k < 2 * n"
      using "1.prems" by (intro "1.IH" [of "Suc j"]) auto
    then show ?thesis using False "1.prems"(1) by (subst pow2_from.simps) simp
  qed
qed

section \<open>Positions on a circle\<close>

lemma window_inj:
  fixes i j n :: nat
  assumes "i mod n = j mod n" "i < j + n" "j < i + n"
  shows "i = j"
proof -
  have "n dvd i - j" "n dvd j - i" using assms(1) mod_eq_dvd_iff_nat by (metis dvd_0_right diff_is_0_eq linear)+
  then show ?thesis using assms(2,3) by (metis add_diff_cancel_left' dvd_imp_le le_antisym le_neq_implies_less
        less_diff_conv2 linorder_not_less nat_less_le zero_less_diff add.commute)
qed

end
