(* ===== verification/Resp_Argv.thy ===== *)
theory Resp_Argv
  imports Kevy_Prelude
begin

text \<open>
  The argument vectors of \<open>kevy-resp\<close>: the owned \<open>Argv\<close> (one byte buffer and the end
  offsets, \<open>argv.rs\<close>), the zero-copy \<open>ArgvBorrowed\<close> (\<open>argv_borrowed.rs\<close>) and its
  range table \<open>InlineRanges\<close> with four in-place slots and a heap overflow
  (\<open>inline_ranges.rs\<close>). Offsets are stored as \<open>u32\<close>, so the truncation is written
  out; the view laws hold for buffers below 4 GiB, and the locale \<open>argv_view\<close> is the
  contract both kinds of vector meet.
\<close>

definition as_u32 :: "nat \<Rightarrow> nat" where
  "as_u32 n = n mod 4294967296"

lemma as_u32_small [simp]: "n < 4294967296 \<Longrightarrow> as_u32 n = n"
  by (simp add: as_u32_def)

section \<open>Argv\<close>

record argv =
  argv_buf :: bytes
  argv_ends :: "nat list"

definition argv_default :: argv where
  "argv_default = \<lparr>argv_buf = [], argv_ends = []\<rparr>"

definition argv_clear :: "argv \<Rightarrow> argv" where
  "argv_clear a = a\<lparr>argv_buf := [], argv_ends := []\<rparr>"

definition argv_push :: "argv \<Rightarrow> bytes \<Rightarrow> argv" where
  "argv_push a arg = (let b = argv_buf a @ arg in a\<lparr>argv_buf := b, argv_ends := argv_ends a @ [as_u32 (length b)]\<rparr>)"

definition argv_len :: "argv \<Rightarrow> nat" where
  "argv_len a = length (argv_ends a)"

definition argv_is_empty :: "argv \<Rightarrow> bool" where
  "argv_is_empty a \<longleftrightarrow> argv_ends a = []"

definition argv_get :: "argv \<Rightarrow> nat \<Rightarrow> bytes option" where
  "argv_get a i =
     (case nth_opt (argv_ends a) i of None \<Rightarrow> None
      | Some e \<Rightarrow> (let s = (if i = 0 then 0 else argv_ends a ! (i - 1)) in Some (slice (argv_buf a) s e)))"

definition argv_first :: "argv \<Rightarrow> bytes option" where
  "argv_first a = argv_get a 0"

text \<open>\<open>Argv::iter\<close> collected: the arguments in order.\<close>

definition argv_list :: "argv \<Rightarrow> bytes list" where
  "argv_list a = map (\<lambda>i. the (argv_get a i)) [0..<argv_len a]"

text \<open>\<open>Extend<&[u8]>\<close> and \<open>From<Vec<Vec<u8>>>\<close>.\<close>

definition argv_extend :: "argv \<Rightarrow> bytes list \<Rightarrow> argv" where
  "argv_extend a args = foldl argv_push a args"

definition argv_from :: "bytes list \<Rightarrow> argv" where
  "argv_from args = argv_extend argv_default args"

text \<open>The offsets of an \<open>Argv\<close> are the running lengths of its arguments.\<close>

definition argv_wf :: "argv \<Rightarrow> bool" where
  "argv_wf a \<longleftrightarrow> sorted (argv_ends a) \<and> (\<forall>e \<in> set (argv_ends a). e \<le> length (argv_buf a)) \<and>
     last (0 # argv_ends a) = length (argv_buf a) \<and> length (argv_buf a) < 4294967296"

section \<open>InlineRanges\<close>

record inline_ranges =
  ir_inline :: "(nat \<times> nat) list"
  ir_heap :: "(nat \<times> nat) list"
  ir_len :: nat

abbreviation (input) inline_cap :: nat where "inline_cap \<equiv> 4"

definition ranges_new :: inline_ranges where
  "ranges_new = \<lparr>ir_inline = replicate inline_cap (0, 0), ir_heap = [], ir_len = 0\<rparr>"

definition ranges_push :: "inline_ranges \<Rightarrow> nat \<times> nat \<Rightarrow> inline_ranges" where
  "ranges_push r v =
     (let r' = (if ir_len r < inline_cap then r\<lparr>ir_inline := (ir_inline r)[ir_len r := v]\<rparr>
                else r\<lparr>ir_heap := ir_heap r @ [v]\<rparr>)
      in r'\<lparr>ir_len := ir_len r + 1\<rparr>)"

definition ranges_get :: "inline_ranges \<Rightarrow> nat \<Rightarrow> (nat \<times> nat) option" where
  "ranges_get r i =
     (if i \<ge> ir_len r then None
      else if i < inline_cap then Some (ir_inline r ! i) else Some (ir_heap r ! (i - inline_cap)))"

text \<open>The table as one list; the four slots are always present.\<close>

definition ranges_wf :: "inline_ranges \<Rightarrow> bool" where
  "ranges_wf r \<longleftrightarrow> length (ir_inline r) = inline_cap \<and> length (ir_heap r) = ir_len r - inline_cap"

definition ranges_list :: "inline_ranges \<Rightarrow> (nat \<times> nat) list" where
  "ranges_list r = take (ir_len r) (ir_inline r) @ ir_heap r"

section \<open>ArgvBorrowed\<close>

record argv_borrowed =
  ab_input :: bytes
  ab_ranges :: inline_ranges

definition borrowed_new :: "bytes \<Rightarrow> argv_borrowed" where
  "borrowed_new b = \<lparr>ab_input = b, ab_ranges = ranges_new\<rparr>"

definition push_range :: "argv_borrowed \<Rightarrow> nat \<Rightarrow> nat \<Rightarrow> argv_borrowed" where
  "push_range a s e = a\<lparr>ab_ranges := ranges_push (ab_ranges a) (as_u32 s, as_u32 e)\<rparr>"

definition borrowed_len :: "argv_borrowed \<Rightarrow> nat" where
  "borrowed_len a = ir_len (ab_ranges a)"

definition borrowed_is_empty :: "argv_borrowed \<Rightarrow> bool" where
  "borrowed_is_empty a \<longleftrightarrow> ir_len (ab_ranges a) = 0"

definition borrowed_get :: "argv_borrowed \<Rightarrow> nat \<Rightarrow> bytes option" where
  "borrowed_get a i =
     (case ranges_get (ab_ranges a) i of None \<Rightarrow> None | Some (s, e) \<Rightarrow> Some (slice (ab_input a) s e))"

definition borrowed_first :: "argv_borrowed \<Rightarrow> bytes option" where
  "borrowed_first a = borrowed_get a 0"

definition borrowed_list :: "argv_borrowed \<Rightarrow> bytes list" where
  "borrowed_list a = map (\<lambda>i. the (borrowed_get a i)) [0..<borrowed_len a]"

definition into_owned :: "argv_borrowed \<Rightarrow> argv" where
  "into_owned a =
     foldl (\<lambda>out i. case the (ranges_get (ab_ranges a) i) of (s, e) \<Rightarrow> argv_push out (slice (ab_input a) s e))
       argv_default [0..<ir_len (ab_ranges a)]"

section \<open>The view contract\<close>

text \<open>
  \<open>ArgvView\<close> of \<open>argv_view.rs\<close>: a length and an indexed read that is \<open>Some\<close> exactly
  below the length. \<open>copy_into\<close> and \<open>to_argv\<close> are its provided methods.
\<close>

locale argv_view =
  fixes vlen :: "'v \<Rightarrow> nat"
    and vget :: "'v \<Rightarrow> nat \<Rightarrow> bytes option"
  assumes get_in_range: "vget v i \<noteq> None \<longleftrightarrow> i < vlen v"
begin

definition vlist :: "'v \<Rightarrow> bytes list" where
  "vlist v = map (\<lambda>i. the (vget v i)) [0..<vlen v]"

lemma vlist_length: "length (vlist v) = vlen v"
  by (simp add: vlist_def)

lemma vget_vlist: "vget v i = nth_opt (vlist v) i"
  using get_in_range [of v i] by (cases "i < vlen v") (auto simp: vlist_def nth_opt_def)

end

definition copy_into :: "nat \<Rightarrow> (nat \<Rightarrow> bytes option) \<Rightarrow> argv \<Rightarrow> argv" where
  "copy_into n get out =
     foldl (\<lambda>o' i. case get i of Some arg \<Rightarrow> argv_push o' arg | None \<Rightarrow> o') (argv_clear out) [0..<n]"

interpretation owned: argv_view argv_len argv_get
  by unfold_locales (simp add: argv_get_def argv_len_def nth_opt_def Let_def)

interpretation borrowed: argv_view borrowed_len borrowed_get
  by unfold_locales (auto simp: borrowed_get_def borrowed_len_def ranges_get_def split: prod.splits)

lemma argv_list_view: "argv_list a = owned.vlist a"
  by (simp add: argv_list_def owned.vlist_def)

lemma borrowed_list_view: "borrowed_list a = borrowed.vlist a"
  by (simp add: borrowed_list_def borrowed.vlist_def)

section \<open>Laws of the owned vector\<close>

lemma argv_wf_default [simp]: "argv_wf argv_default"
  by (simp add: argv_wf_def argv_default_def)

lemma argv_wf_clear [simp]: "argv_wf (argv_clear a)"
  by (simp add: argv_wf_def argv_clear_def)

lemma argv_clear_eq: "argv_clear a = argv_default"
  by (simp add: argv_clear_def argv_default_def)

lemma argv_list_default [simp]: "argv_list argv_default = []"
  by (simp add: argv_list_def argv_len_def argv_default_def)

lemma buf_default [simp]: "argv_buf argv_default = []"
  by (simp add: argv_default_def)

lemma argv_is_empty_iff: "argv_is_empty a \<longleftrightarrow> argv_list a = []"
  by (auto simp: argv_is_empty_def argv_list_def argv_len_def)

lemma argv_push_wf:
  assumes "argv_wf a" "length (argv_buf a) + length arg < 4294967296"
  shows "argv_wf (argv_push a arg)"
  using assms by (auto simp: argv_wf_def argv_push_def Let_def sorted_append)

lemma argv_push_buf [simp]: "argv_buf (argv_push a arg) = argv_buf a @ arg"
  by (simp add: argv_push_def Let_def)

lemma argv_push_list:
  assumes "argv_wf a" "length (argv_buf a) + length arg < 4294967296"
  shows "argv_list (argv_push a arg) = argv_list a @ [arg]"
proof -
  let ?a = "argv_push a arg"
  have argv_ends: "argv_ends ?a = argv_ends a @ [length (argv_buf a) + length arg]"
    using assms(2) by (simp add: argv_push_def Let_def)
  have old: "argv_get ?a i = argv_get a i" if "i < argv_len a" for i
  proof -
    have "argv_ends a ! i \<le> length (argv_buf a)" "i - 1 < length (argv_ends a)"
      using that assms(1) by (auto simp: argv_wf_def argv_len_def)
    with that show ?thesis
      by (simp add: argv_get_def argv_len_def argv_ends nth_opt_def nth_append Let_def)
  qed
  have start: "(if argv_len a = 0 then 0 else argv_ends ?a ! (argv_len a - 1)) = length (argv_buf a)"
    using assms(1) by (cases "argv_ends a" rule: rev_cases)
      (auto simp: argv_wf_def argv_len_def argv_ends nth_append split: if_splits)
  have "argv_get ?a (argv_len a) = Some (slice (argv_buf a @ arg) (length (argv_buf a)) (length (argv_buf a) + length arg))"
    using start by (simp add: argv_get_def nth_opt_def Let_def) (simp add: argv_len_def argv_ends)
  then have new: "argv_get ?a (argv_len a) = Some arg"
    using slice_mid [of "argv_buf a" arg "[]"] by simp
  have "argv_len ?a = Suc (argv_len a)"
    by (simp add: argv_len_def argv_ends)
  then show ?thesis
    using old new by (simp add: argv_list_def)
qed

lemma argv_extend_list:
  assumes "argv_wf a" "length (argv_buf a) + sum_list (map length args) < 4294967296"
  shows "argv_wf (argv_extend a args) \<and> argv_list (argv_extend a args) = argv_list a @ args \<and>
    argv_buf (argv_extend a args) = argv_buf a @ concat args"
  using assms
proof (induction args arbitrary: a)
  case Nil
  then show ?case by (simp add: argv_extend_def)
next
  case (Cons arg args)
  have "argv_wf (argv_push a arg)" "argv_list (argv_push a arg) = argv_list a @ [arg]"
    using Cons.prems by (auto intro: argv_push_wf argv_push_list)
  with Cons show ?case by (simp add: argv_extend_def)
qed

lemma argv_list_from:
  "sum_list (map length args) < 4294967296 \<Longrightarrow> argv_list (argv_from args) = args"
  using argv_extend_list [of argv_default args] by (simp add: argv_from_def)

lemma argv_clear_extend: "argv_extend (argv_clear a) args = argv_from args"
  by (simp add: argv_from_def argv_clear_eq)

section \<open>Laws of the borrowed vector\<close>

lemma ranges_new_wf [simp]: "ranges_wf ranges_new" "ranges_list ranges_new = []"
  by (simp_all add: ranges_wf_def ranges_list_def ranges_new_def)

lemma ranges_push_wf:
  assumes "ranges_wf r"
  shows "ranges_wf (ranges_push r v)" "ranges_list (ranges_push r v) = ranges_list r @ [v]"
proof -
  show "ranges_wf (ranges_push r v)"
    using assms by (auto simp: ranges_wf_def ranges_push_def Let_def)
  show "ranges_list (ranges_push r v) = ranges_list r @ [v]"
  proof (cases "ir_len r < inline_cap")
    case True
    then have "take (ir_len r + 1) ((ir_inline r)[ir_len r := v]) = take (ir_len r) (ir_inline r) @ [v]"
      using assms by (simp add: ranges_wf_def take_Suc_conv_app_nth)
    with True assms show ?thesis
      by (simp add: ranges_wf_def ranges_list_def ranges_push_def Let_def)
  next
    case False
    with assms show ?thesis
      by (simp add: ranges_wf_def ranges_list_def ranges_push_def Let_def)
  qed
qed

lemma ranges_get_list:
  assumes "ranges_wf r" shows "ranges_get r i = nth_opt (ranges_list r) i" "ir_len r = length (ranges_list r)"
proof -
  show l: "ir_len r = length (ranges_list r)"
    using assms by (simp add: ranges_wf_def ranges_list_def)
  show "ranges_get r i = nth_opt (ranges_list r) i"
  proof (cases "i < ir_len r")
    case True
    then show ?thesis
      using assms l [symmetric] by (cases "i < inline_cap")
        (simp_all add: ranges_get_def nth_opt_def, simp_all add: ranges_list_def ranges_wf_def nth_append min_def)
  next
    case False
    then show ?thesis using l [symmetric] by (simp add: ranges_get_def nth_opt_def)
  qed
qed

text \<open>The arguments a borrowed vector shows, from its range list.\<close>

definition borrowed_wf :: "argv_borrowed \<Rightarrow> bool" where
  "borrowed_wf a \<longleftrightarrow> ranges_wf (ab_ranges a) \<and> length (ab_input a) < 4294967296"

lemma borrowed_list_ranges:
  assumes "borrowed_wf a"
  shows "borrowed_list a = map (\<lambda>(s, e). slice (ab_input a) s e) (ranges_list (ab_ranges a))"
proof -
  have r: "ir_len (ab_ranges a) = length (ranges_list (ab_ranges a))"
    "\<And>i. ranges_get (ab_ranges a) i = nth_opt (ranges_list (ab_ranges a)) i"
    using assms by (simp_all add: borrowed_wf_def ranges_get_list)
  show ?thesis
    unfolding borrowed_list_def borrowed_len_def r(1)
    by (rule nth_equalityI) (simp_all add: borrowed_get_def r(2) nth_opt_def split: prod.splits)
qed

lemma borrowed_new_wf [simp]:
  "length b < 4294967296 \<Longrightarrow> borrowed_wf (borrowed_new b)"
  "borrowed_list (borrowed_new b) = []" "ab_input (borrowed_new b) = b"
  by (simp_all add: borrowed_wf_def borrowed_new_def borrowed_list_def borrowed_len_def ranges_new_def)
    (simp add: ranges_wf_def)

lemma push_range_wf:
  assumes "borrowed_wf a" "s \<le> e" "e \<le> length (ab_input a)"
  shows "borrowed_wf (push_range a s e)"
    "borrowed_list (push_range a s e) = borrowed_list a @ [slice (ab_input a) s e]"
    "ab_input (push_range a s e) = ab_input a"
proof -
  have "as_u32 s = s" "as_u32 e = e"
    using assms by (simp_all add: borrowed_wf_def)
  then show wf: "borrowed_wf (push_range a s e)" and "ab_input (push_range a s e) = ab_input a"
    using assms(1) by (simp_all add: borrowed_wf_def push_range_def ranges_push_wf)
  then show "borrowed_list (push_range a s e) = borrowed_list a @ [slice (ab_input a) s e]"
    using assms(1) \<open>as_u32 s = s\<close> \<open>as_u32 e = e\<close>
    by (simp add: borrowed_list_ranges) (simp add: borrowed_wf_def push_range_def ranges_push_wf)
qed

lemma borrowed_is_empty_iff: "borrowed_is_empty a \<longleftrightarrow> borrowed_list a = []"
  by (auto simp: borrowed_is_empty_def borrowed_list_def borrowed_len_def)

lemma into_owned_eq: "into_owned a = argv_from (borrowed_list a)"
proof -
  have "(case the (ranges_get (ab_ranges a) i) of (s, e) \<Rightarrow> argv_push out (slice (ab_input a) s e)) =
      argv_push out (the (borrowed_get a i))" if "i < ir_len (ab_ranges a)" for out i
    using that by (auto simp: borrowed_get_def ranges_get_def split: prod.splits)
  then show ?thesis
    unfolding into_owned_def argv_from_def argv_extend_def borrowed_list_def borrowed_len_def foldl_map
    by (intro foldl_cong) auto
qed

text \<open>\<open>copy_into\<close> through either view rebuilds the same arguments.\<close>

lemma copy_into_view:
  assumes "\<And>i. i < n \<Longrightarrow> get i = Some (args ! i)" "length args = n"
  shows "copy_into n get out = argv_from args"
proof -
  have "foldl (\<lambda>o' i. case get i of Some arg \<Rightarrow> argv_push o' arg | None \<Rightarrow> o') x [0..<n]
      = foldl (\<lambda>o' i. argv_push o' (args ! i)) x [0..<n]" for x
    using assms(1) by (intro foldl_cong) auto
  moreover have "foldl (\<lambda>o' i. argv_push o' (args ! i)) x [0..<n] = foldl argv_push x args" for x
    using assms(2) map_nth [of args] foldl_map [of argv_push x "(!) args" "[0..<n]"] by simp
  ultimately show ?thesis
    by (simp add: copy_into_def argv_from_def argv_extend_def argv_clear_eq)
qed

end
