(* ===== verification/Resp_Encode.thy ===== *)
theory Resp_Encode
  imports Kevy_Prelude
begin

text \<open>
  The RESP2 and RESP3 encoders of \<open>kevy-resp\<close> (\<open>reply_encode.rs\<close>,
  \<open>reply_encode_resp3.rs\<close>): every function appends to an output buffer, which is passed
  and returned. Integers are written digit by digit into a small stack array; the lemmas
  show that the loops produce the decimal text and that the arrays are large enough.
\<close>

section \<open>Integers\<close>

abbreviation crlf :: bytes where "crlf \<equiv> [13, 10]"

text \<open>
  The loop of \<open>push_int\<close>: \<open>v\<close> keeps its sign (so \<open>i64::MIN\<close> needs no negation) and the
  digits fill \<open>tmp\<close> from its end.
\<close>

function push_int_loop :: "int \<Rightarrow> bytes \<Rightarrow> bytes" where
  "push_int_loop v tmp =
     (if v = 0 then tmp
      else push_int_loop (quot_trunc v 10) (digit_byte (nat \<bar>rem_trunc v 10\<bar>) # tmp))"
  by pat_completeness auto
termination
  by (relation "measure (\<lambda>(v, tmp). nat \<bar>v\<bar>)") (auto simp: quot_trunc_def abs_mult)

declare push_int_loop.simps [simp del]

definition push_int :: "bytes \<Rightarrow> int \<Rightarrow> bytes" where
  "push_int out n =
     (if n = 0 then out @ [48]
      else (let out' = (if n < 0 then out @ [45] else out) in out' @ push_int_loop n []))"

text \<open>\<open>bulk_header\<close>: digits, then the dollar, filled from the end; the loop body runs once for 0.\<close>

fun header_digits :: "nat \<Rightarrow> bytes \<Rightarrow> bytes" where
  "header_digits n tmp =
     (let tmp' = digit_byte (n mod 10) # tmp in
      if n div 10 = 0 then tmp' else header_digits (n div 10) tmp')"

declare header_digits.simps [simp del]

definition bulk_header :: "bytes \<Rightarrow> nat \<Rightarrow> bytes" where
  "bulk_header out n = out @ 36 # header_digits n crlf"

section \<open>RESP2\<close>

definition encode_simple_string :: "bytes \<Rightarrow> bytes \<Rightarrow> bytes" where
  "encode_simple_string out s = ((out @ [43]) @ s) @ crlf"

definition encode_error :: "bytes \<Rightarrow> bytes \<Rightarrow> bytes" where
  "encode_error out s = ((out @ [45]) @ s) @ crlf"

definition encode_integer :: "bytes \<Rightarrow> int \<Rightarrow> bytes" where
  "encode_integer out n = push_int (out @ [58]) n @ crlf"

definition encode_bulk :: "bytes \<Rightarrow> bytes \<Rightarrow> bytes" where
  "encode_bulk out data = (bulk_header out (length data) @ data) @ crlf"

text \<open>
  \<open>encode_bulk_with\<close>: the body is written first, the header after it, and
  \<open>rotate_right\<close> brings the header to the front.
\<close>

definition rotate_right :: "nat \<Rightarrow> 'a list \<Rightarrow> 'a list" where
  "rotate_right k xs = drop (length xs - k) xs @ take (length xs - k) xs"

definition encode_bulk_with :: "bytes \<Rightarrow> (bytes \<Rightarrow> bytes) \<Rightarrow> bytes" where
  "encode_bulk_with out body =
     (let start = length out; out1 = body out; n = length out1 - start;
          out2 = bulk_header out1 n; head = length out2 - start - n
      in (take start out2 @ rotate_right head (drop start out2)) @ crlf)"

definition encode_bulk_int :: "bytes \<Rightarrow> int \<Rightarrow> bytes" where
  "encode_bulk_int out n = encode_bulk_with out (\<lambda>o'. push_int o' n)"

definition encode_null_bulk :: "bytes \<Rightarrow> bytes" where
  "encode_null_bulk out = out @ [36, 45, 49, 13, 10]"

definition encode_array_len :: "bytes \<Rightarrow> int \<Rightarrow> bytes" where
  "encode_array_len out len = push_int (out @ [42]) len @ crlf"

definition encode_command :: "bytes \<Rightarrow> bytes list \<Rightarrow> bytes" where
  "encode_command out args = foldl encode_bulk (encode_array_len out (int (length args))) args"

section \<open>RESP3\<close>

definition encode_map_header :: "bytes \<Rightarrow> int \<Rightarrow> bytes" where
  "encode_map_header out count = push_int (out @ [37]) count @ crlf"

definition encode_set_header :: "bytes \<Rightarrow> int \<Rightarrow> bytes" where
  "encode_set_header out count = push_int (out @ [126]) count @ crlf"

definition encode_push_header :: "bytes \<Rightarrow> int \<Rightarrow> bytes" where
  "encode_push_header out count = push_int (out @ [62]) count @ crlf"

definition encode_boolean :: "bytes \<Rightarrow> bool \<Rightarrow> bytes" where
  "encode_boolean out v = out @ (if v then [35, 116, 13, 10] else [35, 102, 13, 10])"

definition encode_null :: "bytes \<Rightarrow> bytes" where
  "encode_null out = out @ [95, 13, 10]"

definition encode_big_number :: "bytes \<Rightarrow> bytes \<Rightarrow> bytes" where
  "encode_big_number out digits = ((out @ [40]) @ digits) @ crlf"

definition encode_verbatim :: "bytes \<Rightarrow> bytes \<Rightarrow> bytes \<Rightarrow> bytes" where
  "encode_verbatim out fmt data =
     (let total_len = 4 + length data
      in (((push_int (out @ [61]) (int total_len) @ crlf) @ fmt) @ [58]) @ data @ crlf)"

definition encode_blob_error :: "bytes \<Rightarrow> bytes \<Rightarrow> bytes" where
  "encode_blob_error out msg = ((push_int (out @ [33]) (int (length msg)) @ crlf) @ msg) @ crlf"

section \<open>The loops write decimal text\<close>

lemma quot_rem_10:
  assumes "v \<noteq> 0"
  shows "nat \<bar>quot_trunc v 10\<bar> = nat \<bar>v\<bar> div 10" "nat \<bar>rem_trunc v 10\<bar> = nat \<bar>v\<bar> mod 10"
proof -
  have q: "\<bar>quot_trunc v 10\<bar> = \<bar>v\<bar> div 10"
    using assms by (simp add: quot_trunc_def abs_mult)
  then show "nat \<bar>quot_trunc v 10\<bar> = nat \<bar>v\<bar> div 10"
    by (simp add: nat_div_distrib)
  have "rem_trunc v 10 = sgn v * (\<bar>v\<bar> mod 10)"
  proof -
    have "v = sgn v * \<bar>v\<bar>" by (simp add: sgn_mult_abs)
    then have "rem_trunc v 10 = sgn v * (\<bar>v\<bar> - 10 * (\<bar>v\<bar> div 10))"
      by (simp add: rem_trunc_def quot_trunc_def algebra_simps)
    then show ?thesis by (simp add: minus_mult_div_eq_mod)
  qed
  then have "\<bar>rem_trunc v 10\<bar> = \<bar>v\<bar> mod 10"
    using assms by (simp add: abs_mult)
  then show "nat \<bar>rem_trunc v 10\<bar> = nat \<bar>v\<bar> mod 10"
    by (simp add: nat_mod_distrib)
qed

lemma push_int_loop_dec: "v \<noteq> 0 \<Longrightarrow> push_int_loop v tmp = dec_digits (nat \<bar>v\<bar>) @ tmp"
proof (induction v tmp rule: push_int_loop.induct)
  case (1 v tmp)
  let ?q = "quot_trunc v 10" and ?n = "nat \<bar>v\<bar>"
  let ?tmp = "digit_byte (?n mod 10) # tmp"
  have step: "push_int_loop v tmp = push_int_loop ?q ?tmp"
    using "1.prems" quot_rem_10(2) by (simp add: push_int_loop.simps [of v tmp])
  have q: "nat \<bar>?q\<bar> = ?n div 10"
    using "1.prems" by (rule quot_rem_10(1))
  show ?case
  proof (cases "?n < 10")
    case True
    then have "?q = 0" using q by auto
    with True step show ?thesis
      by (simp add: push_int_loop.simps [of 0] dec_digits.simps [of ?n])
  next
    case False
    then have "?q \<noteq> 0" using q by auto
    with "1.IH" "1.prems" quot_rem_10(2) have "push_int_loop ?q ?tmp = dec_digits (?n div 10) @ ?tmp"
      by (simp add: q)
    with False step show ?thesis
      by (simp add: dec_digits.simps [of ?n])
  qed
qed

lemma push_int_dec: "push_int out n = out @ dec_int n"
proof (cases "n = 0")
  case True
  then show ?thesis by (simp add: push_int_def dec_int_def dec_digits.simps [of 0] digit_byte_def)
next
  case False
  then show ?thesis by (simp add: push_int_def dec_int_def push_int_loop_dec Let_def)
qed

lemma header_digits_dec: "header_digits n tmp = dec_digits n @ tmp"
proof (induction n tmp rule: header_digits.induct)
  case (1 n tmp)
  then show ?case
    by (cases "n < 10") (simp_all add: header_digits.simps [of n tmp] dec_digits.simps [of n] Let_def)
qed

lemma bulk_header_dec: "bulk_header out n = out @ 36 # dec_digits n @ crlf"
  by (simp add: bulk_header_def header_digits_dec)

text \<open>A bulk frame, as one term.\<close>

definition bulk_frame :: "bytes \<Rightarrow> bytes" where
  "bulk_frame data = 36 # dec_digits (length data) @ crlf @ data @ crlf"

lemma encode_bulk_frame: "encode_bulk out data = out @ bulk_frame data"
  by (simp add: encode_bulk_def bulk_header_dec bulk_frame_def)

text \<open>Rotating the header into place gives the frame a direct write would have given.\<close>

lemma encode_bulk_with_frame:
  assumes "body out = out @ data"
  shows "encode_bulk_with out body = encode_bulk out data"
  using assms by (simp add: encode_bulk_with_def encode_bulk_def bulk_header_dec rotate_right_def Let_def)

lemma encode_bulk_int_frame: "encode_bulk_int out n = encode_bulk out (dec_int n)"
  by (simp add: encode_bulk_int_def encode_bulk_with_frame push_int_dec)

lemma encode_command_frame:
  "encode_command out args =
     out @ 42 # dec_digits (length args) @ crlf @ concat (map bulk_frame args)"
proof -
  have "foldl encode_bulk o' args = o' @ concat (map bulk_frame args)" for o'
    by (induction args arbitrary: o') (simp_all add: encode_bulk_frame)
  then show ?thesis
    by (simp add: encode_command_def encode_array_len_def push_int_dec dec_int_def)
qed

section \<open>The stack arrays are large enough\<close>

lemma length_dec_digits: "n < 10 ^ k \<Longrightarrow> 0 < k \<Longrightarrow> length (dec_digits n) \<le> k"
proof (induction n arbitrary: k rule: dec_digits.induct)
  case (1 n)
  show ?case
  proof (cases "n < 10")
    case True
    with "1.prems" show ?thesis by (simp add: dec_digits.simps [of n])
  next
    case False
    with "1.prems" obtain j where k: "k = Suc j" "0 < j"
      by (metis gr0_conv_Suc neq0_conv power_one_right One_nat_def)
    then have "n div 10 < 10 ^ j"
      using "1.prems" by (simp add: less_mult_imp_div_less mult.commute)
    with False k "1.IH" show ?thesis
      by (simp add: dec_digits.simps [of n])
  qed
qed

text \<open>
  The digits of every \<open>i64\<close> fit the 20-byte array of \<open>push_int\<close>, and the digits of
  every \<open>usize\<close> leave room for the dollar in the 23-byte array of \<open>bulk_header\<close> (21 bytes
  before the CRLF), so neither fill index runs below zero.
\<close>

lemma encode_arrays_fit:
  assumes "in_i64 n" "len \<le> u64_max"
  shows "length (push_int_loop n []) \<le> 20 \<and> 1 + length (header_digits len []) \<le> 21"
proof
  have "nat \<bar>n\<bar> < 10 ^ 20"
    using assms(1) by (auto simp: int_bounds)
  then have "length (dec_digits (nat \<bar>n\<bar>)) \<le> 20"
    by (intro length_dec_digits) simp_all
  then show "length (push_int_loop n []) \<le> 20"
    by (cases "n = 0") (simp_all add: push_int_loop_dec push_int_loop.simps [of 0])
  have "len < 10 ^ 20"
    using assms(2) by (auto simp: int_bounds)
  then show "1 + length (header_digits len []) \<le> 21"
    using length_dec_digits [of len 20] by (simp add: header_digits_dec)
qed

end
