(* ===== verification/Swar.thy ===== *)
theory Swar
  imports Kevy_Prelude
begin

text \<open>
  The word-at-a-time byte search that \<open>kevy-bytes/src/find_crlf.rs\<close> and
  \<open>kevy-hash/src/hashtag.rs\<close> share: eight bytes are loaded as one little-endian
  \<open>u64\<close>, the wanted byte is xor-ed into every lane, and a borrow trick flags the lanes
  that became zero. The lemmas show that the lowest flag is exactly the first matching
  byte, whatever the borrows do above it.
\<close>

section \<open>The machine operations\<close>

text \<open>\<open>u64::from_le_bytes\<close>.\<close>

definition from_le_bytes :: "bytes \<Rightarrow> 64 word" where
  "from_le_bytes bs = foldr (\<lambda>b w. ucast b + 256 * w) bs 0"

text \<open>\<open>u64::trailing_zeros\<close>: 64 when no bit is set.\<close>

definition trailing_zeros :: "64 word \<Rightarrow> nat" where
  "trailing_zeros w = length (takeWhile (\<lambda>i. \<not> bit w i) [0..<64])"

abbreviation lanes_lo :: "64 word" where "lanes_lo \<equiv> 0x0101010101010101"
abbreviation lanes_hi :: "64 word" where "lanes_hi \<equiv> 0x8080808080808080"

text \<open>The flag word of the zero lanes of \<open>x\<close>: \<open>x.wrapping_sub(LO) & !x & HI\<close>.\<close>

definition zero_lanes :: "64 word \<Rightarrow> 64 word" where
  "zero_lanes x = (x - lanes_lo) AND (NOT x) AND lanes_hi"

section \<open>Lanes as integers\<close>

fun le_int :: "int list \<Rightarrow> int" where
  "le_int [] = 0"
| "le_int (c # cs) = c + 256 * le_int cs"

text \<open>The lanes of \<open>x - LO\<close>: the subtraction without its borrows.\<close>

fun lane_sub :: "int list \<Rightarrow> int" where
  "lane_sub [] = 0"
| "lane_sub (c # cs) = (c - 1) + 256 * lane_sub cs"

definition lane_flag :: "int list \<Rightarrow> nat \<Rightarrow> bool" where
  "lane_flag cs k \<longleftrightarrow> bit (lane_sub cs) (8 * k + 7) \<and> \<not> bit (le_int cs) (8 * k + 7)"

definition byte_lanes :: "int list \<Rightarrow> bool" where
  "byte_lanes cs \<longleftrightarrow> (\<forall>c \<in> set cs. 0 \<le> c \<and> c < 256)"

lemma byte_lanes_simps [simp]:
  "byte_lanes []" "byte_lanes (c # cs) \<longleftrightarrow> 0 \<le> c \<and> c < 256 \<and> byte_lanes cs"
  by (auto simp: byte_lanes_def)

lemma byte_lanes_uint [simp]: "byte_lanes (map uint (bs :: bytes))"
proof -
  have "uint b < 256" for b :: u8
    using uint_lt2p [of b] by simp
  then show ?thesis by (auto simp: byte_lanes_def)
qed

lemma lane_sub_eq: "lane_sub cs = le_int cs - le_int (replicate (length cs) 1)"
  by (induction cs) simp_all

lemma bit_lane_high:
  fixes a b :: int
  assumes "0 \<le> a" "a < 256"
  shows "bit (a + 256 * b) (8 + m) = bit b m"
proof -
  have "(a + 256 * b) div 2 ^ (8 + m) = ((a + 256 * b) div 256) div 2 ^ m"
    by (simp add: power_add zdiv_zmult2_eq)
  also have "(a + 256 * b) div 256 = b"
    using assms by simp
  finally show ?thesis
    by (simp add: bit_iff_odd)
qed

lemma bit_lane_low:
  fixes a b :: int
  assumes "m < 8"
  shows "bit (a + 256 * b) m = bit a m"
proof -
  have "take_bit 8 (a + 256 * b) = take_bit 8 a"
    by (simp add: take_bit_eq_mod)
  then have "bit (take_bit 8 (a + 256 * b)) m = bit (take_bit 8 a) m"
    by (simp only:)
  then show ?thesis
    using assms by (simp only: bit_take_bit_iff simp_thms)
qed

lemma bit7_byte:
  fixes c :: int
  assumes "0 \<le> c" "c < 256" shows "bit c 7 \<longleftrightarrow> 128 \<le> c"
proof -
  have "c div 128 = (if 128 \<le> c then 1 else 0)"
    using assms by (cases "128 \<le> c") (simp_all add: div_pos_geq)
  then show ?thesis by (simp add: bit_iff_odd)
qed

lemma lane_flag_Cons_Suc:
  assumes "1 \<le> c" "c < 256"
  shows "lane_flag (c # cs) (Suc k) = lane_flag cs k"
proof -
  have "8 * Suc k + 7 = 8 + (8 * k + 7)" by simp
  then show ?thesis
    using assms bit_lane_high [of "c - 1" "lane_sub cs" "8 * k + 7"]
      bit_lane_high [of c "le_int cs" "8 * k + 7"]
    unfolding lane_flag_def lane_sub.simps le_int.simps by auto
qed

lemma lane_flag_Cons_0:
  assumes "0 \<le> c" "c < 256"
  shows "lane_flag (c # cs) 0 \<longleftrightarrow> c = 0"
proof -
  have "lane_flag (c # cs) 0 \<longleftrightarrow> bit (c - 1) 7 \<and> \<not> bit c 7"
    unfolding lane_flag_def by (simp add: bit_lane_low)
  then show ?thesis
    using assms bit7_byte [of c] bit7_byte [of "c - 1"] by (cases "c = 0") auto
qed

text \<open>Below and at the first zero lane, the flags are exact.\<close>

lemma lane_flag_exact:
  assumes "byte_lanes cs" "k < length cs" "\<forall>i < k. cs ! i \<noteq> 0"
  shows "lane_flag cs k \<longleftrightarrow> cs ! k = 0"
  using assms
proof (induction cs arbitrary: k)
  case Nil
  then show ?case by simp
next
  case (Cons c cs)
  show ?case
  proof (cases k)
    case 0
    with Cons.prems show ?thesis by (simp add: lane_flag_Cons_0)
  next
    case (Suc j)
    with Cons.prems have "c \<noteq> 0" "\<forall>i < j. cs ! i \<noteq> 0" by (auto simp: All_less_Suc2)
    with Suc Cons show ?thesis by (simp add: lane_flag_Cons_Suc)
  qed
qed

section \<open>Words and lanes\<close>

lemma uint_from_le_bytes:
  assumes "length bs \<le> 8"
  shows "uint (from_le_bytes bs) = le_int (map uint bs)"
proof -
  have "le_int (map uint bs) < 256 ^ length bs \<and> 0 \<le> le_int (map uint bs) \<and>
     (length bs \<le> 8 \<longrightarrow> uint (from_le_bytes bs) = le_int (map uint bs))" for bs
  proof (induction bs)
    case Nil
    then show ?case by (simp add: from_le_bytes_def)
  next
    case (Cons b bs)
    have b: "0 \<le> uint b" "uint b < 256"
      using uint_lt2p [of b] by simp_all
    have bound: "le_int (map uint (b # bs)) < 256 ^ length (b # bs)"
      using b Cons.IH by simp
    have "uint (from_le_bytes (b # bs)) = le_int (map uint (b # bs))" if l: "length (b # bs) \<le> 8"
    proof -
      have "from_le_bytes (b # bs) = ucast b + 256 * from_le_bytes bs"
        by (simp add: from_le_bytes_def)
      then have "uint (from_le_bytes (b # bs)) = (uint b + 256 * le_int (map uint bs)) mod 2 ^ 64"
        using Cons.IH l by (simp add: uint_word_ariths uint_up_ucast is_up mod_simps)
      moreover have "(256 :: int) ^ length (b # bs) \<le> 256 ^ 8"
        using l by (intro power_increasing) auto
      ultimately show ?thesis
        using bound b Cons.IH by (simp add: mod_pos_pos_trivial)
    qed
    with b bound Cons.IH show ?case by simp
  qed
  with assms show ?thesis by blast
qed

lemma bit_le_int:
  assumes "byte_lanes cs"
  shows "bit (le_int cs) m \<longleftrightarrow> m div 8 < length cs \<and> bit (cs ! (m div 8)) (m mod 8)"
  using assms
proof (induction cs arbitrary: m)
  case Nil
  then show ?case by simp
next
  case (Cons c cs)
  show ?case
  proof (cases "m < 8")
    case True
    then show ?thesis by (simp add: bit_lane_low)
  next
    case False
    then obtain k where k: "m = 8 + k"
      using le_Suc_ex not_less by blast
    then have "bit (le_int (c # cs)) m = bit (le_int cs) k"
      using Cons.prems by (simp add: bit_lane_high)
    moreover have "(8 + k) div 8 = Suc (k div 8)" by simp
    ultimately show ?thesis
      using Cons k by simp
  qed
qed

lemma bit_word_uint: "bit w m \<longleftrightarrow> bit (uint w) m"
  for w :: "64 word"
  by (auto simp: bit_uint_iff dest: bit_imp_le_length)

lemma from_le_bytes_xor:
  assumes "length as = 8" "length bs = 8"
  shows "from_le_bytes as XOR from_le_bytes bs = from_le_bytes (map2 (XOR) as bs)"
proof (rule word_uint_eqI)
  define cs where "cs = map2 (XOR) as bs"
  have cs: "length cs = 8" "\<And>k. k < 8 \<Longrightarrow> cs ! k = as ! k XOR bs ! k"
    using assms by (simp_all add: cs_def)
  have "bit (le_int (map uint as) XOR le_int (map uint bs)) m = bit (le_int (map uint cs)) m" for m
    using assms cs by (cases "m div 8 < 8") (simp_all add: bit_xor_iff bit_le_int uint_xor)
  then have "le_int (map uint as) XOR le_int (map uint bs) = le_int (map uint cs)"
    by (simp add: bit_eq_iff)
  then show "uint (from_le_bytes as XOR from_le_bytes bs) = uint (from_le_bytes (map2 (XOR) as bs))"
    using assms cs(1) by (simp add: uint_xor uint_from_le_bytes flip: cs_def)
qed

lemma le_int_replicate: "le_int (replicate 8 c) = 0x0101010101010101 * c"
proof -
  have "replicate 8 c = [c, c, c, c, c, c, c, c]"
    by (simp add: numeral_eq_Suc)
  then show ?thesis by simp
qed

lemma bit_lanes_hi: "bit lanes_hi m \<longleftrightarrow> m < 64 \<and> m mod 8 = 7"
proof -
  have "uint lanes_hi = le_int (replicate 8 128)"
    by (simp add: le_int_replicate)
  then have "bit lanes_hi m = bit (le_int (replicate 8 128)) m"
    by (simp only: bit_word_uint)
  also have "\<dots> \<longleftrightarrow> m div 8 < 8 \<and> bit (replicate 8 (128 :: int) ! (m div 8)) (m mod 8)"
    by (subst bit_le_int) (simp_all add: byte_lanes_def)
  also have "\<dots> \<longleftrightarrow> m div 8 < 8 \<and> bit (2 ^ 7 :: int) (m mod 8)"
    by (cases "m div 8 < 8") simp_all
  also have "\<dots> \<longleftrightarrow> m < 64 \<and> m mod 8 = 7"
    unfolding bit_exp_iff by auto
  finally show ?thesis .
qed

lemma bit_zero_lanes:
  assumes "length bs = 8"
  shows "bit (zero_lanes (from_le_bytes bs)) m \<longleftrightarrow>
    m < 64 \<and> m mod 8 = 7 \<and> lane_flag (map uint bs) (m div 8)"
proof (cases "m < 64 \<and> m mod 8 = 7")
  case True
  let ?x = "from_le_bytes bs"
  have x: "uint ?x = le_int (map uint bs)"
    using assms by (simp add: uint_from_le_bytes)
  have "le_int (replicate 8 1) = uint lanes_lo"
    by (simp add: le_int_replicate)
  then have "uint (?x - lanes_lo) = take_bit 64 (lane_sub (map uint bs))"
    using assms x by (simp add: uint_word_ariths lane_sub_eq take_bit_eq_mod)
  then have "bit (?x - lanes_lo) m = bit (lane_sub (map uint bs)) m"
    using True by (simp only: bit_word_uint bit_take_bit_iff simp_thms)
  moreover have "bit ?x m = bit (le_int (map uint bs)) m"
    using x by (simp only: bit_word_uint)
  moreover have "m = 8 * (m div 8) + 7"
    using True by presburger
  ultimately show ?thesis
    using True bit_lanes_hi [of m] unfolding zero_lanes_def lane_flag_def
    by (simp add: bit_and_iff bit_not_iff)
next
  case False
  then show ?thesis
    using bit_lanes_hi [of m] unfolding zero_lanes_def by (auto simp: bit_and_iff)
qed

lemma trailing_zeros_eq:
  assumes "bit w k" "\<forall>i < k. \<not> bit w i"
  shows "trailing_zeros w = k"
proof -
  have k: "k < 64"
    using assms(1) bit_imp_le_length by fastforce
  then have "[0..<64] = [0..<k] @ k # [Suc k..<64]"
    using upt_add_eq_append [of 0 k "64 - k"] by (simp add: upt_conv_Cons)
  moreover have "takeWhile (\<lambda>i. \<not> bit w i) [0..<k] = [0..<k]"
    using assms(2) by (simp add: takeWhile_eq_all_conv)
  ultimately show ?thesis
    using assms by (simp add: trailing_zeros_def takeWhile_append)
qed

text \<open>The lowest flag names the first zero byte; no flag means no zero byte.\<close>

lemma zero_lanes_first:
  assumes "length bs = 8" "j < 8" "bs ! j = 0" "\<forall>i < j. bs ! i \<noteq> 0"
  shows "zero_lanes (from_le_bytes bs) \<noteq> 0" "trailing_zeros (zero_lanes (from_le_bytes bs)) div 8 = j"
proof -
  let ?z = "zero_lanes (from_le_bytes bs)"
  have flag: "lane_flag (map uint bs) k \<longleftrightarrow> bs ! k = 0" if "k \<le> j" for k
    using that assms lane_flag_exact [of "map uint bs" k] by (simp add: uint_0_iff)
  have set: "bit ?z (8 * j + 7)"
    using assms flag [of j] by (simp add: bit_zero_lanes)
  moreover have "\<not> bit ?z i" if "i < 8 * j + 7" for i
  proof
    assume "bit ?z i"
    then have "i mod 8 = 7" "lane_flag (map uint bs) (i div 8)"
      using assms by (simp_all add: bit_zero_lanes)
    moreover have "i = 8 * (i div 8) + 7"
      using \<open>i mod 8 = 7\<close> mult_div_mod_eq [of 8 i] by simp
    then have "i div 8 < j"
      using that by linarith
    ultimately show False
      using flag [of "i div 8"] assms by simp
  qed
  ultimately have "trailing_zeros ?z = 8 * j + 7"
    by (intro trailing_zeros_eq) simp_all
  then show "trailing_zeros ?z div 8 = j" by simp
  show "?z \<noteq> 0" using set by auto
qed

lemma zero_lanes_none:
  assumes "length bs = 8" "0 \<notin> set bs"
  shows "zero_lanes (from_le_bytes bs) = 0"
proof (rule bit_eqI)
  fix m
  have nz: "bs ! k \<noteq> 0" if "k < 8" for k
    using that assms by (metis nth_mem)
  have "\<not> lane_flag (map uint bs) k" if "k < 8" for k
    using that assms nz lane_flag_exact [of "map uint bs" k] by (simp add: uint_0_iff)
  then show "bit (zero_lanes (from_le_bytes bs)) m = bit (0 :: 64 word) m"
    using assms by (auto simp: bit_zero_lanes)
qed

section \<open>Searching one word\<close>

text \<open>\<open>in_word\<close> of \<open>hashtag.rs\<close>, and the inlined search of \<open>find_crlf_swar\<close>.\<close>

definition in_word :: "bytes \<Rightarrow> 64 word \<Rightarrow> nat option" where
  "in_word word pat =
     (let m = zero_lanes (from_le_bytes word XOR pat)
      in if m \<noteq> 0 then Some (trailing_zeros m div 8) else None)"

lemma from_le_bytes_replicate: "from_le_bytes (replicate 8 b) = lanes_lo * ucast b"
proof (rule word_uint_eqI)
  have "uint b < 256" "0 \<le> uint b"
    using uint_lt2p [of b] by simp_all
  then show "uint (from_le_bytes (replicate 8 b)) = uint (lanes_lo * ucast b)"
    by (simp add: uint_from_le_bytes le_int_replicate uint_word_ariths uint_up_ucast is_up
        mod_pos_pos_trivial)
qed

lemma xor_eq_0_iff: "a XOR b = 0 \<longleftrightarrow> a = b"
  for a b :: u8
  by (auto simp: bit_eq_iff bit_xor_iff)

text \<open>Searching a word for a byte is searching its eight bytes in order.\<close>

lemma in_word_position:
  assumes "length bs = 8"
  shows "in_word bs (lanes_lo * ucast b) = position (\<lambda>c. c = b) bs"
proof -
  define xs where "xs = map (\<lambda>c. c XOR b) bs"
  have xs: "length xs = 8" "\<And>k. k < 8 \<Longrightarrow> xs ! k = 0 \<longleftrightarrow> bs ! k = b"
    using assms by (simp_all add: xs_def xor_eq_0_iff)
  have "map2 (XOR) bs (replicate 8 b) = xs"
    unfolding xs_def by (rule nth_equalityI) (simp_all add: assms)
  then have word: "from_le_bytes bs XOR lanes_lo * ucast b = from_le_bytes xs"
    using assms by (simp add: from_le_bytes_xor flip: from_le_bytes_replicate)
  show ?thesis
  proof (cases "position (\<lambda>c. c = b) bs")
    case None
    then have "bs ! k \<noteq> b" if "k < 8" for k
      using that assms nth_mem [of k bs] unfolding position_eq_None by metis
    then have "0 \<notin> set xs"
      using xs by (auto simp: in_set_conv_nth)
    with word None xs show ?thesis
      by (simp add: in_word_def zero_lanes_none)
  next
    case (Some j)
    then have "j < 8" "xs ! j = 0" "\<forall>i < j. xs ! i \<noteq> 0"
      using assms xs by (simp_all add: position_eq_Some)
    with word Some xs show ?thesis
      by (simp add: in_word_def zero_lanes_first)
  qed
qed

end
