(* ===== verification/Find_Crlf.thy ===== *)
theory Find_Crlf
  imports Swar
begin

text \<open>
  \<open>kevy-bytes/src/find_crlf.rs\<close>: the position of the first CRLF at or after a start
  index. Three implementations (AVX2, NEON, and the portable word-at-a-time scanner) are
  modelled loop by loop; a vector compare followed by \<open>movemask\<close>/\<open>trailing_zeros\<close>
  (or NEON's scalar rescan of the hit chunk) is the position of the first CR of the
  chunk. All three are shown equal to the scalar scan, whatever the build target is.
\<close>

section \<open>The scanners\<close>

text \<open>The scalar tail loop of \<open>find_crlf_swar\<close>, which is also the reference scan.\<close>

function find_crlf_tail :: "bytes \<Rightarrow> nat \<Rightarrow> nat option" where
  "find_crlf_tail buf i =
     (if i + 1 < length buf
      then if buf ! i = 13 \<and> buf ! (i + 1) = 10 then Some i else find_crlf_tail buf (i + 1)
      else None)"
  by pat_completeness auto
termination
  by (relation "measure (\<lambda>(buf, i). length buf - i)") auto

declare find_crlf_tail.simps [simp del]

abbreviation cr_bcast :: "64 word" where "cr_bcast \<equiv> 0x0D0D0D0D0D0D0D0D"

text \<open>
  The main loop of \<open>find_crlf_swar\<close>. The position comes from \<open>in_word\<close>, and every
  round moves the cursor forward, so the loop ends.
\<close>

function swar_loop :: "bytes \<Rightarrow> nat \<Rightarrow> nat option" where
  "swar_loop buf i =
     (if i + 8 < length buf
      then case in_word (slice buf i (i + 8)) cr_bcast of
             Some p \<Rightarrow> (if buf ! (i + p + 1) = 10 then Some (i + p) else swar_loop buf (i + p + 1))
           | None \<Rightarrow> swar_loop buf (i + 8)
      else find_crlf_tail buf i)"
  by pat_completeness auto
termination
  by (relation "measure (\<lambda>(buf, i). length buf - i)") auto

declare swar_loop.simps [simp del]

definition find_crlf_swar :: "bytes \<Rightarrow> nat \<Rightarrow> nat option" where
  "find_crlf_swar buf start = (if start + 1 \<ge> length buf then None else swar_loop buf start)"

function avx2_loop :: "bytes \<Rightarrow> nat \<Rightarrow> nat option" where
  "avx2_loop buf i =
     (if i + 32 < length buf
      then case position (\<lambda>b. b = 13) (slice buf i (i + 32)) of
             Some p \<Rightarrow> (if buf ! (i + p + 1) = 10 then Some (i + p) else avx2_loop buf (i + p + 1))
           | None \<Rightarrow> avx2_loop buf (i + 32)
      else find_crlf_swar buf i)"
  by pat_completeness auto
termination
  by (relation "measure (\<lambda>(buf, i). length buf - i)") auto

declare avx2_loop.simps [simp del]

definition find_crlf_avx2 :: "bytes \<Rightarrow> nat \<Rightarrow> nat option" where
  "find_crlf_avx2 buf start = (if start + 1 \<ge> length buf then None else avx2_loop buf start)"

function neon_loop :: "bytes \<Rightarrow> nat \<Rightarrow> nat option" where
  "neon_loop buf i =
     (if i + 16 < length buf
      then case position (\<lambda>b. b = 13) (slice buf i (i + 16)) of
             Some j \<Rightarrow> (if buf ! (i + j + 1) = 10 then Some (i + j) else find_crlf_swar buf (i + j + 1))
           | None \<Rightarrow> neon_loop buf (i + 16)
      else find_crlf_swar buf i)"
  by pat_completeness auto
termination
  by (relation "measure (\<lambda>(buf, i). length buf - i)") auto

declare neon_loop.simps [simp del]

definition find_crlf_neon :: "bytes \<Rightarrow> nat \<Rightarrow> nat option" where
  "find_crlf_neon buf start = (if start + 1 \<ge> length buf then None else neon_loop buf start)"

text \<open>The build target decides which scanner runs; on x86-64 the CPU is asked at run time.\<close>

datatype target = X86_64 (has_avx2: bool) | Aarch64 | Other

fun find_crlf_on :: "target \<Rightarrow> bytes \<Rightarrow> nat \<Rightarrow> nat option" where
  "find_crlf_on (X86_64 avx2) buf start =
     (if avx2 then find_crlf_avx2 buf start else find_crlf_swar buf start)"
| "find_crlf_on Aarch64 buf start = find_crlf_neon buf start"
| "find_crlf_on Other buf start = find_crlf_swar buf start"

text \<open>The parsers call \<open>find_crlf\<close>; the portable build is used where a target matters not.\<close>

definition find_crlf :: "bytes \<Rightarrow> nat \<Rightarrow> nat option" where
  "find_crlf buf start = find_crlf_on Other buf start"

section \<open>The scanners agree\<close>

lemma find_crlf_tail_short: "length buf \<le> i + 1 \<Longrightarrow> find_crlf_tail buf i = None"
  by (simp add: find_crlf_tail.simps [of buf i])

lemma find_crlf_tail_step:
  "\<not> (buf ! i = 13 \<and> buf ! (i + 1) = 10) \<Longrightarrow> find_crlf_tail buf i = find_crlf_tail buf (i + 1)"
  by (cases "i + 1 < length buf")
    (auto simp: find_crlf_tail.simps [of buf i] find_crlf_tail_short)

lemma find_crlf_tail_skip:
  assumes "\<And>j. i \<le> j \<Longrightarrow> j < i + k \<Longrightarrow> buf ! j \<noteq> 13"
  shows "find_crlf_tail buf i = find_crlf_tail buf (i + k)"
  using assms
proof (induction k)
  case 0
  then show ?case by simp
next
  case (Suc k)
  then have "find_crlf_tail buf i = find_crlf_tail buf (i + k)" by simp
  also have "\<dots> = find_crlf_tail buf (i + k + 1)"
    using Suc.prems [of "i + k"] by (intro find_crlf_tail_step) simp
  finally show ?case by simp
qed

text \<open>One chunk of any width: skip to its first CR, or past the chunk when it has none.\<close>

lemma chunk_Some:
  assumes "position (\<lambda>b. b = 13) (slice buf i (i + w)) = Some p" "i + w < length buf"
  shows "find_crlf_tail buf i =
    (if buf ! (i + p + 1) = 10 then Some (i + p) else find_crlf_tail buf (i + p + 1))"
    and "p < w"
proof -
  have nth: "slice buf i (i + w) ! j = buf ! (i + j)" if "j < w" for j
    using that assms(2) by (simp add: slice_def)
  have p: "p < w" "buf ! (i + p) = 13" "\<And>j. j < p \<Longrightarrow> buf ! (i + j) \<noteq> 13"
    using assms nth by (auto simp: position_eq_Some length_slice)
  then show "p < w" by simp
  have "find_crlf_tail buf i = find_crlf_tail buf (i + p)"
    using p(3) by (intro find_crlf_tail_skip) (metis le_add_diff_inverse nat_add_left_cancel_less)
  also have "\<dots> = (if buf ! (i + p + 1) = 10 then Some (i + p) else find_crlf_tail buf (i + p + 1))"
    using p assms(2) by (simp add: find_crlf_tail.simps [of buf "i + p"])
  finally show "find_crlf_tail buf i =
    (if buf ! (i + p + 1) = 10 then Some (i + p) else find_crlf_tail buf (i + p + 1))" .
qed

lemma chunk_None:
  assumes "position (\<lambda>b. b = 13) (slice buf i (i + w)) = None" "i + w < length buf"
  shows "find_crlf_tail buf i = find_crlf_tail buf (i + w)"
proof (rule find_crlf_tail_skip)
  fix j assume j: "i \<le> j" "j < i + w"
  then have "slice buf i (i + w) ! (j - i) = buf ! j" "j - i < length (slice buf i (i + w))"
    using assms(2) by (simp_all add: slice_def)
  then show "buf ! j \<noteq> 13"
    using assms(1) nth_mem by (fastforce simp: position_eq_None)
qed

lemma in_word_cr: "length bs = 8 \<Longrightarrow> in_word bs cr_bcast = position (\<lambda>b. b = 13) bs"
  using in_word_position [of bs 13] by simp

lemma swar_loop_eq: "swar_loop buf i = find_crlf_tail buf i"
proof (induction buf i rule: swar_loop.induct)
  case (1 buf i)
  show ?case
  proof (cases "i + 8 < length buf")
    case True
    then have w: "in_word (slice buf i (i + 8)) cr_bcast = position (\<lambda>b. b = 13) (slice buf i (i + 8))"
      by (intro in_word_cr) (simp add: slice_def)
    show ?thesis
    proof (cases "position (\<lambda>b. b = 13) (slice buf i (i + 8))")
      case None
      with True w "1.IH"(1) chunk_None [OF None True] show ?thesis
        by (simp add: swar_loop.simps [of buf i])
    next
      case (Some p)
      with True w "1.IH"(2) chunk_Some [OF Some True] show ?thesis
        by (simp add: swar_loop.simps [of buf i])
    qed
  next
    case False
    then show ?thesis by (simp add: swar_loop.simps [of buf i])
  qed
qed

lemma find_crlf_swar_eq: "find_crlf_swar buf i = find_crlf_tail buf i"
  by (simp add: find_crlf_swar_def swar_loop_eq find_crlf_tail_short)

lemma avx2_loop_eq: "avx2_loop buf i = find_crlf_tail buf i"
proof (induction buf i rule: avx2_loop.induct)
  case (1 buf i)
  show ?case
  proof (cases "i + 32 < length buf")
    case True
    show ?thesis
    proof (cases "position (\<lambda>b. b = 13) (slice buf i (i + 32))")
      case None
      with True "1.IH"(1) chunk_None [OF None True] show ?thesis
        by (simp add: avx2_loop.simps [of buf i])
    next
      case (Some p)
      with True "1.IH"(2) chunk_Some [OF Some True] show ?thesis
        by (simp add: avx2_loop.simps [of buf i])
    qed
  next
    case False
    then show ?thesis by (simp add: avx2_loop.simps [of buf i] find_crlf_swar_eq)
  qed
qed

lemma neon_loop_eq: "neon_loop buf i = find_crlf_tail buf i"
proof (induction buf i rule: neon_loop.induct)
  case (1 buf i)
  show ?case
  proof (cases "i + 16 < length buf")
    case True
    show ?thesis
    proof (cases "position (\<lambda>b. b = 13) (slice buf i (i + 16))")
      case None
      with True 1 chunk_None [OF None True] show ?thesis
        by (simp add: neon_loop.simps [of buf i])
    next
      case (Some p)
      with True chunk_Some [OF Some True] show ?thesis
        by (simp add: neon_loop.simps [of buf i] find_crlf_swar_eq)
    qed
  next
    case False
    then show ?thesis by (simp add: neon_loop.simps [of buf i] find_crlf_swar_eq)
  qed
qed

lemma find_crlf_on_eq: "find_crlf_on t buf i = find_crlf_tail buf i"
  by (cases t) (simp_all add: find_crlf_avx2_def find_crlf_neon_def find_crlf_swar_eq
      avx2_loop_eq neon_loop_eq find_crlf_tail_short)

lemma find_crlf_eq [code]: "find_crlf buf i = find_crlf_tail buf i"
  by (simp add: find_crlf_def find_crlf_on_eq)

section \<open>What a scan finds\<close>

definition crlf_at :: "bytes \<Rightarrow> nat \<Rightarrow> bool" where
  "crlf_at buf i \<longleftrightarrow> i + 1 < length buf \<and> buf ! i = 13 \<and> buf ! (i + 1) = 10"

lemma find_crlf_tail_Some:
  "find_crlf_tail buf i = Some e \<longleftrightarrow> i \<le> e \<and> crlf_at buf e \<and> (\<forall>j. i \<le> j \<and> j < e \<longrightarrow> \<not> crlf_at buf j)"
proof (induction buf i rule: find_crlf_tail.induct)
  case (1 buf i)
  consider "crlf_at buf i" | "\<not> crlf_at buf i" "i + 1 < length buf" | "length buf \<le> i + 1"
    by linarith
  then show ?case
  proof cases
    case 1
    then have "find_crlf_tail buf i = Some i"
      by (simp add: find_crlf_tail.simps [of buf i] crlf_at_def)
    with \<open>crlf_at buf i\<close> show ?thesis by (auto simp: le_less)
  next
    case 2
    then have "find_crlf_tail buf i = find_crlf_tail buf (i + 1)"
      by (intro find_crlf_tail_step) (simp add: crlf_at_def)
    moreover have "i \<le> e \<and> crlf_at buf e \<and> (\<forall>j. i \<le> j \<and> j < e \<longrightarrow> \<not> crlf_at buf j) \<longleftrightarrow>
      i + 1 \<le> e \<and> crlf_at buf e \<and> (\<forall>j. i + 1 \<le> j \<and> j < e \<longrightarrow> \<not> crlf_at buf j)"
      using 2(1) by (metis Suc_eq_plus1 Suc_leD Suc_leI le_neq_implies_less)
    ultimately show ?thesis
      using 2 "1.IH" by (simp add: crlf_at_def)
  next
    case 3
    then show ?thesis by (auto simp: find_crlf_tail_short crlf_at_def)
  qed
qed

lemmas find_crlf_Some = find_crlf_tail_Some [folded find_crlf_eq]

text \<open>
  C38: on every build target the scanner returns the first CRLF at or after the start
  index, and nothing else: the AVX2, NEON and word-at-a-time scanners agree with the
  definition of "first CRLF".
\<close>

theorem find_crlf_on_first:
  "find_crlf_on t buf start = Some e \<longleftrightarrow>
     (start \<le> e \<and> crlf_at buf e \<and> (\<forall>j. \<not> (start \<le> j \<and> j < e \<and> crlf_at buf j)))"
  by (auto simp: find_crlf_on_eq find_crlf_tail_Some)

lemma find_crlf_append: "find_crlf buf i = Some e \<Longrightarrow> find_crlf (buf @ more) i = Some e"
  by (auto simp: find_crlf_Some crlf_at_def nth_append)

lemma find_crlf_bounds: "find_crlf buf i = Some e \<Longrightarrow> i \<le> e \<and> e + 2 \<le> length buf"
  by (auto simp: find_crlf_Some crlf_at_def)

text \<open>A line without CR, then CRLF: the scan stops right after the line.\<close>

lemma find_crlf_line:
  assumes "13 \<notin> set line"
  shows "find_crlf (pre @ line @ 13 # 10 # post) (length pre) = Some (length pre + length line)"
proof -
  have "(pre @ line @ 13 # 10 # post) ! j \<noteq> 13" if "length pre \<le> j" "j < length pre + length line" for j
  proof -
    have "line ! (j - length pre) \<in> set line"
      using that by (intro nth_mem) simp
    then have "line ! (j - length pre) \<noteq> 13"
      using assms by metis
    then show ?thesis
      using that by (simp add: nth_append)
  qed
  then show ?thesis
    by (auto simp: find_crlf_Some crlf_at_def nth_append)
qed

lemma find_crlf_None_cr: "13 \<notin> set buf \<Longrightarrow> find_crlf buf i = None"
  by (cases "find_crlf buf i") (auto simp: find_crlf_Some crlf_at_def, metis Suc_lessD nth_mem)

end
