(* ===== verification/Resp_Request.thy ===== *)
theory Resp_Request
  imports Resp_Argv Resp_Encode Find_Crlf
begin

text \<open>
  The two request parsers of \<open>kevy-resp\<close>: the owned, two-pass parser of \<open>request.rs\<close> and
  the borrowed, single-pass parser of \<open>request_borrowed.rs\<close>. Both return an error, \<open>None\<close>
  for "more bytes needed", or the arguments with the number of bytes consumed; both skip
  empty frames. An \<open>expect\<close> of the source is the error \<open>Panicked\<close>. The abstract bulk
  frame \<open>bulk_at\<close> is what both refine; the locale \<open>command_parser\<close> holds the laws of the
  skipping loop they share.
\<close>

datatype parse_error = Malformed string | Panicked string

type_synonym 'v parsed = "(parse_error, ('v \<times> nat) option) result"

definition max_multibulk_len :: nat where "max_multibulk_len = 1024 * 1024"
definition max_bulk_len :: nat where "max_bulk_len = 512 * 1024 * 1024"

section \<open>Integers\<close>

fun parse_int_acc :: "int \<Rightarrow> bytes \<Rightarrow> int option" where
  "parse_int_acc acc [] = Some acc"
| "parse_int_acc acc (b # bs) =
     (if \<not> is_digit b then None
      else case checked_i64 (acc * 10) of None \<Rightarrow> None
        | Some a \<Rightarrow> (case checked_i64 (a + int (digit_val b)) of None \<Rightarrow> None
            | Some a' \<Rightarrow> parse_int_acc a' bs))"

definition parse_int :: "bytes \<Rightarrow> int option" where
  "parse_int bs =
     (case bs of [] \<Rightarrow> None
      | b # r \<Rightarrow>
        (let (neg, digits) = (if b = 45 then (True, r) else if b = 43 then (False, r) else (False, bs))
         in if digits = [] then None
            else map_option (\<lambda>acc. if neg then - acc else acc) (parse_int_acc 0 digits)))"

section \<open>The owned parser\<close>

definition is_ascii_whitespace :: "u8 \<Rightarrow> bool" where
  "is_ascii_whitespace b \<longleftrightarrow> b = 32 \<or> b = 9 \<or> b = 10 \<or> b = 12 \<or> b = 13"

fun split_on :: "('a \<Rightarrow> bool) \<Rightarrow> 'a list \<Rightarrow> 'a list list" where
  "split_on P [] = [[]]"
| "split_on P (x # xs) =
     (if P x then [] # split_on P xs
      else case split_on P xs of [] \<Rightarrow> [[x]] | t # ts \<Rightarrow> (x # t) # ts)"

definition parse_inline_into :: "bytes \<Rightarrow> argv \<Rightarrow> argv parsed" where
  "parse_inline_into bs dst =
     (case find_crlf bs 0 of None \<Rightarrow> Ok None
      | Some eol \<Rightarrow>
        (let line = take eol bs;
             dst' = foldl argv_push dst (filter (\<lambda>s. s \<noteq> []) (split_on is_ascii_whitespace line))
         in Ok (Some (dst', eol + 2))))"

fun validate_multibulk_frame ::
  "bytes \<Rightarrow> nat \<Rightarrow> nat \<Rightarrow> nat \<Rightarrow> (parse_error, (nat \<times> nat) option) result" where
  "validate_multibulk_frame bs pos tot 0 = Ok (Some (pos, tot))"
| "validate_multibulk_frame bs pos tot (Suc count) =
     (if pos \<ge> length bs then Ok None
      else if bs ! pos \<noteq> 36 then Err (Malformed ''expected bulk string'')
      else case find_crlf bs (pos + 1) of None \<Rightarrow> Ok None
      | Some len_end \<Rightarrow>
        (case parse_int (slice bs (pos + 1) len_end) of
           None \<Rightarrow> Err (Malformed ''bad bulk length'')
         | Some n \<Rightarrow>
           if n < 0 then Err (Malformed ''negative bulk length in request'')
           else if nat n > max_bulk_len then Err (Malformed ''bulk length exceeds proto-max-bulk-len'')
           else (let data_end = len_end + 2 + nat n in
             if length bs < data_end + 2 then Ok None
             else if slice bs data_end (data_end + 2) \<noteq> crlf
               then Err (Malformed ''bulk string not CRLF-terminated'')
             else validate_multibulk_frame bs (data_end + 2) (tot + nat n) count)))"

fun copy_multibulk_args :: "bytes \<Rightarrow> nat \<Rightarrow> nat \<Rightarrow> argv \<Rightarrow> (parse_error, argv) result" where
  "copy_multibulk_args bs p 0 dst = Ok dst"
| "copy_multibulk_args bs p (Suc count) dst =
     (case find_crlf bs (p + 1) of None \<Rightarrow> Err (Panicked ''validated in pass 1'')
      | Some len_end \<Rightarrow>
        (case parse_int (slice bs (p + 1) len_end) of
           None \<Rightarrow> Err (Panicked ''validated in pass 1'')
         | Some n \<Rightarrow>
           (let data_start = len_end + 2 in
            copy_multibulk_args bs (data_start + nat n + 2) count
              (argv_push dst (slice bs data_start (data_start + nat n))))))"

definition parse_multibulk_into :: "bytes \<Rightarrow> argv \<Rightarrow> argv parsed" where
  "parse_multibulk_into bs dst =
     (case find_crlf bs 1 of None \<Rightarrow> Ok None
      | Some hdr_end \<Rightarrow>
        (case parse_int (slice bs 1 hdr_end) of
           None \<Rightarrow> Err (Malformed ''bad multibulk count'')
         | Some count \<Rightarrow>
           if count < 0 then Ok (Some (dst, hdr_end + 2))
           else if nat count > max_multibulk_len then Err (Malformed ''multibulk count exceeds limit'')
           else (case validate_multibulk_frame bs (hdr_end + 2) 0 (nat count) of
               Inl e \<Rightarrow> Err e
             | Inr None \<Rightarrow> Ok None
             | Inr (Some (end_pos, tot)) \<Rightarrow>
               (case copy_multibulk_args bs (hdr_end + 2) (nat count) dst of
                  Inl e \<Rightarrow> Err e
                | Inr dst' \<Rightarrow> Ok (Some (dst', end_pos))))))"

text \<open>One round of the loop of \<open>parse_command_into\<close>: the frame at the head of \<open>rest\<close>.\<close>

definition parse_frame_into :: "bytes \<Rightarrow> argv \<Rightarrow> argv parsed" where
  "parse_frame_into rest dst =
     (if rest ! 0 = 42 then parse_multibulk_into rest dst else parse_inline_into rest dst)"

section \<open>The borrowed parser\<close>

text \<open>The inner loop of \<open>parse_inline_borrowed\<close>, then the outer one.\<close>

function token_end :: "bytes \<Rightarrow> nat \<Rightarrow> nat" where
  "token_end line i =
     (if i < length line \<and> \<not> is_ascii_whitespace (line ! i) then token_end line (i + 1) else i)"
  by pat_completeness auto
termination by (relation "measure (\<lambda>(line, i). length line - i)") auto

declare token_end.simps [simp del]

lemma token_end_ge: "i \<le> token_end line i"
proof (induction line i rule: token_end.induct)
  case (1 line i)
  then show ?case by (subst token_end.simps) auto
qed

lemma token_end_progress:
  "i < length line \<Longrightarrow> \<not> is_ascii_whitespace (line ! i) \<Longrightarrow> i < token_end line i"
  using token_end_ge [of "i + 1" line] by (subst token_end.simps) simp

function inline_tokens :: "bytes \<Rightarrow> nat \<Rightarrow> argv_borrowed \<Rightarrow> argv_borrowed" where
  "inline_tokens line i a =
     (if i < length line then
        if is_ascii_whitespace (line ! i) then inline_tokens line (i + 1) a
        else (let e = token_end line i in inline_tokens line e (push_range a i e))
      else a)"
  by pat_completeness auto
termination
  by (relation "measure (\<lambda>(line, i, a). length line - i)") (auto intro: token_end_progress diff_less_mono2)

declare inline_tokens.simps [simp del]

definition parse_inline_borrowed :: "bytes \<Rightarrow> argv_borrowed parsed" where
  "parse_inline_borrowed bs =
     (case find_crlf bs 0 of None \<Rightarrow> Ok None
      | Some eol \<Rightarrow> Ok (Some (inline_tokens (take eol bs) 0 (borrowed_new bs), eol + 2)))"

definition small_header :: "bytes \<Rightarrow> nat \<Rightarrow> (nat \<times> nat) option" where
  "small_header bs at =
     (case nth_opt bs at of None \<Rightarrow> None
      | Some c0 \<Rightarrow>
        (let d0 = c0 - 48 in
         if d0 > 9 then None
         else case nth_opt bs (at + 1) of None \<Rightarrow> None
         | Some d1 \<Rightarrow>
           if d1 = 13 \<and> nth_opt bs (at + 2) = Some 10 then Some (unat d0, at + 3)
           else if is_digit d1 \<and> nth_opt bs (at + 2) = Some 13 \<and> nth_opt bs (at + 3) = Some 10
             then Some (unat d0 * 10 + unat (d1 - 48), at + 4)
           else None))"

text \<open>The digit loop of \<open>parse_bulk_len\<close>: the accumulator and the index of the CR.\<close>

function bulk_len_digits :: "bytes \<Rightarrow> nat \<Rightarrow> int \<Rightarrow> (parse_error, (int \<times> nat) option) result" where
  "bulk_len_digits bs q acc =
     (if q \<ge> length bs then Ok None
      else if is_digit (bs ! q) then
        (case Option.bind (checked_i64 (acc * 10)) (\<lambda>a. checked_i64 (a + int (digit_val (bs ! q)))) of
           None \<Rightarrow> Err (Malformed ''bad bulk length'')
         | Some acc' \<Rightarrow> bulk_len_digits bs (q + 1) acc')
      else if bs ! q = 13 then Ok (Some (acc, q))
      else Err (Malformed ''bad bulk length''))"
  by pat_completeness auto
termination by (relation "measure (\<lambda>(bs, q, acc). length bs - q)") auto

declare bulk_len_digits.simps [simp del]

definition parse_bulk_len :: "bytes \<Rightarrow> nat \<Rightarrow> (parse_error, (nat \<times> nat) option) result" where
  "parse_bulk_len bs pos =
     (case nth_opt bs (pos + 1) of None \<Rightarrow> Ok None
      | Some c \<Rightarrow>
        (let neg = (c = 45);
             digits_start = (if c = 45 \<or> c = 43 then pos + 2 else pos + 1)
         in case bulk_len_digits bs digits_start 0 of
              Inl e \<Rightarrow> Err e
            | Inr None \<Rightarrow> Ok None
            | Inr (Some (acc, q)) \<Rightarrow>
              if q = digits_start then Err (Malformed ''bad bulk length'')
              else (case nth_opt bs (q + 1) of None \<Rightarrow> Ok None
                | Some d \<Rightarrow>
                  if d \<noteq> 10 then Err (Malformed ''bad bulk length'')
                  else if neg then Err (Malformed ''negative bulk length in request'')
                  else if nat acc > max_bulk_len
                    then Err (Malformed ''bulk length exceeds proto-max-bulk-len'')
                  else Ok (Some (nat acc, q + 2)))))"

definition bulk_header_at :: "bytes \<Rightarrow> nat \<Rightarrow> (parse_error, (nat \<times> nat) option) result" where
  "bulk_header_at bs p =
     (case small_header bs (p + 1) of Some got \<Rightarrow> Ok (Some got) | None \<Rightarrow> parse_bulk_len bs p)"

fun multibulk_args :: "bytes \<Rightarrow> nat \<Rightarrow> nat \<Rightarrow> argv_borrowed \<Rightarrow> argv_borrowed parsed" where
  "multibulk_args bs p 0 a = Ok (Some (a, p))"
| "multibulk_args bs p (Suc count) a =
     (if p \<ge> length bs then Ok None
      else if bs ! p \<noteq> 36 then Err (Malformed ''expected bulk string'')
      else case bulk_header_at bs p of
        Inl e \<Rightarrow> Err e
      | Inr None \<Rightarrow> Ok None
      | Inr (Some (n, data_start)) \<Rightarrow>
        (let data_end = data_start + n in
         if length bs < data_end + 2 then Ok None
         else if slice bs data_end (data_end + 2) \<noteq> crlf
           then Err (Malformed ''bulk string not CRLF-terminated'')
         else multibulk_args bs (data_end + 2) count (push_range a data_start data_end)))"

text \<open>\<open>with_capacity\<close> differs from \<open>new\<close> in the allocation only.\<close>

definition parse_multibulk_counted :: "bytes \<Rightarrow> nat \<Rightarrow> nat \<Rightarrow> argv_borrowed parsed" where
  "parse_multibulk_counted bs count p =
     (if count > max_multibulk_len then Err (Malformed ''multibulk count exceeds limit'')
      else multibulk_args bs p count (borrowed_new bs))"

definition parse_multibulk_borrowed :: "bytes \<Rightarrow> argv_borrowed parsed" where
  "parse_multibulk_borrowed bs =
     (case small_header bs 1 of
        Some (count, p) \<Rightarrow> parse_multibulk_counted bs count p
      | None \<Rightarrow>
        (case find_crlf bs 1 of None \<Rightarrow> Ok None
         | Some hdr_end \<Rightarrow>
           (case parse_int (slice bs 1 hdr_end) of
              None \<Rightarrow> Err (Malformed ''bad multibulk count'')
            | Some count \<Rightarrow>
              if count < 0 then Ok (Some (borrowed_new bs, hdr_end + 2))
              else parse_multibulk_counted bs (nat count) (hdr_end + 2))))"

definition parse_frame_borrowed :: "bytes \<Rightarrow> argv_borrowed parsed" where
  "parse_frame_borrowed rest =
     (if rest ! 0 = 42 then parse_multibulk_borrowed rest else parse_inline_borrowed rest)"


section \<open>Bulk frames\<close>

text \<open>
  What a bulk string at \<open>p\<close> is, with no parser in mind: the argument and the offset after
  it. The validating pass, the copying pass and the single-pass loop are all read off it.
\<close>

definition bulk_at :: "bytes \<Rightarrow> nat \<Rightarrow> (bytes \<times> nat) option" where
  "bulk_at bs p =
     (if nth_opt bs p \<noteq> Some 36 then None
      else case find_crlf bs (p + 1) of None \<Rightarrow> None
      | Some e \<Rightarrow>
        (case parse_int (slice bs (p + 1) e) of None \<Rightarrow> None
         | Some n \<Rightarrow>
           if 0 \<le> n \<and> nat n \<le> max_bulk_len \<and> e + 2 + nat n + 2 \<le> length bs \<and>
              slice bs (e + 2 + nat n) (e + 2 + nat n + 2) = crlf
           then Some (slice bs (e + 2) (e + 2 + nat n), e + 2 + nat n + 2)
           else None))"

fun bulks_at :: "bytes \<Rightarrow> nat \<Rightarrow> nat \<Rightarrow> (bytes list \<times> nat) option" where
  "bulks_at bs p 0 = Some ([], p)"
| "bulks_at bs p (Suc n) =
     (case bulk_at bs p of None \<Rightarrow> None
      | Some (arg, p') \<Rightarrow> map_option (\<lambda>(args, e). (arg # args, e)) (bulks_at bs p' n))"

lemma bulk_at_bounds:
  assumes "bulk_at bs p = Some (arg, p')"
  shows "p + 3 \<le> p'" "p' \<le> length bs" "length arg + 2 \<le> p'" "arg = slice bs (p' - 2 - length arg) (p' - 2)"
  using assms
  by (auto simp: bulk_at_def length_slice split: if_splits option.splits dest!: find_crlf_bounds)

lemma bulks_at_bounds:
  "bulks_at bs p n = Some (args, p') \<Longrightarrow> p \<le> length bs \<Longrightarrow>
     p \<le> p' \<and> p' \<le> length bs \<and> p + sum_list (map length args) \<le> p' \<and> length args = n"
proof (induction n arbitrary: p args)
  case 0
  then show ?case by simp
next
  case (Suc n)
  then obtain arg q args' where b: "bulk_at bs p = Some (arg, q)" and r: "bulks_at bs q n = Some (args', p')"
    and args: "args = arg # args'"
    by (auto split: option.splits)
  have "p + length arg \<le> q"
    using b by (auto simp: bulk_at_def length_slice split: if_splits option.splits dest!: find_crlf_bounds)
  with Suc.IH [OF r] bulk_at_bounds(2) [OF b] show ?case by (simp add: args)
qed

lemma validate_Suc:
  "validate_multibulk_frame bs p t (Suc n) = Ok (Some r) \<longleftrightarrow>
     (\<exists>arg p'. bulk_at bs p = Some (arg, p') \<and>
        validate_multibulk_frame bs p' (t + length arg) n = Ok (Some r))"
  by (auto simp: bulk_at_def nth_opt_def length_slice Let_def not_less split: option.splits)

lemma copy_Suc:
  "bulk_at bs p = Some (arg, p') \<Longrightarrow>
     copy_multibulk_args bs p (Suc n) dst = copy_multibulk_args bs p' n (argv_push dst arg)"
  by (auto simp: bulk_at_def Let_def split: if_splits option.splits)

lemma validate_bulks:
  "validate_multibulk_frame bs p t n = Ok (Some (p', t')) \<longleftrightarrow>
     (\<exists>args. bulks_at bs p n = Some (args, p') \<and> t' = t + sum_list (map length args))"
proof (induction n arbitrary: p t)
  case 0
  show ?case by auto
next
  case (Suc n)
  show ?case
    unfolding validate_Suc Suc by (force split: option.splits)
qed

lemma copy_bulks:
  "bulks_at bs p n = Some (args, p') \<Longrightarrow> copy_multibulk_args bs p n dst = Ok (argv_extend dst args)"
proof (induction n arbitrary: p dst args)
  case 0
  then show ?case by (simp add: argv_extend_def)
next
  case (Suc n)
  then show ?case
    by (auto simp: copy_Suc argv_extend_def simp del: copy_multibulk_args.simps(2) split: option.splits)
qed

section \<open>Bulk headers\<close>

lemma slice_Cons: "q < e \<Longrightarrow> e \<le> length bs \<Longrightarrow> slice bs q e = bs ! q # slice bs (q + 1) e"
  by (simp add: slice_def Cons_nth_drop_Suc [symmetric] take_Cons' Suc_diff_Suc [symmetric])

lemma slice_empty [simp]: "slice bs q q = []"
  by (simp add: slice_def)

lemma checked_i64_Some: "checked_i64 n = Some m \<longleftrightarrow> m = n \<and> in_i64 n"
  by (auto simp: checked_i64_def)

lemma bulk_len_digits_Some:
  "bulk_len_digits bs q acc = Ok (Some (a, e)) \<longleftrightarrow>
     q \<le> e \<and> nth_opt bs e = Some 13 \<and> parse_int_acc acc (slice bs q e) = Some a"
proof (induction bs q acc rule: bulk_len_digits.induct)
  case (1 bs q acc)
  show ?case
  proof (cases "q < length bs \<and> is_digit (bs ! q)")
    case True
    then have ne: "bs ! q \<noteq> 13" by auto
    have "q \<le> e \<and> nth_opt bs e = Some 13 \<longleftrightarrow> q + 1 \<le> e \<and> nth_opt bs e = Some 13"
      using True ne by (auto simp: nth_opt_def Suc_le_eq le_less)
    moreover have "slice bs q e = bs ! q # slice bs (q + 1) e" if "q + 1 \<le> e" "nth_opt bs e = Some 13"
      using that by (intro slice_Cons) (auto simp: nth_opt_def split: if_splits)
    ultimately show ?thesis
      using True "1.IH"
      by (subst bulk_len_digits.simps) (auto simp: bind_eq_Some_conv split: option.splits bind_splits)
  next
    case False
    have "\<not> (q < e \<and> nth_opt bs e = Some 13 \<and> parse_int_acc acc (slice bs q e) = Some a)"
      using False by (auto simp: nth_opt_def slice_Cons split: if_splits)
    then have "q \<le> e \<and> nth_opt bs e = Some 13 \<and> parse_int_acc acc (slice bs q e) = Some a \<longleftrightarrow>
        e = q \<and> nth_opt bs q = Some 13 \<and> a = acc"
      by (auto simp: le_less)
    then show ?thesis
      using False by (subst bulk_len_digits.simps) (auto simp: nth_opt_def split: if_splits)
  qed
qed

lemma parse_int_acc_digits: "parse_int_acc acc ds = Some a \<Longrightarrow> list_all is_digit ds"
  by (induction acc ds rule: parse_int_acc.induct) (auto split: if_splits option.splits)

lemma parse_int_acc_nonneg: "parse_int_acc acc ds = Some a \<Longrightarrow> 0 \<le> acc \<Longrightarrow> 0 \<le> a"
  by (induction acc ds rule: parse_int_acc.induct)
    (auto simp: checked_i64_Some split: if_splits option.splits)

lemma parse_int_Some:
  "parse_int bs = Some n \<longleftrightarrow>
     (\<exists>ds acc. ds \<noteq> [] \<and> parse_int_acc 0 ds = Some acc \<and> (bs = 45 # ds \<and> n = - acc \<or>
        (bs = 43 # ds \<or> bs = ds) \<and> n = acc))"
  by (cases bs) (auto simp: parse_int_def)

text \<open>The characters of a number hold no CR, so the scan for CRLF ends where the digits do.\<close>

lemma digits_no_cr: "list_all is_digit ds \<Longrightarrow> 13 \<notin> set ds"
  by (induction ds) auto

lemma parse_int_no_cr: "parse_int bs = Some n \<Longrightarrow> 13 \<notin> set bs"
  by (auto simp: parse_int_Some dest!: parse_int_acc_digits digits_no_cr)

lemma find_crlf_number:
  assumes "parse_int (slice bs p e) = Some n" "p \<le> e" "nth_opt bs e = Some 13" "nth_opt bs (e + 1) = Some 10"
  shows "find_crlf bs p = Some e"
proof -
  have len: "e + 1 < length bs" "bs ! e = 13" "bs ! (e + 1) = 10"
    using assms(3,4) by (auto simp: nth_opt_def split: if_splits)
  have bs: "bs = take p bs @ slice bs p e @ 13 # 10 # drop (e + 2) bs"
  proof -
    have "drop e bs = 13 # 10 # drop (e + 2) bs"
      using len by (simp add: Cons_nth_drop_Suc [symmetric])
    moreover have "slice bs p e @ drop e bs = drop p bs"
      using assms(2) by (simp add: slice_def) (metis append_take_drop_id drop_drop le_add_diff_inverse2)
    ultimately show ?thesis by simp
  qed
  have "find_crlf (take p bs @ slice bs p e @ 13 # 10 # drop (e + 2) bs) (length (take p bs)) =
      Some (length (take p bs) + length (slice bs p e))"
    using assms(1) by (intro find_crlf_line parse_int_no_cr)
  then show ?thesis
    using bs len assms(2) by (simp add: length_slice)
qed

lemma find_crlf_nth_opt:
  "find_crlf bs p = Some e \<Longrightarrow> p \<le> e \<and> nth_opt bs e = Some 13 \<and> nth_opt bs (e + 1) = Some 10 \<and> e + 2 \<le> length bs"
  by (auto simp: find_crlf_Some crlf_at_def nth_opt_def)

lemma nth_optD: "nth_opt bs i = Some c \<Longrightarrow> i < length bs \<and> bs ! i = c"
  by (auto simp: nth_opt_def split: if_splits)

lemma parse_bulk_len_sound:
  assumes "parse_bulk_len bs p = Ok (Some (n, ds))"
  shows "\<exists>e. ds = e + 2 \<and> find_crlf bs (p + 1) = Some e \<and> parse_int (slice bs (p + 1) e) = Some (int n) \<and>
    n \<le> max_bulk_len \<and> nth_opt bs (p + 1) \<noteq> Some 45"
proof -
  obtain c where c: "nth_opt bs (p + 1) = Some c"
    using assms by (auto simp: parse_bulk_len_def split: option.splits)
  define start where "start = (if c = 45 \<or> c = 43 then p + 2 else p + 1)"
  obtain acc q where d: "bulk_len_digits bs start 0 = Ok (Some (acc, q))" and q: "q \<noteq> start"
    and nl: "nth_opt bs (q + 1) = Some 10" and "c \<noteq> 45" and n: "nat acc \<le> max_bulk_len" "n = nat acc" "ds = q + 2"
    using assms c
    by (auto simp: parse_bulk_len_def Let_def start_def [symmetric] split: sum.splits option.splits if_splits)
  have le: "start < q" and cr: "nth_opt bs q = Some 13" and acc: "parse_int_acc 0 (slice bs start q) = Some acc"
    using d q by (auto simp: bulk_len_digits_Some)
  have "slice bs start q \<noteq> []"
    using le nth_optD [OF cr] by (simp add: slice_Cons)
  moreover have "slice bs (p + 1) q = (if c = 43 then 43 # slice bs start q else slice bs start q)"
    using le nth_optD [OF cr] nth_optD [OF c] \<open>c \<noteq> 45\<close> slice_Cons [of "p + 1" q bs] by (auto simp: start_def)
  ultimately have "parse_int (slice bs (p + 1) q) = Some acc"
    unfolding parse_int_Some using acc by (intro exI [of _ "slice bs start q"]) auto
  moreover from this have "find_crlf bs (p + 1) = Some q"
    using le cr nl by (intro find_crlf_number) (auto simp: start_def split: if_splits)
  moreover have "0 \<le> acc" using acc by (rule parse_int_acc_nonneg) simp
  ultimately show ?thesis
    using n c \<open>c \<noteq> 45\<close> by auto
qed

lemma parse_bulk_len_complete:
  assumes "find_crlf bs (p + 1) = Some e" "parse_int (slice bs (p + 1) e) = Some (int n)" "n \<le> max_bulk_len"
  shows "parse_bulk_len bs p =
    (if nth_opt bs (p + 1) = Some 45 then Err (Malformed ''negative bulk length in request'')
     else Ok (Some (n, e + 2)))"
proof -
  have e: "p + 1 \<le> e" "nth_opt bs e = Some 13" "nth_opt bs (e + 1) = Some 10"
    using find_crlf_nth_opt [OF assms(1)] by auto
  obtain ds acc where ds: "ds \<noteq> []" "parse_int_acc 0 ds = Some acc"
    "slice bs (p + 1) e = 45 # ds \<and> int n = - acc \<or>
     (slice bs (p + 1) e = 43 # ds \<or> slice bs (p + 1) e = ds) \<and> int n = acc"
    using assms(2) by (auto simp: parse_int_Some)
  have "p + 1 < e"
    using ds(1,3) e(1) by (auto simp: le_less)
  then have sl: "slice bs (p + 1) e = bs ! (p + 1) # slice bs (p + 2) e" "nth_opt bs (p + 1) = Some (bs ! (p + 1))"
    using e nth_optD [OF e(2)] by (simp_all add: slice_Cons nth_opt_def)
  define start where "start = (if bs ! (p + 1) = 45 \<or> bs ! (p + 1) = 43 then p + 2 else p + 1)"
  have hd: "is_digit (hd ds)"
    using parse_int_acc_digits [OF ds(2)] ds(1) by (cases ds) auto
  have st: "slice bs start e = ds" "start \<le> e"
    using ds sl hd \<open>p + 1 < e\<close> by (auto simp: start_def)
  then have "bulk_len_digits bs start 0 = Ok (Some (acc, e))" "start \<noteq> e"
    using e ds by (auto simp: bulk_len_digits_Some)
  moreover have "n = nat acc" if "bs ! (p + 1) \<noteq> 45"
    using ds(3) sl(1) that by auto
  ultimately show ?thesis
    using sl(2) e assms(3) by (auto simp: parse_bulk_len_def Let_def start_def split: if_splits)
qed

text \<open>\<open>small_header\<close> is a shortcut: whenever it answers, the general route answers the same.\<close>

lemma digit_wrap: "\<not> c - 48 > (9::u8) \<longleftrightarrow> is_digit c"
proof -
  have "unat (c - 48) = (if 48 \<le> unat c then unat c - 48 else unat c + 208)"
    using unsigned_less [of c] by (simp add: unat_sub_if_size word_size word_le_nat_alt)
  then show ?thesis
    using unsigned_less [of c] by (auto simp: is_digit_def word_le_nat_alt word_less_nat_alt split: if_splits)
qed

lemma unat_digit: "is_digit c \<Longrightarrow> unat (c - 48) = digit_val c"
  by (simp add: is_digit_def digit_val_def unat_sub)

lemma small_header_sound:
  assumes "small_header bs at = Some (n, ds)"
  shows "\<exists>e. ds = e + 2 \<and> find_crlf bs at = Some e \<and> parse_int (slice bs at e) = Some (int n) \<and>
    n < 100 \<and> nth_opt bs at \<noteq> Some 45"
proof -
  obtain c d where c: "nth_opt bs at = Some c" "is_digit c" and d: "nth_opt bs (at + 1) = Some d"
    and alt: "d = 13 \<and> nth_opt bs (at + 2) = Some 10 \<and> n = digit_val c \<and> ds = at + 3 \<or>
      is_digit d \<and> nth_opt bs (at + 2) = Some 13 \<and> nth_opt bs (at + 3) = Some 10 \<and>
      n = digit_val c * 10 + digit_val d \<and> ds = at + 4"
    using assms by (auto simp: small_header_def digit_wrap unat_digit Let_def split: option.splits if_splits)
  have sl: "slice bs at (at + 1) = [c]" "slice bs at (at + 2) = [c, d]"
    using nth_optD [OF c(1)] nth_optD [OF d] by (simp_all add: slice_Cons)
  have "c \<noteq> 45" "c \<noteq> 43" "digit_val c < 10" using c(2) digit_val_less [OF c(2)] by auto
  note facts = this c d sl nth_optD
  from alt show ?thesis
  proof
    assume a: "d = 13 \<and> nth_opt bs (at + 2) = Some 10 \<and> n = digit_val c \<and> ds = at + 3"
    then have "parse_int (slice bs at (at + 1)) = Some (int n)"
      using facts by (simp add: parse_int_def checked_i64_def int_bounds)
    with a facts show ?thesis by (auto intro!: exI [of _ "at + 1"] find_crlf_number)
  next
    assume a: "is_digit d \<and> nth_opt bs (at + 2) = Some 13 \<and> nth_opt bs (at + 3) = Some 10 \<and>
      n = digit_val c * 10 + digit_val d \<and> ds = at + 4"
    then have "digit_val d < 10" by (auto dest: digit_val_less)
    moreover from this a have "parse_int (slice bs at (at + 2)) = Some (int n)"
      using facts by (simp add: parse_int_def checked_i64_def int_bounds)
    ultimately show ?thesis using a facts
      by (auto simp: numeral_3_eq_3 intro!: exI [of _ "at + 2"] find_crlf_number)
  qed
qed

lemma bulk_header_at_eq: "bulk_header_at bs p = parse_bulk_len bs p"
proof (cases "small_header bs (p + 1)")
  case None
  then show ?thesis by (simp add: bulk_header_at_def)
next
  case (Some got)
  obtain n ds where "got = (n, ds)" by fastforce
  with Some small_header_sound [of bs "p + 1" n ds] obtain e where
    "ds = e + 2" "find_crlf bs (p + 1) = Some e" "parse_int (slice bs (p + 1) e) = Some (int n)"
    "n < 100" "nth_opt bs (p + 1) \<noteq> Some 45"
    by auto
  then have "parse_bulk_len bs p = Ok (Some (n, ds))"
    by (subst parse_bulk_len_complete) (auto simp: max_bulk_len_def)
  with Some \<open>got = (n, ds)\<close> show ?thesis by (simp add: bulk_header_at_def)
qed

lemma bulk_atE:
  assumes "bulk_at bs p = Some (arg, p')"
  obtains e where "p < length bs" "bs ! p = 36" "find_crlf bs (p + 1) = Some e"
    "parse_int (slice bs (p + 1) e) = Some (int (length arg))" "length arg \<le> max_bulk_len"
    "p' = e + 2 + length arg + 2" "p' \<le> length bs"
    "slice bs (e + 2 + length arg) (e + 2 + length arg + 2) = crlf"
    "arg = slice bs (e + 2) (e + 2 + length arg)"
  using assms by (auto simp: bulk_at_def length_slice dest!: nth_optD split: if_splits option.splits)

lemma bulk_atI:
  assumes "p < length bs" "bs ! p = 36" "find_crlf bs (p + 1) = Some e"
    "parse_int (slice bs (p + 1) e) = Some (int n)" "n \<le> max_bulk_len" "e + 2 + n + 2 \<le> length bs"
    "slice bs (e + 2 + n) (e + 2 + n + 2) = crlf"
  shows "bulk_at bs p = Some (slice bs (e + 2) (e + 2 + n), e + 2 + n + 2)"
  using assms by (simp add: bulk_at_def nth_opt_def)

lemma margs_step:
  assumes "bulk_at bs p = Some (arg, p')"
  shows "multibulk_args bs p (Suc n) a =
    (if nth_opt bs (p + 1) = Some 45 then Err (Malformed ''negative bulk length in request'')
     else multibulk_args bs p' n (push_range a (p' - 2 - length arg) (p' - 2)))"
  using assms
proof (rule bulk_atE)
  fix e
  assume e: "p < length bs" "bs ! p = 36" "find_crlf bs (p + 1) = Some e"
    "parse_int (slice bs (p + 1) e) = Some (int (length arg))" "length arg \<le> max_bulk_len"
    "p' = e + 2 + length arg + 2" "p' \<le> length bs"
    "slice bs (e + 2 + length arg) (e + 2 + length arg + 2) = crlf"
  have "bulk_header_at bs p = (if nth_opt bs (p + 1) = Some 45 then Err (Malformed ''negative bulk length in request'')
     else Ok (Some (length arg, e + 2)))"
    unfolding bulk_header_at_eq using e by (intro parse_bulk_len_complete)
  then show ?thesis using e by (simp add: Let_def)
qed

lemma margs_Some:
  assumes "multibulk_args bs p (Suc n) a = Ok (Some r)"
  obtains arg p' where "bulk_at bs p = Some (arg, p')"
proof -
  obtain k ds where h: "p < length bs" "bs ! p = 36" "parse_bulk_len bs p = Ok (Some (k, ds))"
    and d: "ds + k + 2 \<le> length bs" "slice bs (ds + k) (ds + k + 2) = crlf"
    using assms by (auto simp: bulk_header_at_eq Let_def not_less split: if_splits sum.splits option.splits)
  obtain e where "ds = e + 2" "find_crlf bs (p + 1) = Some e"
    "parse_int (slice bs (p + 1) e) = Some (int k)" "k \<le> max_bulk_len"
    using parse_bulk_len_sound [OF h(3)] by auto
  with h d bulk_atI [of p bs e k] that show ?thesis by auto
qed

lemma margs_sound:
  assumes "multibulk_args bs p n a = Ok (Some (a', p'))" "borrowed_wf a" "ab_input a = bs"
  shows "borrowed_wf a' \<and> ab_input a' = bs \<and>
    (\<exists>args. bulks_at bs p n = Some (args, p') \<and> borrowed_list a' = borrowed_list a @ args)"
  using assms
proof (induction n arbitrary: p a)
  case 0
  then show ?case by simp
next
  case (Suc n)
  from margs_Some [OF Suc.prems(1)] obtain arg q where b: "bulk_at bs p = Some (arg, q)" .
  let ?a = "push_range a (q - 2 - length arg) (q - 2)"
  have rest: "multibulk_args bs q n ?a = Ok (Some (a', p'))"
    using Suc.prems(1) unfolding margs_step [OF b] by (simp split: if_splits)
  have a: "borrowed_wf ?a" "ab_input ?a = bs" "borrowed_list ?a = borrowed_list a @ [arg]"
    using push_range_wf [of a "q - 2 - length arg" "q - 2"] Suc.prems(2,3) bulk_at_bounds [OF b] by auto
  from Suc.IH [OF rest a(1,2)] a(3) b show ?case by auto
qed

lemma margs_complete:
  assumes "bulks_at bs p n = Some (args, p')"
  shows "(\<exists>a'. multibulk_args bs p n a = Ok (Some (a', p'))) \<or>
    multibulk_args bs p n a = Err (Malformed ''negative bulk length in request'')"
  using assms
proof (induction n arbitrary: p a args)
  case 0
  then show ?case by simp
next
  case (Suc n)
  then obtain arg q args' where b: "bulk_at bs p = Some (arg, q)" and r: "bulks_at bs q n = Some (args', p')"
    by (auto split: option.splits)
  show ?case
    unfolding margs_step [OF b] using Suc.IH [OF r] by simp
qed

section \<open>Inline commands\<close>

text \<open>\<open>split(u8::is_ascii_whitespace).filter(|s| !s.is_empty())\<close>.\<close>

abbreviation tokens :: "bytes \<Rightarrow> bytes list" where
  "tokens line \<equiv> filter (\<lambda>s. s \<noteq> []) (split_on is_ascii_whitespace line)"

lemma split_on_word:
  assumes "list_all (\<lambda>x. \<not> P x) w"
  shows "split_on P w = [w]" "P x \<Longrightarrow> split_on P (w @ x # xs) = w # split_on P xs"
  using assms by (induction w) auto

lemma tokens_word:
  assumes "w \<noteq> []" "list_all (\<lambda>x. \<not> is_ascii_whitespace x) w" "rest = [] \<or> is_ascii_whitespace (hd rest)"
  shows "tokens (w @ rest) = w # tokens rest"
proof (cases rest)
  case Nil
  then show ?thesis using assms split_on_word(1) [of is_ascii_whitespace w] by simp
next
  case (Cons x xs)
  then show ?thesis using assms split_on_word(2) [of is_ascii_whitespace w x xs] by simp
qed

lemma token_end_takeWhile:
  "token_end line i = i + length (takeWhile (\<lambda>x. \<not> is_ascii_whitespace x) (drop i line))"
proof (induction line i rule: token_end.induct)
  case (1 line i)
  show ?case
  proof (cases "i < length line")
    case True
    with 1 show ?thesis
      by (subst token_end.simps) (simp add: Cons_nth_drop_Suc [symmetric])
  next
    case False
    then show ?thesis by (subst token_end.simps) simp
  qed
qed

lemma token_word:
  fixes line :: bytes
  assumes "i < length line" "\<not> is_ascii_whitespace (line ! i)"
  defines "e \<equiv> token_end line i"
  shows "i < e" "e \<le> length line" "tokens (drop i line) = slice line i e # tokens (drop e line)"
proof -
  let ?P = "\<lambda>x. \<not> is_ascii_whitespace x"
  let ?w = "takeWhile ?P (drop i line)"
  have e: "e = i + length ?w"
    by (simp add: e_def token_end_takeWhile)
  show "i < e"
    using assms token_end_progress by simp
  show le: "e \<le> length line"
    using e length_takeWhile_le [of ?P "drop i line"] assms(1) by simp
  have split: "drop i line = ?w @ dropWhile ?P (drop i line)" by simp
  have "dropWhile ?P (drop i line) = drop e line"
    unfolding dropWhile_eq_drop e by (simp add: add.commute)
  moreover have "?w = slice line i e"
    by (simp add: slice_def e takeWhile_eq_take [symmetric])
  moreover have "tokens (?w @ dropWhile ?P (drop i line)) = ?w # tokens (dropWhile ?P (drop i line))"
    using \<open>i < e\<close> e hd_dropWhile [of ?P "drop i line"]
    by (intro tokens_word) (auto simp: list_all_iff dest: set_takeWhileD)
  ultimately show "tokens (drop i line) = slice line i e # tokens (drop e line)"
    using split by simp
qed

lemma inline_tokens_list:
  assumes "borrowed_wf a" "ab_input a = bs" "line = take eol bs" "eol \<le> length bs"
  shows "borrowed_wf (inline_tokens line i a) \<and>
    borrowed_list (inline_tokens line i a) = borrowed_list a @ tokens (drop i line)"
  using assms
proof (induction line i a rule: inline_tokens.induct)
  case (1 line i a)
  consider "length line \<le> i" | "i < length line" "is_ascii_whitespace (line ! i)"
    | "i < length line" "\<not> is_ascii_whitespace (line ! i)"
    by linarith
  then show ?case
  proof cases
    case 1
    then show ?thesis unfolding inline_tokens.simps [of line i a] using "1.prems" by simp
  next
    case 2
    then have "tokens (drop i line) = tokens (drop (i + 1) line)"
      by (simp add: Cons_nth_drop_Suc [symmetric])
    with 2 "1.IH"(1) "1.prems" show ?thesis unfolding inline_tokens.simps [of line i a] by simp
  next
    case 3
    let ?e = "token_end line i"
    let ?a = "push_range a i ?e"
    note w = token_word [OF 3]
    have "slice line i ?e = slice bs i ?e"
      using w(1,2) "1.prems"(3,4) by (auto simp: slice_def drop_take min_def split: if_splits)
    moreover have "?e \<le> length bs" using w(2) "1.prems" by simp
    ultimately have "borrowed_wf ?a" "ab_input ?a = bs" "borrowed_list ?a = borrowed_list a @ [slice line i ?e]"
      using push_range_wf [of a i ?e] w(1) "1.prems" by simp_all
    with 3 "1.IH"(2) "1.prems" w(3) show ?thesis unfolding inline_tokens.simps [of line i a] by (simp add: Let_def)
  qed
qed

section \<open>One frame: the two parsers agree\<close>

text \<open>
  The shape of the header: \<open>small_header\<close> never changes the count, so the borrowed frame
  parser reads the same header as the owned one.
\<close>

lemma parse_multibulk_borrowed_eq:
  "parse_multibulk_borrowed bs =
     (case find_crlf bs 1 of None \<Rightarrow> Ok None
      | Some hdr_end \<Rightarrow>
        (case parse_int (slice bs 1 hdr_end) of
           None \<Rightarrow> Err (Malformed ''bad multibulk count'')
         | Some count \<Rightarrow>
           if count < 0 then Ok (Some (borrowed_new bs, hdr_end + 2))
           else parse_multibulk_counted bs (nat count) (hdr_end + 2)))"
proof (cases "small_header bs 1")
  case None
  then show ?thesis by (simp add: parse_multibulk_borrowed_def)
next
  case (Some got)
  obtain n ds where "got = (n, ds)" by fastforce
  with Some small_header_sound [of bs 1 n ds] show ?thesis
    by (auto simp: parse_multibulk_borrowed_def)
qed

lemma frame_sound:
  assumes "parse_frame_borrowed bs = Ok (Some (a, n))" "length bs < 4294967296"
  shows "borrowed_wf a" "parse_frame_into bs argv_default = Ok (Some (into_owned a, n))"
proof -
  have "borrowed_wf a \<and> parse_frame_into bs argv_default = Ok (Some (into_owned a, n))"
  proof (cases "bs ! 0 = 42")
    case True
    then obtain hdr_end count where h: "find_crlf bs 1 = Some hdr_end"
      "parse_int (slice bs 1 hdr_end) = Some count"
      "(if count < 0 then Ok (Some (borrowed_new bs, hdr_end + 2))
        else parse_multibulk_counted bs (nat count) (hdr_end + 2)) = Ok (Some (a, n))"
      using assms(1) by (auto simp: parse_frame_borrowed_def parse_multibulk_borrowed_eq split: option.splits)
    show ?thesis
    proof (cases "count < 0")
      case neg: True
      then show ?thesis
        using True h assms(2) by (auto simp: parse_frame_into_def parse_multibulk_into_def into_owned_eq
          argv_from_def argv_extend_def)
    next
      case False
      then have c: "nat count \<le> max_multibulk_len"
        "multibulk_args bs (hdr_end + 2) (nat count) (borrowed_new bs) = Ok (Some (a, n))"
        using h(3) by (auto simp: parse_multibulk_counted_def split: if_splits)
      from margs_sound [OF c(2)] assms(2) obtain args where "borrowed_wf a"
        "bulks_at bs (hdr_end + 2) (nat count) = Some (args, n)" "borrowed_list a = args"
        by auto
      moreover from this have "\<exists>t. validate_multibulk_frame bs (hdr_end + 2) 0 (nat count) = Ok (Some (n, t))"
        by (simp add: validate_bulks)
      ultimately show ?thesis
        using True False h c by (auto simp: parse_frame_into_def parse_multibulk_into_def
          copy_bulks into_owned_eq argv_from_def)
    qed
  next
    case False
    then obtain eol where e: "find_crlf bs 0 = Some eol" "n = eol + 2"
      "a = inline_tokens (take eol bs) 0 (borrowed_new bs)"
      using assms(1) by (auto simp: parse_frame_borrowed_def parse_inline_borrowed_def split: option.splits)
    have "eol \<le> length bs" using find_crlf_bounds [OF e(1)] by simp
    with e(3) inline_tokens_list [of "borrowed_new bs" bs "take eol bs" eol 0] assms(2)
    have "borrowed_wf a" "borrowed_list a = tokens (take eol bs)" by simp_all
    then show ?thesis
      using False e by (simp add: parse_frame_into_def parse_inline_into_def into_owned_eq
        argv_from_def argv_extend_def Let_def)
  qed
  then show "borrowed_wf a" "parse_frame_into bs argv_default = Ok (Some (into_owned a, n))" by simp_all
qed

lemma frame_complete:
  assumes "parse_frame_into bs argv_default = Ok (Some (v, n))"
  shows "(\<exists>a. parse_frame_borrowed bs = Ok (Some (a, n))) \<or>
    parse_frame_borrowed bs = Err (Malformed ''negative bulk length in request'')"
proof (cases "bs ! 0 = 42")
  case True
  then obtain hdr_end count where h: "find_crlf bs 1 = Some hdr_end"
    "parse_int (slice bs 1 hdr_end) = Some count"
    "count < 0 \<and> n = hdr_end + 2 \<or> 0 \<le> count \<and> nat count \<le> max_multibulk_len \<and>
      (\<exists>t. validate_multibulk_frame bs (hdr_end + 2) 0 (nat count) = Ok (Some (n, t)))"
    using assms by (auto simp: parse_frame_into_def parse_multibulk_into_def
      split: option.splits if_splits sum.splits)
  show ?thesis
  proof (cases "count < 0")
    case neg: True
    then show ?thesis
      using True h by (simp add: parse_frame_borrowed_def parse_multibulk_borrowed_eq)
  next
    case False
    with h(3) have c: "nat count \<le> max_multibulk_len"
      and "\<exists>args. bulks_at bs (hdr_end + 2) (nat count) = Some (args, n)"
      by (auto simp: validate_bulks)
    then show ?thesis
      using True False h margs_complete [of bs "hdr_end + 2" "nat count" _ n "borrowed_new bs"]
      by (auto simp: parse_frame_borrowed_def parse_multibulk_borrowed_eq parse_multibulk_counted_def)
  qed
next
  case False
  then show ?thesis
    using assms by (auto simp: parse_frame_into_def parse_inline_into_def parse_frame_borrowed_def
      parse_inline_borrowed_def Let_def split: option.splits)
qed

section \<open>One frame: more bytes change nothing that was decided\<close>

lemma bulk_at_append: "bulk_at bs p = Some r \<Longrightarrow> bulk_at (bs @ ms) p = Some r"
  by (auto simp: bulk_at_def nth_opt_def find_crlf_append nth_append
      split: if_splits option.splits dest: find_crlf_bounds)

lemma bulks_at_append: "bulks_at bs p n = Some r \<Longrightarrow> bulks_at (bs @ ms) p n = Some r"
proof (induction n arbitrary: p r)
  case 0
  then show ?case by simp
next
  case (Suc n)
  then show ?case by (force simp: bulk_at_append split: option.splits)
qed

lemma slice_find_crlf:
  "find_crlf bs p = Some e \<Longrightarrow> slice (bs @ ms) q e = slice bs q e"
  by (auto dest: find_crlf_bounds)

lemma validate_err_append:
  "validate_multibulk_frame bs p t n = Err e \<Longrightarrow> validate_multibulk_frame (bs @ ms) p t n = Err e"
proof (induction bs p t n rule: validate_multibulk_frame.induct)
  case (1 bs p t)
  then show ?case by simp
next
  case (2 bs p t n)
  from "2.prems" have p: "p < length bs" by (simp split: if_splits)
  show ?case
  proof (cases "bs ! p = 36")
    case False
    with "2.prems" p show ?thesis by (simp add: nth_append)
  next
    case True
    with "2.prems" p obtain e where e: "find_crlf bs (p + 1) = Some e" by (auto split: option.splits)
    note app = find_crlf_append [OF e] slice_find_crlf [OF e]
    show ?thesis
      using "2.prems" "2.IH" p True e app
      by (auto simp: nth_append Let_def split: option.splits if_splits)
  qed
qed

lemma bulk_len_digits_append:
  "bulk_len_digits bs q acc = Err e \<Longrightarrow> bulk_len_digits (bs @ ms) q acc = Err e"
  "bulk_len_digits bs q acc = Ok (Some r) \<Longrightarrow> bulk_len_digits (bs @ ms) q acc = Ok (Some r)"
proof (induction bs q acc rule: bulk_len_digits.induct)
  case (1 bs q acc)
  { case 1
    then show ?case
      using "1.IH"(1) by (subst bulk_len_digits.simps, subst (asm) (4) bulk_len_digits.simps)
        (auto simp: nth_append split: if_splits option.splits)
  next
    case 2
    then show ?case
      using "1.IH"(2) by (subst bulk_len_digits.simps, subst (asm) (4) bulk_len_digits.simps)
        (auto simp: nth_append split: if_splits option.splits)
  }
qed

lemma nth_opt_append_Some: "nth_opt bs i = Some c \<Longrightarrow> nth_opt (bs @ ms) i = Some c"
  by (auto dest: nth_optD simp: nth_opt_def nth_append)

lemma parse_bulk_len_err_append:
  assumes "parse_bulk_len bs p = Err e"
  shows "parse_bulk_len (bs @ ms) p = Err e"
proof -
  obtain c where c: "nth_opt bs (p + 1) = Some c"
    using assms by (auto simp: parse_bulk_len_def split: option.splits)
  define start where "start = (if c = 45 \<or> c = 43 then p + 2 else p + 1)"
  note app = nth_opt_append_Some [OF c] bulk_len_digits_append [of bs start 0]
  consider e' where "bulk_len_digits bs start 0 = Err e'"
    | acc q where "bulk_len_digits bs start 0 = Ok (Some (acc, q))"
    using assms c by (auto simp: parse_bulk_len_def Let_def start_def [symmetric] split: sum.splits option.splits)
  then show ?thesis
  proof cases
    case 1
    then show ?thesis
      using assms c app by (simp add: parse_bulk_len_def Let_def start_def [symmetric])
  next
    case 2
    show ?thesis
    proof (cases "nth_opt bs (q + 1)")
      case None
      then show ?thesis
        using assms c app 2 by (auto simp: parse_bulk_len_def Let_def start_def [symmetric] split: if_splits)
    next
      case (Some d)
      from nth_opt_append_Some [OF this] this show ?thesis
        using assms c app 2 by (auto simp: parse_bulk_len_def Let_def start_def [symmetric] split: if_splits)
    qed
  qed
qed
end
