(* ===== verification/Resp_Command.thy ===== *)
theory Resp_Command
  imports Resp_Request
begin

text \<open>
  The entry points of the request parsers, \<open>parse_command\<close>/\<open>parse_command_into\<close> and
  \<open>parse_command_borrowed\<close>: the loops that skip empty frames, and what holds of them on
  a byte stream: bytes consumed, stability under more input, agreement of the two, and the
  round trip with \<open>encode_command\<close>.
\<close>

section \<open>Frames always consume bytes\<close>

lemma frame_into_used:
  assumes "parse_frame_into bs dst = Ok (Some (v, n))"
  shows "2 \<le> n \<and> n \<le> length bs"
proof (cases "bs ! 0 = 42")
  case True
  with assms obtain hdr_end where h: "find_crlf bs 1 = Some hdr_end"
    and "n = hdr_end + 2 \<or> (\<exists>c t. validate_multibulk_frame bs (hdr_end + 2) 0 c = Ok (Some (n, t)))"
    by (fastforce simp: parse_frame_into_def parse_multibulk_into_def split: option.splits if_splits sum.splits)
  then show ?thesis
    using find_crlf_bounds [OF h] bulks_at_bounds [of bs "hdr_end + 2" _ _ n]
    by (fastforce simp: validate_bulks)
next
  case False
  with assms show ?thesis
    by (auto simp: parse_frame_into_def parse_inline_into_def Let_def split: option.splits
        dest: find_crlf_bounds)
qed

lemma margs_used:
  "multibulk_args bs p n a = Ok (Some (a', p')) \<Longrightarrow> p \<le> length bs \<Longrightarrow> p \<le> p' \<and> p' \<le> length bs"
proof (induction n arbitrary: p a)
  case 0
  then show ?case by simp
next
  case (Suc n)
  from margs_Some [OF Suc.prems(1)] obtain arg q where b: "bulk_at bs p = Some (arg, q)" .
  have "multibulk_args bs q n (push_range a (q - 2 - length arg) (q - 2)) = Ok (Some (a', p'))"
    using Suc.prems(1) unfolding margs_step [OF b] by (simp split: if_splits)
  from Suc.IH [OF this] bulk_at_bounds [OF b] show ?case by simp
qed

lemma frame_borrowed_used:
  assumes "parse_frame_borrowed bs = Ok (Some (v, n))"
  shows "2 \<le> n \<and> n \<le> length bs"
proof (cases "bs ! 0 = 42")
  case True
  with assms obtain hdr_end where h: "find_crlf bs 1 = Some hdr_end"
    and "n = hdr_end + 2 \<or> (\<exists>c. multibulk_args bs (hdr_end + 2) c (borrowed_new bs) = Ok (Some (v, n)))"
    by (auto simp: parse_frame_borrowed_def parse_multibulk_borrowed_eq parse_multibulk_counted_def
        split: option.splits if_splits)
  then show ?thesis
    using find_crlf_bounds [OF h] margs_used [of bs "hdr_end + 2"] by fastforce
next
  case False
  with assms show ?thesis
    by (auto simp: parse_frame_borrowed_def parse_inline_borrowed_def split: option.splits
        dest: find_crlf_bounds)
qed

section \<open>The loops\<close>

function parse_command_from :: "bytes \<Rightarrow> nat \<Rightarrow> argv \<Rightarrow> argv parsed" where
  "parse_command_from bs base dst =
     (let dst' = argv_clear dst; rest = drop base bs in
      if rest = [] then Ok None
      else case parse_frame_into rest dst' of
        Inl e \<Rightarrow> Err e
      | Inr None \<Rightarrow> Ok None
      | Inr (Some (v, used)) \<Rightarrow>
        if argv_is_empty v then parse_command_from bs (base + used) v else Ok (Some (v, base + used)))"
  by pat_completeness auto
termination
  by (relation "measure (\<lambda>(bs, base, dst). length bs - base)") (auto dest!: frame_into_used)

declare parse_command_from.simps [simp del]

definition parse_command_into :: "bytes \<Rightarrow> argv \<Rightarrow> argv parsed" where
  "parse_command_into bs dst = parse_command_from bs 0 dst"

definition parse_command :: "bytes \<Rightarrow> argv parsed" where
  "parse_command bs =
     (case parse_command_into bs argv_default of
        Inl e \<Rightarrow> Err e | Inr (Some (v, consumed)) \<Rightarrow> Ok (Some (v, consumed)) | Inr None \<Rightarrow> Ok None)"

function parse_command_borrowed_from :: "bytes \<Rightarrow> nat \<Rightarrow> argv_borrowed parsed" where
  "parse_command_borrowed_from bs base =
     (let rest = drop base bs in
      if rest = [] then Ok None
      else case parse_frame_borrowed rest of
        Inl e \<Rightarrow> Err e
      | Inr None \<Rightarrow> Ok None
      | Inr (Some (a, used)) \<Rightarrow>
        if borrowed_is_empty a then parse_command_borrowed_from bs (base + used)
        else Ok (Some (a, base + used)))"
  by pat_completeness auto
termination
  by (relation "measure (\<lambda>(bs, base). length bs - base)") (auto dest!: frame_borrowed_used)

declare parse_command_borrowed_from.simps [simp del]

definition parse_command_borrowed :: "bytes \<Rightarrow> argv_borrowed parsed" where
  "parse_command_borrowed bs = parse_command_borrowed_from bs 0"

section \<open>The laws of the skipping loop\<close>

text \<open>
  What the two entry points share: a frame parser whose decisions are final (more bytes
  change neither a parsed frame, up to \<open>view\<close>, nor an error), run until it yields a
  non-empty command.
\<close>

locale command_parser =
  fixes frame :: "bytes \<Rightarrow> 'v parsed"
    and empty :: "'v \<Rightarrow> bool"
    and view :: "'v \<Rightarrow> 'w"
    and run :: "bytes \<Rightarrow> nat \<Rightarrow> 'v parsed"
  assumes run_eq: "run bs base =
      (if drop base bs = [] then Ok None
       else case frame (drop base bs) of
         Inl e \<Rightarrow> Err e
       | Inr None \<Rightarrow> Ok None
       | Inr (Some (v, used)) \<Rightarrow>
         if empty v then run bs (base + used) else Ok (Some (v, base + used)))"
    and used: "frame bs = Ok (Some (v, n)) \<Longrightarrow> 2 \<le> n \<and> n \<le> length bs"
    and ok_final: "bs \<noteq> [] \<Longrightarrow> frame bs = Ok (Some (v, n)) \<Longrightarrow>
      \<exists>v'. frame (bs @ ms) = Ok (Some (v', n)) \<and> view v' = view v \<and> empty v' = empty v"
    and err_final: "bs \<noteq> [] \<Longrightarrow> frame bs = Err e \<Longrightarrow> frame (bs @ ms) = Err e"
begin

lemma run_induct [case_names step]:
  assumes "\<And>base. (\<And>v n. drop base bs \<noteq> [] \<Longrightarrow> frame (drop base bs) = Ok (Some (v, n)) \<Longrightarrow> empty v \<Longrightarrow>
      P (base + n)) \<Longrightarrow> P base"
  shows "P base"
proof (induction "length bs - base" arbitrary: base rule: less_induct)
  case less
  show ?case
  proof (rule assms)
    fix v n
    assume "drop base bs \<noteq> []" "frame (drop base bs) = Ok (Some (v, n))"
    with used [of "drop base bs" v n] show "P (base + n)" by (intro less) auto
  qed
qed

lemma run_consumed: "run bs base = Ok (Some (v, n)) \<Longrightarrow> base + 2 \<le> n \<and> n \<le> length bs \<and> \<not> empty v"
proof (induction base rule: run_induct [of bs])
  case (step base)
  from step.prems have ne: "drop base bs \<noteq> []"
    by (subst (asm) run_eq) (auto split: if_splits)
  with step.prems obtain u k where f: "frame (drop base bs) = Ok (Some (u, k))"
    and r: "if empty u then run bs (base + k) = Ok (Some (v, n)) else v = u \<and> n = base + k"
    by (subst (asm) run_eq) (auto split: sum.splits option.splits if_splits)
  from used [OF f] r step.IH [OF ne f] ne show ?case by (auto split: if_splits)
qed

lemma run_ok_final:
  "run bs base = Ok (Some (v, n)) \<Longrightarrow> \<exists>v'. run (bs @ ms) base = Ok (Some (v', n)) \<and> view v' = view v"
proof (induction base rule: run_induct [of bs])
  case (step base)
  from step.prems have ne: "drop base bs \<noteq> []"
    by (subst (asm) run_eq) (auto split: if_splits)
  with step.prems obtain u k where f: "frame (drop base bs) = Ok (Some (u, k))"
    and r: "if empty u then run bs (base + k) = Ok (Some (v, n)) else v = u \<and> n = base + k"
    by (subst (asm) run_eq) (auto split: sum.splits option.splits if_splits)
  from ok_final [OF ne f, of ms] obtain u' where
    u': "frame (drop base bs @ ms) = Ok (Some (u', k))" "view u' = view u" "empty u' = empty u" by blast
  have d: "drop base (bs @ ms) = drop base bs @ ms" using ne by simp
  show ?case
    unfolding run_eq [of "bs @ ms" base] d using ne r u' step.IH [OF ne f] by (simp split: if_splits)
qed

lemma run_err_final: "run bs base = Err e \<Longrightarrow> run (bs @ ms) base = Err e"
proof (induction base rule: run_induct [of bs])
  case (step base)
  from step.prems have ne: "drop base bs \<noteq> []"
    by (subst (asm) run_eq) (auto split: if_splits)
  have d: "drop base (bs @ ms) = drop base bs @ ms" using ne by simp
  consider "frame (drop base bs) = Err e"
    | u k where "frame (drop base bs) = Ok (Some (u, k))" "empty u" "run bs (base + k) = Err e"
    using ne step.prems by (subst (asm) run_eq) (auto split: sum.splits option.splits if_splits)
  then show ?case
  proof cases
    case 1
    from err_final [OF ne this, of ms] show ?thesis
      unfolding run_eq [of "bs @ ms" base] d using ne by simp
  next
    case 2
    from ok_final [OF ne 2(1), of ms] obtain u' where
      "frame (drop base bs @ ms) = Ok (Some (u', k))" "empty u'" using 2(2) by auto
    with step.IH [OF ne 2(1,2,3)] show ?thesis
      unfolding run_eq [of "bs @ ms" base] d using ne by simp
  qed
qed

text \<open>A complete command cut short is never an error and never a command.\<close>

lemma run_prefix:
  assumes "run (bs @ ms) 0 = Ok (Some (v, length (bs @ ms)))" "ms \<noteq> []"
  shows "run bs 0 = Ok None"
proof (cases "run bs 0")
  case (Inl e)
  from run_err_final [OF this, of ms] assms(1) show ?thesis by simp
next
  case (Inr r)
  show ?thesis
  proof (cases r)
    case None
    with Inr show ?thesis by simp
  next
    case (Some vn)
    with Inr have r: "run bs 0 = Ok (Some (fst vn, snd vn))" by simp
    from run_ok_final [OF r, of ms] run_consumed [OF r] assms show ?thesis by (cases ms) auto
  qed
qed

end


section \<open>The two parsers meet the contract\<close>

lemma nth_0_append: "bs \<noteq> [] \<Longrightarrow> (bs @ ms) ! 0 = bs ! 0"
  by (simp add: nth_append)

lemma copy_not_err: "validate_multibulk_frame bs p t n = Ok (Some r) \<Longrightarrow> copy_multibulk_args bs p n dst \<noteq> Err e"
  by (cases r) (auto simp: validate_bulks copy_bulks)

lemma multibulk_into_Some:
  "parse_multibulk_into bs dst = Ok (Some (v, n)) \<longleftrightarrow>
     (\<exists>h c. find_crlf bs 1 = Some h \<and> parse_int (slice bs 1 h) = Some c \<and>
        (c < 0 \<and> v = dst \<and> n = h + 2 \<or>
         0 \<le> c \<and> nat c \<le> max_multibulk_len \<and>
         (\<exists>args. bulks_at bs (h + 2) (nat c) = Some (args, n) \<and> v = argv_extend dst args)))"
proof -
  have "(case validate_multibulk_frame bs (h + 2) 0 m of
        Inl e \<Rightarrow> Err e | Inr None \<Rightarrow> Ok None
      | Inr (Some (end_pos, tot)) \<Rightarrow>
        (case copy_multibulk_args bs (h + 2) m dst of
           Inl e \<Rightarrow> Err e | Inr dst' \<Rightarrow> Ok (Some (dst', end_pos)))) = Ok (Some (v, n)) \<longleftrightarrow>
     (\<exists>args. bulks_at bs (h + 2) m = Some (args, n) \<and> v = argv_extend dst args)" for h m
  proof (cases "\<exists>r. validate_multibulk_frame bs (h + 2) 0 m = Ok (Some r)")
    case True
    then obtain p' t' where v: "validate_multibulk_frame bs (h + 2) 0 m = Ok (Some (p', t'))" by auto
    then obtain args where b: "bulks_at bs (h + 2) m = Some (args, p')"
      unfolding validate_bulks by blast
    show ?thesis using v copy_bulks [OF b, of dst] b by auto
  next
    case False
    then have "bulks_at bs (h + 2) m \<noteq> Some (args, n)" for args
      using validate_bulks [of bs "h + 2" 0 m n "sum_list (map length args)"] by auto
    with False show ?thesis by (auto split: sum.splits option.splits)
  qed
  then show ?thesis
    unfolding parse_multibulk_into_def by (auto split: option.splits)
qed

lemma frame_into_append:
  assumes "bs \<noteq> []" "parse_frame_into bs dst = Ok (Some (v, n))"
  shows "parse_frame_into (bs @ ms) dst = Ok (Some (v, n))"
proof (cases "bs ! 0 = 42")
  case True
  with assms show ?thesis
    by (fastforce simp: parse_frame_into_def nth_0_append multibulk_into_Some find_crlf_append
        slice_find_crlf bulks_at_append simp del: slice_append_left)
next
  case False
  with assms show ?thesis
    by (auto simp: parse_frame_into_def parse_inline_into_def Let_def nth_0_append find_crlf_append
        split: option.splits dest: find_crlf_bounds)
qed

lemma frame_into_err_append:
  assumes "bs \<noteq> []" "parse_frame_into bs dst = Err e"
  shows "parse_frame_into (bs @ ms) dst = Err e"
proof -
  have hd: "bs ! 0 = 42"
    using assms(2) by (auto simp: parse_frame_into_def parse_inline_into_def Let_def split: if_splits option.splits)
  then obtain h where h: "find_crlf bs 1 = Some h"
    using assms(2) by (auto simp: parse_frame_into_def parse_multibulk_into_def split: option.splits)
  show ?thesis
    using assms hd h find_crlf_append [OF h] slice_find_crlf [OF h]
    by (auto simp: parse_frame_into_def parse_multibulk_into_def nth_0_append validate_err_append
        simp del: slice_append_left dest: copy_not_err
        split: option.splits if_splits sum.splits)
qed

lemma parse_command_from_dst: "parse_command_from bs base dst = parse_command_from bs base argv_default"
  by (subst (1 2) parse_command_from.simps) (simp add: argv_clear_eq)

interpretation owned_cmd: command_parser "\<lambda>bs. parse_frame_into bs argv_default" argv_is_empty "\<lambda>v. v"
  "\<lambda>bs base. parse_command_from bs base argv_default"
proof unfold_locales
  fix bs base
  show "parse_command_from bs base argv_default =
      (if drop base bs = [] then Ok None
       else case parse_frame_into (drop base bs) argv_default of
         Inl e \<Rightarrow> Err e | Inr None \<Rightarrow> Ok None
       | Inr (Some (v, used)) \<Rightarrow>
         if argv_is_empty v then parse_command_from bs (base + used) argv_default
         else Ok (Some (v, base + used)))"
    by (subst parse_command_from.simps)
      (auto simp: argv_clear_eq Let_def split: sum.splits option.splits intro: parse_command_from_dst)
qed (auto dest: frame_into_used intro: frame_into_append frame_into_err_append)

lemma margs_append:
  assumes "multibulk_args bs p n a = Ok (Some (a', p'))" "ab_ranges b = ab_ranges a"
  shows "\<exists>b'. multibulk_args (bs @ ms) p n b = Ok (Some (b', p')) \<and> ab_ranges b' = ab_ranges a'"
  using assms
proof (induction n arbitrary: p a b)
  case 0
  then show ?case by simp
next
  case (Suc n)
  from margs_Some [OF Suc.prems(1)] obtain arg q where at: "bulk_at bs p = Some (arg, q)" .
  let ?push = "\<lambda>a. push_range a (q - 2 - length arg) (q - 2)"
  have r: "nth_opt bs (p + 1) \<noteq> Some 45" "multibulk_args bs q n (?push a) = Ok (Some (a', p'))"
    using Suc.prems(1) unfolding margs_step [OF at] by (auto split: if_splits)
  have "p + 1 < length bs"
    using bulk_at_bounds [OF at] by simp
  then have "nth_opt (bs @ ms) (p + 1) \<noteq> Some 45"
    using r(1) by (simp add: nth_opt_def nth_append)
  moreover have "ab_ranges (?push b) = ab_ranges (?push a)"
    using Suc.prems(2) by (simp add: push_range_def)
  ultimately show ?case
    using Suc.IH [OF r(2)] unfolding margs_step [OF bulk_at_append [OF at]] by simp
qed

lemma margs_err_append:
  "multibulk_args bs p n a = Err e \<Longrightarrow> multibulk_args (bs @ ms) p n b = Err e"
proof (induction n arbitrary: p a b)
  case 0
  then show ?case by simp
next
  case (Suc n)
  then have p: "p < length bs" by (simp split: if_splits)
  consider "bs ! p \<noteq> 36" | "bs ! p = 36" "parse_bulk_len bs p = Err e"
    | k ds where "bs ! p = 36" "parse_bulk_len bs p = Ok (Some (k, ds))"
    using p Suc.prems by (auto simp: bulk_header_at_eq split: if_splits sum.splits option.splits)
  then show ?case
  proof cases
    case 1
    with p Suc.prems show ?thesis by (simp add: nth_append)
  next
    case 2
    with p show ?thesis by (simp add: nth_append bulk_header_at_eq parse_bulk_len_err_append)
  next
    case 3
    from parse_bulk_len_sound [OF 3(2)] obtain x where x: "ds = x + 2" "find_crlf bs (p + 1) = Some x"
      "parse_int (slice bs (p + 1) x) = Some (int k)" "k \<le> max_bulk_len" "nth_opt bs (p + 1) \<noteq> Some 45"
      by auto
    have "p + 1 < length bs" using find_crlf_bounds [OF x(2)] by simp
    then have "parse_bulk_len (bs @ ms) p = Ok (Some (k, ds))"
      using parse_bulk_len_complete [OF find_crlf_append [OF x(2)]] x slice_find_crlf [OF x(2)]
      by (simp add: nth_opt_def nth_append)
    with p 3 Suc show ?thesis
      by (auto simp: bulk_header_at_eq nth_append Let_def split: if_splits)
  qed
qed

lemma inline_tokens_ranges:
  "ab_ranges b = ab_ranges a \<Longrightarrow> ab_ranges (inline_tokens line i b) = ab_ranges (inline_tokens line i a)"
proof (induction line i a arbitrary: b rule: inline_tokens.induct)
  case (1 line i a)
  have "ab_ranges (push_range b s e) = ab_ranges (push_range a s e)" for s e
    using "1.prems" by (simp add: push_range_def)
  with 1 show ?case
    unfolding inline_tokens.simps [of line i a] inline_tokens.simps [of line i b] Let_def
    by (simp only: split: if_split) blast
qed

lemma borrowed_is_empty_ranges: "ab_ranges b = ab_ranges a \<Longrightarrow> borrowed_is_empty b = borrowed_is_empty a"
  by (simp add: borrowed_is_empty_def)

lemma multibulk_borrowed_append:
  assumes "parse_multibulk_borrowed bs = Ok (Some (a, n))"
  shows "\<exists>b. parse_multibulk_borrowed (bs @ ms) = Ok (Some (b, n)) \<and> ab_ranges b = ab_ranges a"
proof -
  from assms obtain h c where h: "find_crlf bs 1 = Some h" "parse_int (slice bs 1 h) = Some c"
    and r: "(if c < 0 then Ok (Some (borrowed_new bs, h + 2)) else parse_multibulk_counted bs (nat c) (h + 2)) =
      Ok (Some (a, n))"
    by (auto simp: parse_multibulk_borrowed_eq split: option.splits)
  have new: "ab_ranges (borrowed_new (bs @ ms)) = ab_ranges (borrowed_new bs)"
    by (simp add: borrowed_new_def)
  note app = find_crlf_append [OF h(1), of ms] slice_find_crlf [OF h(1), of ms 1]
  show ?thesis
  proof (cases "c < 0")
    case True
    with r h(2) app new show ?thesis by (auto simp: parse_multibulk_borrowed_eq)
  next
    case False
    with r have c: "nat c \<le> max_multibulk_len"
      "multibulk_args bs (h + 2) (nat c) (borrowed_new bs) = Ok (Some (a, n))"
      by (auto simp: parse_multibulk_counted_def split: if_splits)
    from margs_append [OF c(2) new] False c(1) h(2) app show ?thesis
      by (auto simp: parse_multibulk_borrowed_eq parse_multibulk_counted_def)
  qed
qed

lemma frame_borrowed_append:
  assumes "bs \<noteq> []" "parse_frame_borrowed bs = Ok (Some (a, n))"
  shows "\<exists>b. parse_frame_borrowed (bs @ ms) = Ok (Some (b, n)) \<and> ab_ranges b = ab_ranges a \<and>
    borrowed_is_empty b = borrowed_is_empty a"
proof (cases "bs ! 0 = 42")
  case True
  with assms obtain b where "parse_multibulk_borrowed (bs @ ms) = Ok (Some (b, n))" "ab_ranges b = ab_ranges a"
    using multibulk_borrowed_append [of bs a n ms] by (auto simp: parse_frame_borrowed_def)
  with True assms(1) borrowed_is_empty_ranges [of b a] show ?thesis
    by (simp add: parse_frame_borrowed_def nth_0_append)
next
  case False
  with assms obtain eol where e: "find_crlf bs 0 = Some eol" "n = eol + 2"
    "a = inline_tokens (take eol bs) 0 (borrowed_new bs)"
    by (auto simp: parse_frame_borrowed_def parse_inline_borrowed_def split: option.splits)
  let ?b = "inline_tokens (take eol bs) 0 (borrowed_new (bs @ ms))"
  have "parse_frame_borrowed (bs @ ms) = Ok (Some (?b, n))"
    using False assms(1) e find_crlf_append [OF e(1), of ms] find_crlf_bounds [OF e(1)]
    by (simp add: parse_frame_borrowed_def parse_inline_borrowed_def nth_0_append)
  moreover have "ab_ranges ?b = ab_ranges a"
    unfolding e(3) by (intro inline_tokens_ranges) (simp add: borrowed_new_def)
  ultimately show ?thesis using borrowed_is_empty_ranges by blast
qed

lemma frame_borrowed_err_append:
  assumes "bs \<noteq> []" "parse_frame_borrowed bs = Err e"
  shows "parse_frame_borrowed (bs @ ms) = Err e"
proof -
  have hd: "bs ! 0 = 42"
    using assms(2) by (auto simp: parse_frame_borrowed_def parse_inline_borrowed_def split: if_splits option.splits)
  then obtain h where h: "find_crlf bs 1 = Some h"
    using assms(2) by (auto simp: parse_frame_borrowed_def parse_multibulk_borrowed_eq split: option.splits)
  show ?thesis
    using assms hd h find_crlf_append [OF h] slice_find_crlf [OF h] margs_err_append
    by (auto simp: parse_frame_borrowed_def parse_multibulk_borrowed_eq parse_multibulk_counted_def nth_0_append
        simp del: slice_append_left split: option.splits if_splits)
qed

interpretation borrowed_cmd: command_parser parse_frame_borrowed borrowed_is_empty ab_ranges
  parse_command_borrowed_from
proof unfold_locales
  fix bs base
  show "parse_command_borrowed_from bs base =
      (if drop base bs = [] then Ok None
       else case parse_frame_borrowed (drop base bs) of
         Inl e \<Rightarrow> Err e | Inr None \<Rightarrow> Ok None
       | Inr (Some (v, used)) \<Rightarrow>
         if borrowed_is_empty v then parse_command_borrowed_from bs (base + used)
         else Ok (Some (v, base + used)))"
    by (subst parse_command_borrowed_from.simps) (simp add: Let_def)
qed (auto dest: frame_borrowed_used intro: frame_borrowed_append frame_borrowed_err_append)

lemma parse_command_from_0: "parse_command bs = parse_command_from bs 0 argv_default"
  by (auto simp: parse_command_def parse_command_into_def split: sum.splits option.splits)

section \<open>Round trip\<close>

lemma parse_int_acc_append:
  "parse_int_acc acc (xs @ ys) = Option.bind (parse_int_acc acc xs) (\<lambda>a. parse_int_acc a ys)"
  by (induction acc xs rule: parse_int_acc.induct) (simp_all split: option.splits)

lemma parse_int_acc_dec: "int n \<le> i64_max \<Longrightarrow> parse_int_acc 0 (dec_digits n) = Some (int n)"
proof (induction n rule: dec_digits.induct)
  case (1 n)
  show ?case
  proof (cases "n < 10")
    case True
    then show ?thesis by (simp add: dec_digits.simps [of n] checked_i64_def int_bounds)
  next
    case False
    have "int (n div 10) * 10 + int (n mod 10) = int n"
      by (simp add: zdiv_int zmod_int)
    moreover from this have "int (n div 10) * 10 \<le> int n" by linarith
    moreover have "0 \<le> int n" "0 \<le> int (n div 10) * 10" by simp_all
    ultimately show ?thesis
      using False 1 by (simp add: dec_digits.simps [of n] parse_int_acc_append checked_i64_def in_i64_def
        i64_min_def)
  qed
qed

lemma parse_int_dec: "int n \<le> i64_max \<Longrightarrow> parse_int (dec_digits n) = Some (int n)"
  unfolding parse_int_Some
  by (intro exI [of _ "dec_digits n"] exI [of _ "int n"]) (simp add: parse_int_acc_dec)

lemma number_line:
  assumes "int n \<le> i64_max"
  shows "find_crlf (pre @ dec_digits n @ 13 # 10 # post) (length pre) = Some (length pre + length (dec_digits n))"
    "parse_int (slice (pre @ dec_digits n @ 13 # 10 # post) (length pre) (length pre + length (dec_digits n))) = Some (int n)"
  using assms digits_no_cr [of "dec_digits n"] by (simp_all add: find_crlf_line slice_mid parse_int_dec)

lemma bulk_at_frame:
  assumes "length arg \<le> max_bulk_len"
  shows "bulk_at (pre @ bulk_frame arg @ rest) (length pre) = Some (arg, length pre + length (bulk_frame arg))"
    "nth_opt (pre @ bulk_frame arg @ rest) (length pre + 1) \<noteq> Some 45"
proof -
  let ?d = "dec_digits (length arg)"
  let ?bs = "pre @ bulk_frame arg @ rest"
  let ?e = "length pre + 1 + length ?d"
  have bs: "?bs = (pre @ [36]) @ ?d @ 13 # 10 # (arg @ 13 # 10 # rest)"
    "?bs = (pre @ 36 # ?d @ [13, 10]) @ arg @ (13 # 10 # rest)"
    "?bs = (pre @ 36 # ?d @ [13, 10] @ arg) @ [13, 10] @ rest"
    by (simp_all add: bulk_frame_def)
  have small: "int (length arg) \<le> i64_max"
    using assms by (simp add: max_bulk_len_def i64_max_def)
  have h: "find_crlf ?bs (length pre + 1) = Some ?e"
    "parse_int (slice ?bs (length pre + 1) ?e) = Some (int (length arg))"
    unfolding bs(1) using number_line [OF small, of "pre @ [36]" "arg @ 13 # 10 # rest"] by simp_all
  have "slice ?bs (?e + 2) (?e + 2 + length arg) = arg"
    unfolding bs(2) using slice_mid [of "pre @ 36 # ?d @ [13, 10]" arg] by simp
  moreover have "slice ?bs (?e + 2 + length arg) (?e + 2 + length arg + 2) = crlf"
    unfolding bs(3) using slice_mid [of "pre @ 36 # ?d @ [13, 10] @ arg" "[13, 10]" rest] by (simp add: add.assoc)
  moreover have "length pre < length ?bs" "?bs ! length pre = 36" "?e + 2 + length arg + 2 \<le> length ?bs"
    "?e + 2 + length arg + 2 = length pre + length (bulk_frame arg)"
    by (simp_all add: bulk_frame_def)
  ultimately show "bulk_at ?bs (length pre) = Some (arg, length pre + length (bulk_frame arg))"
    using bulk_atI [OF _ _ h(1) h(2)] assms by simp
  have "nth_opt ?bs (length pre + 1) = Some (hd ?d)"
    unfolding bs(1) by (simp add: nth_opt_def nth_append hd_conv_nth)
  then show "nth_opt ?bs (length pre + 1) \<noteq> Some 45"
    using hd_dec_digits [of "length arg"] by auto
qed

lemma bulks_at_frames:
  "list_all (\<lambda>arg. length arg \<le> max_bulk_len) args \<Longrightarrow>
     bulks_at (pre @ concat (map bulk_frame args) @ rest) (length pre) (length args) =
       Some (args, length pre + length (concat (map bulk_frame args)))"
proof (induction args arbitrary: pre)
  case Nil
  then show ?case by simp
next
  case (Cons arg args)
  have "bulk_at (pre @ bulk_frame arg @ concat (map bulk_frame args) @ rest) (length pre) =
      Some (arg, length pre + length (bulk_frame arg))"
    using Cons.prems by (intro bulk_at_frame) simp
  with Cons.IH [of "pre @ bulk_frame arg"] Cons.prems show ?case by simp
qed

lemma margs_frames:
  "list_all (\<lambda>arg. length arg \<le> max_bulk_len) args \<Longrightarrow>
     \<exists>a'. multibulk_args (pre @ concat (map bulk_frame args) @ rest) (length pre) (length args) a =
       Ok (Some (a', length pre + length (concat (map bulk_frame args))))"
proof (induction args arbitrary: pre a)
  case Nil
  then show ?case by simp
next
  case (Cons arg args)
  let ?rest = "concat (map bulk_frame args) @ rest"
  have "length arg \<le> max_bulk_len" using Cons.prems by simp
  note b = bulk_at_frame [OF this, of pre ?rest]
  have "pre @ concat (map bulk_frame (arg # args)) @ rest = pre @ bulk_frame arg @ ?rest" by simp
  with Cons.IH [of "pre @ bulk_frame arg"] Cons.prems b(2) show ?case
    by (simp add: margs_step [OF b(1)] add.assoc del: multibulk_args.simps)
qed

text \<open>The commands an encoder may send: within both limits of the protocol.\<close>

definition sendable :: "bytes list \<Rightarrow> bool" where
  "sendable args \<longleftrightarrow> args \<noteq> [] \<and> length args \<le> max_multibulk_len \<and>
     list_all (\<lambda>arg. length arg \<le> max_bulk_len) args"

lemma encoded_header:
  assumes "sendable args"
  defines "h \<equiv> 1 + length (dec_digits (length args))"
  shows "encode_command [] args @ rest = (42 # dec_digits (length args) @ crlf) @ concat (map bulk_frame args) @ rest"
    "h + 2 = length (42 # dec_digits (length args) @ crlf)"
    "find_crlf (encode_command [] args @ rest) 1 = Some h"
    "parse_int (slice (encode_command [] args @ rest) 1 h) = Some (int (length args))"
    "length (encode_command [] args) = h + 2 + length (concat (map bulk_frame args))"
proof -
  have "int (length args) \<le> i64_max"
    using assms(1) by (simp add: sendable_def max_multibulk_len_def i64_max_def)
  from number_line [OF this, of "[42]" "concat (map bulk_frame args) @ rest"]
  show "find_crlf (encode_command [] args @ rest) 1 = Some h"
    "parse_int (slice (encode_command [] args @ rest) 1 h) = Some (int (length args))"
    by (simp_all add: encode_command_frame h_def)
qed (simp_all add: encode_command_frame h_def)

lemma frame_into_encoded:
  assumes "sendable args"
  shows "parse_frame_into (encode_command [] args @ rest) dst =
    Ok (Some (argv_extend dst args, length (encode_command [] args)))"
proof -
  note h = encoded_header(2,5) [OF assms] encoded_header(1,3,4) [OF assms, of rest]
  have lens: "length args \<le> max_multibulk_len" "list_all (\<lambda>arg. length arg \<le> max_bulk_len) args"
    using assms by (simp_all add: sendable_def)
  have "(encode_command [] args @ rest) ! 0 = 42" by (simp add: h(3))
  moreover have "bulks_at (encode_command [] args @ rest) (1 + length (dec_digits (length args)) + 2) (length args)
      = Some (args, length (encode_command [] args))"
    using bulks_at_frames [OF lens(2), of "42 # dec_digits (length args) @ crlf" rest]
    unfolding h(1-3) by simp
  ultimately show ?thesis
    using h(4,5) lens(1) by (auto simp: parse_frame_into_def multibulk_into_Some)
qed

lemma frame_borrowed_encoded:
  assumes "sendable args" "length (encode_command [] args @ rest) < 4294967296"
  shows "\<exists>a. parse_frame_borrowed (encode_command [] args @ rest) = Ok (Some (a, length (encode_command [] args))) \<and>
    borrowed_list a = args"
proof -
  let ?bs = "encode_command [] args @ rest" and ?p = "1 + length (dec_digits (length args)) + 2"
  note h = encoded_header(2,5) [OF assms(1)] encoded_header(1,3,4) [OF assms(1), of rest]
  have lens: "length args \<le> max_multibulk_len" "list_all (\<lambda>arg. length arg \<le> max_bulk_len) args"
    using assms(1) by (simp_all add: sendable_def)
  have b: "bulks_at ?bs ?p (length args) = Some (args, length (encode_command [] args))"
    using bulks_at_frames [OF lens(2), of "42 # dec_digits (length args) @ crlf" rest]
    unfolding h(1-3) by simp
  obtain a where a: "multibulk_args ?bs ?p (length args) (borrowed_new ?bs) =
      Ok (Some (a, length (encode_command [] args)))"
    using margs_frames [OF lens(2), of "42 # dec_digits (length args) @ crlf" rest]
    unfolding h(1-3) by auto
  have "borrowed_list a = args"
    using margs_sound [OF a] assms(2) b by simp
  moreover have "?bs ! 0 = 42" by (simp add: h(3))
  ultimately show ?thesis
    using h(4,5) lens(1) a
    by (simp add: parse_frame_borrowed_def parse_multibulk_borrowed_eq parse_multibulk_counted_def)
qed

lemma argv_from_empty: "argv_is_empty (argv_from args) \<longleftrightarrow> args = []"
  by (induction args rule: rev_induct) (simp_all add: argv_from_def argv_extend_def argv_is_empty_def
      argv_push_def argv_default_def Let_def)

lemma command_encoded:
  assumes "sendable args"
  shows "parse_command_from (encode_command [] args @ rest) 0 argv_default =
      Ok (Some (argv_from args, length (encode_command [] args)))"
proof -
  have "encode_command [] args @ rest \<noteq> []"
    by (simp add: encode_command_frame)
  then show ?thesis
    using frame_into_encoded [OF assms, of rest argv_default] assms
    by (subst owned_cmd.run_eq) (simp add: argv_from_def [symmetric] argv_from_empty sendable_def)
qed

section \<open>Agreement of the two parsers\<close>

lemma into_owned_empty: "argv_is_empty (into_owned a) \<longleftrightarrow> borrowed_is_empty a"
  by (simp add: into_owned_eq argv_from_empty borrowed_is_empty_iff)

lemma run_agree_sound:
  assumes "length bs < 4294967296"
  shows "parse_command_borrowed_from bs base = Ok (Some (a, n)) \<Longrightarrow>
    borrowed_wf a \<and> parse_command_from bs base argv_default = Ok (Some (into_owned a, n))"
proof (induction base rule: borrowed_cmd.run_induct [of bs])
  case (step base)
  from step.prems have ne: "drop base bs \<noteq> []"
    by (subst (asm) borrowed_cmd.run_eq) (auto split: if_splits)
  with step.prems obtain u k where f: "parse_frame_borrowed (drop base bs) = Ok (Some (u, k))"
    and r: "if borrowed_is_empty u then parse_command_borrowed_from bs (base + k) = Ok (Some (a, n))
      else a = u \<and> n = base + k"
    by (subst (asm) borrowed_cmd.run_eq) (auto split: sum.splits option.splits if_splits)
  have "length (drop base bs) < 4294967296" using assms by simp
  note s = frame_sound [OF f this]
  show ?case
    unfolding owned_cmd.run_eq [of bs base] using ne r s step.IH [OF ne f]
    by (simp add: into_owned_empty split: if_splits)
qed

lemma run_agree_complete:
  assumes "length bs < 4294967296"
  shows "parse_command_from bs base argv_default = Ok (Some (v, n)) \<Longrightarrow>
    (\<exists>a. parse_command_borrowed_from bs base = Ok (Some (a, n)) \<and> into_owned a = v) \<or>
    parse_command_borrowed_from bs base = Err (Malformed ''negative bulk length in request'')"
proof (induction base rule: owned_cmd.run_induct [of bs])
  case (step base)
  from step.prems have ne: "drop base bs \<noteq> []"
    by (subst (asm) owned_cmd.run_eq) (auto split: if_splits)
  with step.prems obtain u k where f: "parse_frame_into (drop base bs) argv_default = Ok (Some (u, k))"
    and r: "if argv_is_empty u then parse_command_from bs (base + k) argv_default = Ok (Some (v, n))
      else v = u \<and> n = base + k"
    by (subst (asm) owned_cmd.run_eq) (auto split: sum.splits option.splits if_splits)
  have len: "length (drop base bs) < 4294967296" using assms by simp
  from frame_complete [OF f] show ?case
  proof
    assume "\<exists>a. parse_frame_borrowed (drop base bs) = Ok (Some (a, k))"
    then obtain a where a: "parse_frame_borrowed (drop base bs) = Ok (Some (a, k))" by blast
    from frame_sound(2) [OF this len] f have "into_owned a = u" by simp
    with a ne r step.IH [OF ne f] show ?thesis
      unfolding borrowed_cmd.run_eq [of bs base] by (auto simp flip: into_owned_empty split: if_splits)
  next
    assume "parse_frame_borrowed (drop base bs) = Err (Malformed ''negative bulk length in request'')"
    then show ?thesis
      unfolding borrowed_cmd.run_eq [of bs base] using ne by simp
  qed
qed

text \<open>A frame whose bulk length is written \<open>-0\<close>.\<close>

definition minus_zero_frame :: bytes where
  "minus_zero_frame = [42, 49, 13, 10, 36, 45, 48, 13, 10, 13, 10]"

lemma minus_zero_eval:
  "find_crlf minus_zero_frame 1 = Some 2" "find_crlf minus_zero_frame 5 = Some 7"
  "parse_int (slice minus_zero_frame 1 2) = Some 1" "parse_int (slice minus_zero_frame 5 7) = Some 0"
  "minus_zero_frame ! 0 = 42" "minus_zero_frame ! 4 = 36" "nth_opt minus_zero_frame 5 = Some 45"
  "length minus_zero_frame = 11" "slice minus_zero_frame 9 11 = crlf"
  by (simp_all add: minus_zero_frame_def find_crlf_eq find_crlf_tail.simps nth_opt_def
      slice_def parse_int_def is_digit_def digit_val_def checked_i64_def int_bounds)

lemma minus_zero_bulk: "bulk_at minus_zero_frame 4 = Some ([], 11)"
  using bulk_atI [of 4 minus_zero_frame 7 0] minus_zero_eval by (simp add: max_bulk_len_def)

lemma minus_zero_parses:
  "parse_command minus_zero_frame = Ok (Some (argv_from [[]], 11))"
  "parse_command_borrowed minus_zero_frame = Err (Malformed ''negative bulk length in request'')"
proof -
  have ne: "minus_zero_frame \<noteq> []" by (simp add: minus_zero_frame_def)
  have "bulks_at minus_zero_frame 4 1 = Some ([[]], 11)"
    using minus_zero_bulk by simp
  then have "parse_frame_into minus_zero_frame argv_default = Ok (Some (argv_from [[]], 11))"
    using minus_zero_eval
    by (auto simp: parse_frame_into_def multibulk_into_Some max_multibulk_len_def argv_from_def)
  then show "parse_command minus_zero_frame = Ok (Some (argv_from [[]], 11))"
    unfolding parse_command_from_0 using ne by (subst owned_cmd.run_eq) (simp add: argv_from_empty)
  have "multibulk_args minus_zero_frame 4 1 a = Err (Malformed ''negative bulk length in request'')" for a
    using margs_step [OF minus_zero_bulk, of 0 a] minus_zero_eval(7) by simp
  then have "parse_frame_borrowed minus_zero_frame = Err (Malformed ''negative bulk length in request'')"
    using minus_zero_eval
    by (simp add: parse_frame_borrowed_def parse_multibulk_borrowed_eq parse_multibulk_counted_def max_multibulk_len_def)
  then show "parse_command_borrowed minus_zero_frame = Err (Malformed ''negative bulk length in request'')"
    unfolding parse_command_borrowed_def using ne by (subst borrowed_cmd.run_eq) simp
qed

lemma validate_not_panicked: "validate_multibulk_frame bs p t n \<noteq> Err (Panicked m)"
  by (induction bs p t n rule: validate_multibulk_frame.induct)
    (auto simp: Let_def split: option.splits)

lemma frame_into_not_panicked: "parse_frame_into bs dst \<noteq> Err (Panicked m)"
  using validate_not_panicked copy_not_err
  by (auto simp: parse_frame_into_def parse_multibulk_into_def parse_inline_into_def Let_def
      split: option.splits sum.splits)

lemma borrowed_encoded:
  assumes "sendable args" "length (encode_command [] args @ rest) < 4294967296"
  shows "\<exists>a. parse_command_borrowed (encode_command [] args @ rest) = Ok (Some (a, length (encode_command [] args))) \<and>
    borrowed_list a = args"
proof -
  from frame_borrowed_encoded [OF assms] obtain a where
    a: "parse_frame_borrowed (encode_command [] args @ rest) = Ok (Some (a, length (encode_command [] args)))"
    "borrowed_list a = args" by blast
  then have "\<not> borrowed_is_empty a" "encode_command [] args @ rest \<noteq> []"
    using assms(1) by (simp_all add: borrowed_is_empty_iff sendable_def encode_command_frame)
  with a show ?thesis
    unfolding parse_command_borrowed_def by (subst borrowed_cmd.run_eq) simp
qed

lemma borrowed_partial:
  assumes "sendable args" "encode_command [] args = bs @ ms" "ms \<noteq> []" "length (bs @ ms) < 4294967296"
  shows "parse_command_borrowed bs = Ok None"
proof -
  obtain a where "parse_command_borrowed_from (bs @ ms) 0 = Ok (Some (a, length (bs @ ms)))"
    using borrowed_encoded [of args "[]"] assms by (auto simp: parse_command_borrowed_def)
  then show ?thesis
    unfolding parse_command_borrowed_def using assms(3) by (rule borrowed_cmd.run_prefix)
qed

section \<open>Properties\<close>

text \<open>
  C28: a command within the protocol limits, encoded by \<open>encode_command\<close> and followed by
  arbitrary bytes, is parsed back by the owned parser: the same arguments, and exactly the
  encoded bytes consumed.
\<close>

theorem parse_command_roundtrip:
  assumes "sendable args" "sum_list (map length args) < 4294967296"
  shows "parse_command (encode_command [] args @ rest) = Ok (Some (argv_from args, length (encode_command [] args))) \<and>
    argv_list (argv_from args) = args"
  using command_encoded [OF assms(1)] argv_list_from [OF assms(2)] by (simp add: parse_command_from_0)

theorem parse_command_roundtrip_witness:
  "sendable [[71, 69, 84], [13, 10]] \<and>
   parse_command (encode_command [] [[71, 69, 84], [13, 10]] @ [42]) =
     Ok (Some (argv_from [[71, 69, 84], [13, 10]], length (encode_command [] [[71, 69, 84], [13, 10]])))"
  using parse_command_roundtrip [of "[[71, 69, 84], [13, 10]]" "[42]"]
  by (simp add: sendable_def max_multibulk_len_def max_bulk_len_def)

text \<open>
  C29: whenever the zero-copy parser accepts, the owned parser accepts too, with the same
  arguments and the same number of bytes; and whenever the owned parser accepts, the
  zero-copy parser either agrees or rejects the input for a bulk length written with a
  minus sign (\<open>$-0\<close>).
\<close>

theorem parsers_agree:
  assumes "length bs < 4294967296"
  shows "(parse_command_borrowed bs = Ok (Some (a, n)) \<longrightarrow> parse_command bs = Ok (Some (into_owned a, n))) \<and>
    (parse_command bs = Ok (Some (v, n)) \<longrightarrow>
      (\<exists>a. parse_command_borrowed bs = Ok (Some (a, n)) \<and> into_owned a = v) \<or>
      parse_command_borrowed bs = Err (Malformed ''negative bulk length in request''))"
  using run_agree_sound [OF assms, of 0 a n] run_agree_complete [OF assms, of 0 v n]
  by (simp add: parse_command_from_0 parse_command_borrowed_def)

theorem parsers_agree_witness:
  "length minus_zero_frame < 4294967296 \<and>
   parse_command minus_zero_frame = Ok (Some (argv_from [[]], 11)) \<and>
   ((\<exists>a. parse_command_borrowed minus_zero_frame = Ok (Some (a, 11)) \<and> into_owned a = argv_from [[]]) \<or>
    parse_command_borrowed minus_zero_frame = Err (Malformed ''negative bulk length in request''))"
  using parsers_agree [of minus_zero_frame undefined 11 "argv_from [[]]"] minus_zero_parses(1)
  by (simp add: minus_zero_eval(8))


text \<open>
  C31: a command that has arrived in part is reported as incomplete, never as an error and
  never as a shorter command, by both parsers: the socket loop may simply read on.
\<close>

theorem partial_command_incomplete:
  assumes "sendable args" "encode_command [] args = bs @ ms" "ms \<noteq> []" "length (bs @ ms) < 4294967296"
  shows "parse_command bs = Ok None \<and> parse_command_borrowed bs = Ok None"
proof
  show "parse_command bs = Ok None"
    unfolding parse_command_from_0
    using command_encoded [OF assms(1), of "[]"] assms(2,3) owned_cmd.run_prefix [of bs ms "argv_from args"]
    by simp
  show "parse_command_borrowed bs = Ok None"
    using assms by (rule borrowed_partial)
qed

theorem partial_command_incomplete_witness:
  "encode_command [] [[71]] = [42, 49, 13, 10, 36, 49] @ [13, 10, 71, 13, 10] \<and>
   parse_command [42, 49, 13, 10, 36, 49] = Ok None \<and> parse_command_borrowed [42, 49, 13, 10, 36, 49] = Ok None"
proof -
  have e: "encode_command [] [[71]] = [42, 49, 13, 10, 36, 49] @ [13, 10, 71, 13, 10]"
    by (simp add: encode_command_frame bulk_frame_def dec_digits.simps digit_byte_def)
  then show ?thesis
    using partial_command_incomplete [of "[[71]]" "[42, 49, 13, 10, 36, 49]" "[13, 10, 71, 13, 10]"]
    by (simp add: sendable_def max_multibulk_len_def max_bulk_len_def)
qed

text \<open>
  C32: what either parser has decided on a prefix of the stream stands when more bytes arrive:
  the command, the byte count and the recorded ranges do not change, and neither does an error.
\<close>

theorem decisions_are_final:
  "(parse_command bs = Ok (Some (v, n)) \<longrightarrow> parse_command (bs @ ms) = Ok (Some (v, n))) \<and>
   (parse_command bs = Err e \<longrightarrow> parse_command (bs @ ms) = Err e) \<and>
   (parse_command_borrowed bs = Ok (Some (a, n)) \<longrightarrow>
     (\<exists>a'. parse_command_borrowed (bs @ ms) = Ok (Some (a', n)) \<and> ab_ranges a' = ab_ranges a)) \<and>
   (parse_command_borrowed bs = Err e \<longrightarrow> parse_command_borrowed (bs @ ms) = Err e)"
  unfolding parse_command_from_0 parse_command_borrowed_def
  using owned_cmd.run_ok_final [of bs 0 v n ms] owned_cmd.run_err_final [of bs 0 e ms]
    borrowed_cmd.run_ok_final [of bs 0 a n ms] borrowed_cmd.run_err_final [of bs 0 e ms]
  by simp

theorem decisions_are_final_witness:
  "parse_command (minus_zero_frame @ [42]) = Ok (Some (argv_from [[]], 11)) \<and>
   parse_command_borrowed (minus_zero_frame @ [42]) = Err (Malformed ''negative bulk length in request'')"
  using decisions_are_final [of minus_zero_frame "argv_from [[]]" 11 "[42]"
      "Malformed ''negative bulk length in request''" undefined] minus_zero_parses
  by simp

text \<open>
  C33: the owned parser never panics (the \<open>expect\<close>s of its second pass are dead), and a
  parsed command is non-empty and consumes at least two and at most all of the bytes.
\<close>

theorem parse_command_safe:
  "parse_command bs \<noteq> Err (Panicked m) \<and>
   (parse_command bs = Ok (Some (v, n)) \<longrightarrow> 2 \<le> n \<and> n \<le> length bs \<and> \<not> argv_is_empty v)"
proof -
  have "parse_command_from bs base argv_default \<noteq> Err (Panicked m)" for base
  proof (induction base rule: owned_cmd.run_induct [of bs])
    case (step base)
    then show ?case
      using frame_into_not_panicked [of "drop base bs" argv_default m]
      by (subst owned_cmd.run_eq) (auto split: sum.splits option.splits)
  qed
  then show ?thesis
    using owned_cmd.run_consumed [of bs 0 v n] by (auto simp: parse_command_from_0)
qed

theorem parse_command_safe_witness:
  "parse_command minus_zero_frame = Ok (Some (argv_from [[]], 11)) \<and>
   (11::nat) \<le> length minus_zero_frame \<and> \<not> argv_is_empty (argv_from [[]])"
  using parse_command_safe [of minus_zero_frame undefined "argv_from [[]]" 11] minus_zero_parses by simp

end
