(* ===== verification/Utf8.thy ===== *)
theory Utf8
  imports Kevy_Prelude
begin

text \<open>
  UTF-8 as the standard library reads it: \<open>std::str::from_utf8\<close> accepts well-formed
  sequences only, and \<open>String::from_utf8_lossy\<close> replaces each maximal ill-formed part by
  the replacement character.
\<close>

definition utf8_cont :: "u8 \<Rightarrow> bool" where
  "utf8_cont b \<longleftrightarrow> 0x80 \<le> b \<and> b \<le> 0xBF"

text \<open>The second byte a leading byte allows: no overlong form, no surrogate, nothing above U+10FFFF.\<close>

definition utf8_second :: "u8 \<Rightarrow> u8 \<Rightarrow> bool" where
  "utf8_second a b \<longleftrightarrow>
     (if a = 0xE0 then 0xA0 \<le> b \<and> b \<le> 0xBF
      else if a = 0xED then 0x80 \<le> b \<and> b \<le> 0x9F
      else if a = 0xF0 then 0x90 \<le> b \<and> b \<le> 0xBF
      else if a = 0xF4 then 0x80 \<le> b \<and> b \<le> 0x8F
      else utf8_cont b)"

definition utf8_width :: "u8 \<Rightarrow> nat" where
  "utf8_width a =
     (if a < 0x80 then 1 else if 0xC2 \<le> a \<and> a \<le> 0xDF then 2
      else if 0xE0 \<le> a \<and> a \<le> 0xEF then 3 else if 0xF0 \<le> a \<and> a \<le> 0xF4 then 4 else 0)"

text \<open>
  The character at the head: \<open>Inr n\<close> for a well-formed one of \<open>n\<close> bytes, \<open>Inl n\<close> for an
  ill-formed part of \<open>n\<close> bytes.
\<close>

fun utf8_head :: "bytes \<Rightarrow> nat + nat" where
  "utf8_head [] = Inl 1"
| "utf8_head (a # r) =
     (let w = utf8_width a in
      if w = 1 then Inr 1
      else if w = 0 then Inl 1
      else case r of [] \<Rightarrow> Inl 1
      | b # r1 \<Rightarrow>
        if \<not> utf8_second a b then Inl 1
        else if w = 2 then Inr 2
        else case r1 of [] \<Rightarrow> Inl 2
        | c # r2 \<Rightarrow>
          if \<not> utf8_cont c then Inl 2
          else if w = 3 then Inr 3
          else case r2 of [] \<Rightarrow> Inl 3
          | d # r3 \<Rightarrow> if utf8_cont d then Inr 4 else Inl 3)"

lemma utf8_head_pos: "utf8_head bs = Inr n \<Longrightarrow> 0 < n" "utf8_head bs = Inl n \<Longrightarrow> 0 < n"
  by (cases bs; auto simp: Let_def split: if_splits list.splits)+

lemma utf8_head_le: "utf8_head bs = Inr n \<Longrightarrow> n \<le> length bs"
  by (cases bs) (auto simp: Let_def split: if_splits list.splits)

function utf8_valid :: "bytes \<Rightarrow> bool" where
  "utf8_valid bs =
     (if bs = [] then True
      else case utf8_head bs of Inl _ \<Rightarrow> False | Inr n \<Rightarrow> utf8_valid (drop n bs))"
  by pat_completeness auto
termination by (relation "measure length") (auto dest: utf8_head_pos)

function from_utf8_lossy :: "bytes \<Rightarrow> bytes" where
  "from_utf8_lossy bs =
     (if bs = [] then []
      else case utf8_head bs of
        Inl n \<Rightarrow> [0xEF, 0xBF, 0xBD] @ from_utf8_lossy (drop n bs)
      | Inr n \<Rightarrow> take n bs @ from_utf8_lossy (drop n bs))"
  by pat_completeness auto
termination by (relation "measure length") (auto dest: utf8_head_pos)

declare utf8_valid.simps [simp del] from_utf8_lossy.simps [simp del]

lemma utf8_valid_Nil [simp]: "utf8_valid []"
  by (simp add: utf8_valid.simps)

lemma utf8_valid_ascii [simp]: "a < 0x80 \<Longrightarrow> utf8_valid (a # r) = utf8_valid r"
  by (simp add: utf8_valid.simps [of "a # r"] utf8_width_def)

text \<open>Valid text is kept as it is.\<close>

lemma from_utf8_lossy_valid: "utf8_valid bs \<Longrightarrow> from_utf8_lossy bs = bs"
proof (induction bs rule: utf8_valid.induct)
  case (1 bs)
  show ?case
  proof (cases "bs = []")
    case True
    then show ?thesis by (simp add: from_utf8_lossy.simps)
  next
    case False
    with "1.prems" obtain n where "utf8_head bs = Inr n" "utf8_valid (drop n bs)"
      by (subst (asm) utf8_valid.simps) (auto split: sum.splits)
    with False "1.IH" show ?thesis by (simp add: from_utf8_lossy.simps [of bs])
  qed
qed

end
