(* ===== verification/Resp_Reply.thy ===== *)
theory Resp_Reply
  imports Resp_Command Utf8
begin

text \<open>
  The reply side of \<open>kevy-resp\<close>: the \<open>Reply\<close> tree (\<open>reply.rs\<close>) and its recursive-descent
  parser (\<open>reply_parse.rs\<close>), RESP2 and RESP3. The floating-point type is a parameter
  \<open>'f\<close> and so is the text-to-float conversion \<open>pf\<close> of the standard library
  (\<open>str::parse::<f64>\<close>); everything else is written out. The collector of double texts
  is threaded as an option: \<open>None\<close> when the caller does not keep them.
\<close>

datatype 'f reply =
    Simple bytes
  | Error bytes
  | Integer int
  | Bulk bytes
  | Nil_reply
  | Array "'f reply list"
  | Map "('f reply \<times> 'f reply) list"
  | Set "'f reply list"
  | Double 'f
  | Boolean bool
  | Verbatim bytes bytes
  | BigNumber bytes
  | Null
  | Push "'f reply list"
  | BlobError bytes

type_synonym double_text = "bytes list option"

text \<open>The result of a parse: the value, the bytes used, the collected texts.\<close>

type_synonym 'a texted = "(parse_error, ('a \<times> nat \<times> double_text) option) result"

section \<open>Leaf replies\<close>

definition reply_line :: "bytes \<Rightarrow> (bytes \<times> nat) option" where
  "reply_line bs = map_option (\<lambda>eol. (slice bs 1 eol, eol + 2)) (find_crlf bs 1)"

definition payload_end :: "bytes \<Rightarrow> nat \<Rightarrow> string \<Rightarrow> (parse_error, unit) result" where
  "payload_end bs data_end what =
     (if slice bs data_end (data_end + 2) = crlf then Ok () else Err (Malformed what))"

definition parse_int_reply :: "bytes \<Rightarrow> double_text \<Rightarrow> 'f reply texted" where
  "parse_int_reply bs dt =
     (case reply_line bs of None \<Rightarrow> Ok None
      | Some (b, used) \<Rightarrow>
        (case parse_int b of None \<Rightarrow> Err (Malformed ''bad integer reply'')
         | Some n \<Rightarrow> Ok (Some (Integer n, used, dt))))"

definition parse_bulk_reply :: "bytes \<Rightarrow> double_text \<Rightarrow> 'f reply texted" where
  "parse_bulk_reply bs dt =
     (case find_crlf bs 1 of None \<Rightarrow> Ok None
      | Some hdr_end \<Rightarrow>
        (case parse_int (slice bs 1 hdr_end) of None \<Rightarrow> Err (Malformed ''bad bulk length'')
         | Some n \<Rightarrow>
           if n < 0 then Ok (Some (Nil_reply, hdr_end + 2, dt))
           else (let data_start = hdr_end + 2; data_end = data_start + nat n in
             if length bs < data_end + 2 then Ok None
             else case payload_end bs data_end ''bulk payload not followed by CRLF'' of
               Inl e \<Rightarrow> Err e
             | Inr _ \<Rightarrow> Ok (Some (Bulk (slice bs data_start data_end), data_end + 2, dt)))))"

definition parse_double_reply :: "(bytes \<Rightarrow> 'f option) \<Rightarrow> bytes \<Rightarrow> double_text \<Rightarrow> 'f reply texted" where
  "parse_double_reply pf bs dt =
     (case reply_line bs of None \<Rightarrow> Ok None
      | Some (b, used) \<Rightarrow>
        if \<not> utf8_valid b then Err (Malformed ''bad double utf8'')
        else (case pf b of None \<Rightarrow> Err (Malformed ''bad double'')
          | Some v \<Rightarrow> Ok (Some (Double v, used, map_option (\<lambda>texts. texts @ [b]) dt))))"

definition parse_boolean_reply :: "bytes \<Rightarrow> double_text \<Rightarrow> 'f reply texted" where
  "parse_boolean_reply bs dt =
     (case reply_line bs of None \<Rightarrow> Ok None
      | Some (b, used) \<Rightarrow>
        if b = [116] then Ok (Some (Boolean True, used, dt))
        else if b = [102] then Ok (Some (Boolean False, used, dt))
        else Err (Malformed ''bad boolean payload''))"

definition parse_verbatim_reply :: "bytes \<Rightarrow> double_text \<Rightarrow> 'f reply texted" where
  "parse_verbatim_reply bs dt =
     (case find_crlf bs 1 of None \<Rightarrow> Ok None
      | Some hdr_end \<Rightarrow>
        (case parse_int (slice bs 1 hdr_end) of None \<Rightarrow> Err (Malformed ''bad verbatim length'')
         | Some n \<Rightarrow>
           if n < 4 then Err (Malformed ''verbatim length < 4 (fmt + ':')'')
           else (let data_start = hdr_end + 2; data_end = data_start + nat n in
             if length bs < data_end + 2 then Ok None
             else case payload_end bs data_end ''verbatim payload not followed by CRLF'' of
               Inl e \<Rightarrow> Err e
             | Inr _ \<Rightarrow>
               (let body = slice bs data_start data_end in
                if body ! 3 \<noteq> 58 then Err (Malformed ''verbatim missing fmt:data separator'')
                else Ok (Some (Verbatim (take 3 body) (drop 4 body), data_end + 2, dt))))))"

definition parse_null_reply :: "bytes \<Rightarrow> double_text \<Rightarrow> 'f reply texted" where
  "parse_null_reply bs dt =
     (if length bs < 3 then Ok None
      else if take 3 bs \<noteq> [95, 13, 10] then Err (Malformed ''bad null payload'')
      else Ok (Some (Null, 3, dt)))"

definition parse_blob_error_reply :: "bytes \<Rightarrow> double_text \<Rightarrow> 'f reply texted" where
  "parse_blob_error_reply bs dt =
     (case find_crlf bs 1 of None \<Rightarrow> Ok None
      | Some hdr_end \<Rightarrow>
        (case parse_int (slice bs 1 hdr_end) of None \<Rightarrow> Err (Malformed ''bad blob error length'')
         | Some n \<Rightarrow>
           if n < 0 then Err (Malformed ''blob error length cannot be negative'')
           else (let data_start = hdr_end + 2; data_end = data_start + nat n in
             if length bs < data_end + 2 then Ok None
             else case payload_end bs data_end ''blob error payload not followed by CRLF'' of
               Inl e \<Rightarrow> Err e
             | Inr _ \<Rightarrow> Ok (Some (BlobError (slice bs data_start data_end), data_end + 2, dt)))))"

section \<open>Aggregates\<close>

text \<open>
  The header of an aggregate: its count and the offset of the first item. A negative count
  is left to the caller.
\<close>

definition aggregate_header :: "bytes \<Rightarrow> string \<Rightarrow> (parse_error, (int \<times> nat) option) result" where
  "aggregate_header bs what =
     (case find_crlf bs 1 of None \<Rightarrow> Ok None
      | Some hdr_end \<Rightarrow>
        (case parse_int (slice bs 1 hdr_end) of None \<Rightarrow> Err (Malformed what)
         | Some count \<Rightarrow> Ok (Some (count, hdr_end + 2))))"

lemma aggregate_header_pos [dest]:
  "aggregate_header bs what = Ok (Some (c, pos)) \<Longrightarrow> 3 \<le> pos \<and> pos \<le> length bs"
  by (auto simp: aggregate_header_def split: option.splits dest: find_crlf_bounds)

function parse_with :: "(bytes \<Rightarrow> 'f option) \<Rightarrow> bytes \<Rightarrow> double_text \<Rightarrow> 'f reply texted"
  and parse_items :: "(bytes \<Rightarrow> 'f option) \<Rightarrow> nat \<Rightarrow> bytes \<Rightarrow> double_text \<Rightarrow> 'f reply list texted"
  and parse_pairs :: "(bytes \<Rightarrow> 'f option) \<Rightarrow> nat \<Rightarrow> bytes \<Rightarrow> double_text \<Rightarrow> ('f reply \<times> 'f reply) list texted"
  and parse_array_reply :: "(bytes \<Rightarrow> 'f option) \<Rightarrow> bool \<Rightarrow> bytes \<Rightarrow> double_text \<Rightarrow> 'f reply texted"
  and parse_map_reply :: "(bytes \<Rightarrow> 'f option) \<Rightarrow> bytes \<Rightarrow> double_text \<Rightarrow> ('f reply \<times> 'f reply) list texted"
  and parse_set_reply :: "(bytes \<Rightarrow> 'f option) \<Rightarrow> bytes \<Rightarrow> double_text \<Rightarrow> 'f reply texted"
  and parse_attributed_reply :: "(bytes \<Rightarrow> 'f option) \<Rightarrow> bytes \<Rightarrow> double_text \<Rightarrow> 'f reply texted"
where
  "parse_with pf bs dt =
     (case bs of [] \<Rightarrow> Ok None
      | tag # _ \<Rightarrow>
        if tag = 43 then Ok (map_option (\<lambda>(b, used). (Simple b, used, dt)) (reply_line bs))
        else if tag = 45 then Ok (map_option (\<lambda>(b, used). (Error b, used, dt)) (reply_line bs))
        else if tag = 58 then parse_int_reply bs dt
        else if tag = 36 then parse_bulk_reply bs dt
        else if tag = 42 then parse_array_reply pf False bs dt
        else if tag = 37 then
          (case parse_map_reply pf bs dt of Inl e \<Rightarrow> Err e | Inr None \<Rightarrow> Ok None
           | Inr (Some (pairs, used, dt')) \<Rightarrow> Ok (Some (Map pairs, used, dt')))
        else if tag = 126 then parse_set_reply pf bs dt
        else if tag = 44 then parse_double_reply pf bs dt
        else if tag = 35 then parse_boolean_reply bs dt
        else if tag = 61 then parse_verbatim_reply bs dt
        else if tag = 40 then Ok (map_option (\<lambda>(b, used). (BigNumber b, used, dt)) (reply_line bs))
        else if tag = 95 then parse_null_reply bs dt
        else if tag = 62 then parse_array_reply pf True bs dt
        else if tag = 33 then parse_blob_error_reply bs dt
        else if tag = 124 then parse_attributed_reply pf bs dt
        else Err (Malformed ''unknown reply type''))"
| "parse_items pf 0 rest dt = Ok (Some ([], 0, dt))"
| "parse_items pf (Suc n) rest dt =
     (case parse_with pf rest dt of Inl e \<Rightarrow> Err e | Inr None \<Rightarrow> Ok None
      | Inr (Some (r, used, dt')) \<Rightarrow>
        (case parse_items pf n (drop used rest) dt' of Inl e \<Rightarrow> Err e | Inr None \<Rightarrow> Ok None
         | Inr (Some (items, more_used, dt'')) \<Rightarrow> Ok (Some (r # items, used + more_used, dt''))))"
| "parse_pairs pf 0 rest dt = Ok (Some ([], 0, dt))"
| "parse_pairs pf (Suc n) rest dt =
     (case parse_with pf rest dt of Inl e \<Rightarrow> Err e | Inr None \<Rightarrow> Ok None
      | Inr (Some (k, used_k, dt1)) \<Rightarrow>
        (case parse_with pf (drop used_k rest) dt1 of Inl e \<Rightarrow> Err e | Inr None \<Rightarrow> Ok None
         | Inr (Some (v, used_v, dt2)) \<Rightarrow>
           (case parse_pairs pf n (drop (used_k + used_v) rest) dt2 of Inl e \<Rightarrow> Err e | Inr None \<Rightarrow> Ok None
            | Inr (Some (pairs, more_used, dt3)) \<Rightarrow>
              Ok (Some ((k, v) # pairs, used_k + used_v + more_used, dt3)))))"
| "parse_array_reply pf push bs dt =
     (case aggregate_header bs ''bad array length'' of Inl e \<Rightarrow> Err e | Inr None \<Rightarrow> Ok None
      | Inr (Some (count, pos)) \<Rightarrow>
        if count < 0 then
          (if push then Err (Malformed ''push frame cannot be null'') else Ok (Some (Nil_reply, pos, dt)))
        else (case parse_items pf (nat count) (drop pos bs) dt of Inl e \<Rightarrow> Err e | Inr None \<Rightarrow> Ok None
          | Inr (Some (items, used, dt')) \<Rightarrow>
            Ok (Some (if push then Push items else Array items, pos + used, dt'))))"
| "parse_map_reply pf bs dt =
     (case aggregate_header bs ''bad map length'' of Inl e \<Rightarrow> Err e | Inr None \<Rightarrow> Ok None
      | Inr (Some (count, pos)) \<Rightarrow>
        if count < 0 then Err (Malformed ''map length cannot be negative'')
        else (case parse_pairs pf (nat count) (drop pos bs) dt of Inl e \<Rightarrow> Err e | Inr None \<Rightarrow> Ok None
          | Inr (Some (pairs, used, dt')) \<Rightarrow> Ok (Some (pairs, pos + used, dt'))))"
| "parse_set_reply pf bs dt =
     (case aggregate_header bs ''bad set length'' of Inl e \<Rightarrow> Err e | Inr None \<Rightarrow> Ok None
      | Inr (Some (count, pos)) \<Rightarrow>
        if count < 0 then Err (Malformed ''set length cannot be negative'')
        else (case parse_items pf (nat count) (drop pos bs) dt of Inl e \<Rightarrow> Err e | Inr None \<Rightarrow> Ok None
          | Inr (Some (items, used, dt')) \<Rightarrow> Ok (Some (Set items, pos + used, dt'))))"
| "parse_attributed_reply pf bs dt =
     (case aggregate_header bs ''bad map length'' of Inl e \<Rightarrow> Err e | Inr None \<Rightarrow> Ok None
      | Inr (Some (count, pos)) \<Rightarrow>
        if count < 0 then Err (Malformed ''map length cannot be negative'')
        else (case parse_pairs pf (nat count) (drop pos bs) dt of Inl e \<Rightarrow> Err e | Inr None \<Rightarrow> Ok None
          | Inr (Some (_, used, dt')) \<Rightarrow>
            (let used_attrs = pos + used in
             case parse_with pf (drop used_attrs bs) dt' of Inl e \<Rightarrow> Err e | Inr None \<Rightarrow> Ok None
             | Inr (Some (r, used', dt'')) \<Rightarrow> Ok (Some (r, used_attrs + used', dt'')))))"
  by pat_completeness auto
termination
  by (relation "measures [\<lambda>x. case x of
        Inl (Inl (pf, bs, dt)) \<Rightarrow> length bs | Inl (Inr (Inl (pf, n, bs, dt))) \<Rightarrow> length bs
      | Inl (Inr (Inr (pf, n, bs, dt))) \<Rightarrow> length bs | Inr (Inl (Inl (pf, p, bs, dt))) \<Rightarrow> length bs
      | Inr (Inl (Inr (pf, bs, dt))) \<Rightarrow> length bs | Inr (Inr (Inl (pf, bs, dt))) \<Rightarrow> length bs
      | Inr (Inr (Inr (pf, bs, dt))) \<Rightarrow> length bs,
     \<lambda>x. case x of
        Inl (Inl (pf, bs, dt)) \<Rightarrow> 1 | Inl (Inr (Inl (pf, n, bs, dt))) \<Rightarrow> n + 2
      | Inl (Inr (Inr (pf, n, bs, dt))) \<Rightarrow> n + 2 | _ \<Rightarrow> 0]")
    (auto dest!: aggregate_header_pos)

declare parse_with.simps [simp del] parse_array_reply.simps [simp del] parse_map_reply.simps [simp del]
  parse_set_reply.simps [simp del] parse_attributed_reply.simps [simp del]

end
