(* ===== verification/Resp_Reply_Laws.thy ===== *)
theory Resp_Reply_Laws
  imports Resp_Reply
begin

text \<open>
  What holds of the reply parser: decisions are final under more input and stay inside
  the buffer, and replies written with the encoders are read back, with the texts of their
  doubles in order.
\<close>

definition parse_reply :: "(bytes \<Rightarrow> 'f option) \<Rightarrow> bytes \<Rightarrow> 'f reply parsed" where
  "parse_reply pf bs =
     (case parse_with pf bs None of Inl e \<Rightarrow> Err e | Inr None \<Rightarrow> Ok None
      | Inr (Some (r, used, _)) \<Rightarrow> Ok (Some (r, used)))"

definition parse_reply_keeping_double_text ::
  "(bytes \<Rightarrow> 'f option) \<Rightarrow> bytes \<Rightarrow> (parse_error, ('f reply \<times> nat \<times> bytes list) option) result" where
  "parse_reply_keeping_double_text pf bs =
     (case parse_with pf bs (Some []) of Inl e \<Rightarrow> Err e | Inr None \<Rightarrow> Ok None
      | Inr (Some (r, used, texts)) \<Rightarrow> Ok (Some (r, used, the texts)))"

section \<open>Decisions are final\<close>

text \<open>
  A parser is stable at a buffer when neither a value nor an error it gives there changes
  as bytes are appended, and the value lies within the buffer.
\<close>

definition stable_at :: "(bytes \<Rightarrow> double_text \<Rightarrow> 'a texted) \<Rightarrow> bytes \<Rightarrow> bool" where
  "stable_at p bs \<longleftrightarrow>
     (\<forall>dt r u dt'. p bs dt = Ok (Some (r, u, dt')) \<longrightarrow>
        u \<le> length bs \<and> (\<forall>ms. p (bs @ ms) dt = Ok (Some (r, u, dt')))) \<and>
     (\<forall>dt e. p bs dt = Err e \<longrightarrow> (\<forall>ms. p (bs @ ms) dt = Err e))"

lemma stableI:
  assumes "\<And>dt r u dt'. p bs dt = Ok (Some (r, u, dt')) \<Longrightarrow> u \<le> length bs"
    and "\<And>dt r u dt' ms. p bs dt = Ok (Some (r, u, dt')) \<Longrightarrow> p (bs @ ms) dt = Ok (Some (r, u, dt'))"
    and "\<And>dt e ms. p bs dt = Err e \<Longrightarrow> p (bs @ ms) dt = Err e"
  shows "stable_at p bs"
  using assms by (auto simp: stable_at_def)

lemma stable_Ok:
  assumes "stable_at p bs" "p bs dt = Ok (Some (r, u, dt'))"
  shows "u \<le> length bs" "p (bs @ ms) dt = Ok (Some (r, u, dt'))"
  using assms by (simp_all add: stable_at_def)

lemma stable_Err: "stable_at p bs \<Longrightarrow> p bs dt = Err e \<Longrightarrow> p (bs @ ms) dt = Err e"
  by (simp add: stable_at_def)

text \<open>
  A leaf reply has a header line and then, when the header says so, a payload: its result
  is a function of the line, and of the buffer once the payload has arrived.
\<close>

lemma line_append: "find_crlf bs 1 = Some e \<Longrightarrow> reply_line (bs @ ms) = reply_line bs"
  by (simp add: reply_line_def find_crlf_append slice_find_crlf del: slice_append_left)

lemma stable_line:
  assumes "\<And>bs dt. p bs dt = (case reply_line bs of None \<Rightarrow> Ok None | Some (b, used) \<Rightarrow> f b used dt)"
    and "\<And>b used dt r u dt'. f b used dt = Ok (Some (r, u, dt')) \<Longrightarrow> u = used"
  shows "stable_at p bs"
proof (cases "find_crlf bs 1")
  case None
  then show ?thesis by (simp add: stable_at_def assms(1) reply_line_def)
next
  case (Some e)
  show ?thesis
  proof (rule stableI)
    fix dt r u dt' ms
    assume "p bs dt = Ok (Some (r, u, dt'))"
    moreover from this have "u = e + 2"
      using Some assms(2) by (auto simp: assms(1) reply_line_def)
    ultimately show "u \<le> length bs" "p (bs @ ms) dt = Ok (Some (r, u, dt'))"
      using find_crlf_bounds [OF Some] line_append [OF Some] by (simp_all add: assms(1))
  next
    fix dt e' ms
    assume "p bs dt = Err e'"
    then show "p (bs @ ms) dt = Err e'"
      using line_append [OF Some] by (simp add: assms(1))
  qed
qed

lemma stable_payload:
  assumes "\<And>bs dt. p bs dt =
      (case find_crlf bs 1 of None \<Rightarrow> Ok None
       | Some h \<Rightarrow> (case parse_int (slice bs 1 h) of None \<Rightarrow> Err e0
         | Some n \<Rightarrow> if n < k then (if g then Err e1 else Ok (Some (nil, h + 2, dt)))
           else if length bs < h + 2 + nat n + 2 then Ok None
           else if slice bs (h + 2 + nat n) (h + 2 + nat n + 2) = crlf
             then f (slice bs (h + 2) (h + 2 + nat n)) (h + 2 + nat n + 2) dt else Err e2))"
    and "\<And>b u dt r u' dt'. f b u dt = Ok (Some (r, u', dt')) \<Longrightarrow> u' = u"
  shows "stable_at p bs"
proof (cases "find_crlf bs 1")
  case None
  then show ?thesis by (simp add: stable_at_def assms(1))
next
  case (Some h)
  note app = find_crlf_append [OF Some] slice_find_crlf [OF Some]
  show ?thesis
  proof (cases "parse_int (slice bs 1 h)")
    case None
    then show ?thesis using Some app by (simp add: stable_at_def assms(1) del: slice_append_left)
  next
    case n: (Some n)
    then have eq: "p (bs @ ms) dt = p bs dt" if "n < k \<or> h + 2 + nat n + 2 \<le> length bs" for ms dt
      using that Some app by (auto simp: assms(1))
    show ?thesis
    proof (cases "n < k \<or> h + 2 + nat n + 2 \<le> length bs")
      case True
      have "u \<le> length bs" if "p bs dt = Ok (Some (r, u, dt'))" for dt r u dt'
        using that True Some n find_crlf_bounds [OF Some]
        by (auto simp: assms(1) split: if_splits dest!: assms(2))
      with eq [OF True] show ?thesis by (intro stableI) simp_all
    next
      case False
      then show ?thesis using Some n by (simp add: stable_at_def assms(1))
    qed
  qed
qed

lemma stable_leaves:
  "stable_at parse_int_reply bs" "stable_at parse_bulk_reply bs" "stable_at (parse_double_reply pf) bs"
  "stable_at parse_boolean_reply bs" "stable_at parse_verbatim_reply bs" "stable_at parse_blob_error_reply bs"
  "stable_at parse_null_reply bs"
  "stable_at (\<lambda>bs dt. Ok (map_option (\<lambda>(b, used). (C b, used, dt)) (reply_line bs))) bs"
proof -
  show "stable_at parse_int_reply bs"
    by (rule stable_line [OF parse_int_reply_def]) (auto split: option.splits)
  show "stable_at (parse_double_reply pf) bs"
    by (rule stable_line [OF parse_double_reply_def]) (auto split: option.splits if_splits)
  show "stable_at parse_boolean_reply bs"
    by (rule stable_line [OF parse_boolean_reply_def]) (auto split: if_splits)
  show "stable_at (\<lambda>bs dt. Ok (map_option (\<lambda>(b, used). (C b, used, dt)) (reply_line bs))) bs"
    by (rule stable_line [where f = "\<lambda>b used dt. Ok (Some (C b, used, dt))"]) (auto split: option.splits)
  show "stable_at parse_bulk_reply bs"
    by (rule stable_payload [where k = 0 and g = False and nil = Nil_reply
          and f = "\<lambda>b u dt. Ok (Some (Bulk b, u, dt))"])
      (auto simp: parse_bulk_reply_def payload_end_def Let_def split: option.splits)
  show "stable_at parse_verbatim_reply bs"
    by (rule stable_payload [where k = 4 and g = True
          and f = "\<lambda>b u dt. if b ! 3 \<noteq> 58 then Err (Malformed ''verbatim missing fmt:data separator'')
            else Ok (Some (Verbatim (take 3 b) (drop 4 b), u, dt))"])
      (auto simp: parse_verbatim_reply_def payload_end_def Let_def split: option.splits if_splits)
  show "stable_at parse_blob_error_reply bs"
    by (rule stable_payload [where k = 0 and g = True and f = "\<lambda>b u dt. Ok (Some (BlobError b, u, dt))"])
      (auto simp: parse_blob_error_reply_def payload_end_def Let_def split: option.splits)
  show "stable_at parse_null_reply bs"
    by (auto simp: stable_at_def parse_null_reply_def split: if_splits)
qed


lemma header_append:
  "aggregate_header bs w = Ok (Some r) \<Longrightarrow> aggregate_header (bs @ ms) w = Ok (Some r)"
  "aggregate_header bs w = Err e \<Longrightarrow> aggregate_header (bs @ ms) w = Err e"
  by (auto simp: aggregate_header_def find_crlf_append slice_find_crlf simp del: slice_append_left
      split: option.splits)

text \<open>Sequencing: a stable parser, then a parser stable on what is left.\<close>

definition and_then ::
  "'a texted \<Rightarrow> ('a \<Rightarrow> nat \<Rightarrow> double_text \<Rightarrow> 'b texted) \<Rightarrow> 'b texted" where
  "and_then p f = (case p of Inl e \<Rightarrow> Err e | Inr None \<Rightarrow> Ok None | Inr (Some (a, u, dt)) \<Rightarrow> f a u dt)"

lemma stable_then:
  assumes "\<And>bs dt. p bs dt = and_then (q bs dt) (\<lambda>a u dt. and_then (q' a u (drop u bs) dt) (\<lambda>b u' dt. Ok (Some (c a b, u + u', dt))))"
    and "stable_at q bs" and "\<And>a u. u \<le> length bs \<Longrightarrow> stable_at (q' a u) (drop u bs)"
  shows "stable_at p bs"
proof (rule stableI)
  fix dt r u dt' ms
  assume "p bs dt = Ok (Some (r, u, dt'))"
  then obtain a v dt1 b w where q: "q bs dt = Ok (Some (a, v, dt1))"
    and q': "q' a v (drop v bs) dt1 = Ok (Some (b, w, dt'))" and r: "r = c a b" "u = v + w"
    by (auto simp: assms(1) and_then_def split: sum.splits option.splits)
  note s = stable_Ok [OF assms(2) q] and s' = stable_Ok [OF assms(3) q']
  from s s' r show "u \<le> length bs" by simp
  from s s' r show "p (bs @ ms) dt = Ok (Some (r, u, dt'))"
    by (simp add: assms(1) and_then_def)
next
  fix dt e ms
  assume p: "p bs dt = Err e"
  show "p (bs @ ms) dt = Err e"
  proof (cases "q bs dt = Err e")
    case True
    with stable_Err [OF assms(2)] show ?thesis by (simp add: assms(1) and_then_def)
  next
    case False
    with p obtain a v dt1 where q: "q bs dt = Ok (Some (a, v, dt1))" and q': "q' a v (drop v bs) dt1 = Err e"
      by (auto simp: assms(1) and_then_def split: sum.splits option.splits)
    with stable_Ok [OF assms(2) q] stable_Err [OF assms(3) q'] show ?thesis
      by (simp add: assms(1) and_then_def)
  qed
qed

lemma stable_items:
  assumes "\<And>u. u \<le> length bs \<Longrightarrow> stable_at (parse_with pf) (drop u bs)"
  shows "stable_at (parse_items pf n) bs"
  using assms
proof (induction n arbitrary: bs)
  case 0
  then show ?case by (simp add: stable_at_def)
next
  case (Suc n)
  have "stable_at (parse_items pf n) (drop u bs)" if "u \<le> length bs" for u
    using that by (intro Suc.IH) (auto simp: add.commute intro!: Suc.prems)
  note rest = this
  show ?case
  proof (rule stable_then [where q = "parse_with pf" and q' = "\<lambda>a u. parse_items pf n" and c = "\<lambda>a b. a # b"])
    show "stable_at (parse_with pf) bs" using Suc.prems [of 0] by simp
  qed (simp_all add: rest and_then_def split: sum.splits option.splits)
qed

lemma stable_pairs:
  assumes "\<And>u. u \<le> length bs \<Longrightarrow> stable_at (parse_with pf) (drop u bs)"
  shows "stable_at (parse_pairs pf n) bs"
  using assms
proof (induction n arbitrary: bs)
  case 0
  then show ?case by (simp add: stable_at_def)
next
  case (Suc n)
  let ?rest = "\<lambda>bs dt. and_then (parse_with pf bs dt) (\<lambda>v u dt. and_then (parse_pairs pf n (drop u bs) dt)
    (\<lambda>ps u' dt. Ok (Some ((v, ps), u + u', dt))))"
  have tail: "stable_at (parse_pairs pf n) (drop u bs)" if "u \<le> length bs" for u
    using that by (intro Suc.IH) (auto simp: add.commute intro!: Suc.prems)
  have rest: "stable_at ?rest (drop u bs)" if u: "u \<le> length bs" for u
  proof (rule stable_then [where q = "parse_with pf" and q' = "\<lambda>a u. parse_pairs pf n" and c = Pair])
    show "stable_at (parse_with pf) (drop u bs)" using u by (rule Suc.prems)
    show "stable_at (parse_pairs pf n) (drop v (drop u bs))" if "v \<le> length (drop u bs)" for v
      using that u tail [of "u + v"] by (simp add: add.commute)
  qed simp
  show ?case
  proof (rule stable_then [where q = "parse_with pf" and q' = "\<lambda>a u. ?rest" and c = "\<lambda>k (v, ps). (k, v) # ps"])
    show "stable_at (parse_with pf) bs" using Suc.prems [of 0] by simp
    show "stable_at ?rest (drop u bs)" if "u \<le> length bs" for u using that by (rule rest)
  qed (simp add: and_then_def add.commute split: sum.splits option.splits)
qed

text \<open>An aggregate: the header, then what it announces.\<close>

definition header_then ::
  "string \<Rightarrow> (int \<Rightarrow> bytes \<Rightarrow> double_text \<Rightarrow> 'a texted) \<Rightarrow> (int \<Rightarrow> 'a \<Rightarrow> 'b) \<Rightarrow> bytes \<Rightarrow> double_text \<Rightarrow> 'b texted" where
  "header_then w body c bs dt =
     (case aggregate_header bs w of Inl e \<Rightarrow> Err e | Inr None \<Rightarrow> Ok None
      | Inr (Some (count, pos)) \<Rightarrow>
        and_then (body count (drop pos bs) dt) (\<lambda>items u dt. Ok (Some (c count items, pos + u, dt))))"

lemma stable_header_then:
  assumes "\<And>count pos. 0 < pos \<Longrightarrow> pos \<le> length bs \<Longrightarrow> stable_at (body count) (drop pos bs)"
  shows "stable_at (header_then w body c) bs"
proof -
  let ?q = "\<lambda>bs dt. case aggregate_header bs w of Inl e \<Rightarrow> Err e | Inr None \<Rightarrow> Ok None
      | Inr (Some (count, pos)) \<Rightarrow> Ok (Some (count, pos, dt))"
  let ?body = "\<lambda>count pos. if pos = 0 then (\<lambda>_ _. Ok None) else body count"
  show ?thesis
  proof (rule stable_then [where q = ?q and q' = ?body and c = c])
    show "stable_at ?q bs"
      by (rule stableI) (auto simp: header_append split: sum.splits option.splits dest!: aggregate_header_pos)
    show "stable_at (?body count pos) (drop pos bs)" if "pos \<le> length bs" for count pos
      using that assms [of pos count] by (auto simp: stable_at_def)
    show "header_then w body c bs dt = and_then (?q bs dt) (\<lambda>a u dt. and_then (?body a u (drop u bs) dt)
        (\<lambda>b u' dt. Ok (Some (c a b, u + u', dt))))" for bs dt
      by (auto simp: header_then_def and_then_def split: sum.splits option.splits dest: aggregate_header_pos)
  qed
qed

lemma parse_array_reply_eq:
  "parse_array_reply pf push = header_then ''bad array length''
     (\<lambda>count. if count < 0 then (\<lambda>_ dt. if push then Err (Malformed ''push frame cannot be null'') else Ok (Some ([], 0, dt)))
        else parse_items pf (nat count))
     (\<lambda>count items. if count < 0 then Nil_reply else if push then Push items else Array items)"
  by (intro ext) (auto simp: parse_array_reply.simps header_then_def and_then_def split: sum.splits option.splits)

lemma parse_map_reply_eq:
  "parse_map_reply pf = header_then ''bad map length''
     (\<lambda>count. if count < 0 then (\<lambda>_ dt. Err (Malformed ''map length cannot be negative'')) else parse_pairs pf (nat count))
     (\<lambda>count pairs. pairs)"
  by (intro ext) (auto simp: parse_map_reply.simps header_then_def and_then_def split: sum.splits option.splits)

lemma parse_set_reply_eq:
  "parse_set_reply pf = header_then ''bad set length''
     (\<lambda>count. if count < 0 then (\<lambda>_ dt. Err (Malformed ''set length cannot be negative'')) else parse_items pf (nat count))
     (\<lambda>count items. Set items)"
  by (intro ext) (auto simp: parse_set_reply.simps header_then_def and_then_def split: sum.splits option.splits)

text \<open>An attribute frame is a map, dropped, and then the reply.\<close>

lemma parse_attributed_reply_eq:
  "parse_attributed_reply pf bs dt =
     and_then (parse_map_reply pf bs dt) (\<lambda>_ u dt. and_then (parse_with pf (drop u bs) dt)
       (\<lambda>r u' dt. Ok (Some (r, u + u', dt))))"
  by (auto simp: parse_attributed_reply.simps parse_map_reply.simps and_then_def Let_def
      split: sum.splits option.splits)

lemma parse_map_reply_used: "parse_map_reply pf bs dt = Ok (Some (ps, u, dt')) \<Longrightarrow> 3 \<le> u"
  by (auto simp: parse_map_reply.simps split: sum.splits option.splits if_splits dest!: aggregate_header_pos)

lemma stable_cong:
  assumes "\<And>ms dt. p (bs @ ms) dt = q (bs @ ms) dt" "stable_at q bs"
  shows "stable_at p bs"
  using assms(2) assms(1) [of "[]"] by (simp add: stable_at_def assms(1))

lemma stable_if:
  assumes "stable_at p bs" "stable_at q bs"
  shows "stable_at (\<lambda>bs dt. if c then p bs dt else q bs dt) bs"
  using assms by (cases c) simp_all

lemma stable_map_result:
  assumes "\<And>bs dt. p bs dt = and_then (q bs dt) (\<lambda>a u dt. Ok (Some (c a, u, dt)))" "stable_at q bs"
  shows "stable_at p bs"
proof (rule stableI)
  fix dt r u dt' ms
  assume "p bs dt = Ok (Some (r, u, dt'))"
  then obtain a where q: "q bs dt = Ok (Some (a, u, dt'))" "r = c a"
    by (auto simp: assms(1) and_then_def split: sum.splits option.splits)
  with stable_Ok [OF assms(2) q(1)] show "u \<le> length bs" "p (bs @ ms) dt = Ok (Some (r, u, dt'))"
    by (simp_all add: assms(1) and_then_def)
next
  fix dt e ms
  assume "p bs dt = Err e"
  then have "q bs dt = Err e"
    by (auto simp: assms(1) and_then_def split: sum.splits option.splits)
  with stable_Err [OF assms(2)] show "p (bs @ ms) dt = Err e"
    by (simp add: assms(1) and_then_def)
qed

lemma stable_aggregates:
  assumes "\<And>bs'. length bs' < length bs \<Longrightarrow> stable_at (parse_with pf) bs'"
  shows "stable_at (parse_array_reply pf push) bs" "stable_at (parse_map_reply pf) bs"
    "stable_at (parse_set_reply pf) bs" "stable_at (parse_attributed_reply pf) bs"
proof -
  have items: "stable_at (parse_items pf n) (drop pos bs)" "stable_at (parse_pairs pf n) (drop pos bs)"
    if "0 < pos" "pos \<le> length bs" for pos n
    using that by (auto intro!: stable_items stable_pairs assms)
  show "stable_at (parse_array_reply pf push) bs"
    unfolding parse_array_reply_eq by (rule stable_header_then) (auto simp: items, auto simp: stable_at_def)
  show "stable_at (parse_set_reply pf) bs"
    unfolding parse_set_reply_eq by (rule stable_header_then) (auto simp: items, auto simp: stable_at_def)
  show m: "stable_at (parse_map_reply pf) bs"
    unfolding parse_map_reply_eq by (rule stable_header_then) (auto simp: items, auto simp: stable_at_def)
  let ?next = "\<lambda>u. if u = 0 then (\<lambda>_ _. Ok None) else parse_with pf"
  show "stable_at (parse_attributed_reply pf) bs"
  proof (rule stable_then [where q = "parse_map_reply pf" and q' = "\<lambda>_. ?next" and c = "\<lambda>_ r. r"])
    show "parse_attributed_reply pf bs dt = and_then (parse_map_reply pf bs dt)
      (\<lambda>a u dt. and_then (?next u (drop u bs) dt) (\<lambda>b u' dt. Ok (Some (b, u + u', dt))))" for bs dt
      unfolding parse_attributed_reply_eq
      by (auto simp: and_then_def split: sum.splits option.splits dest!: parse_map_reply_used)
    show "stable_at (?next u) (drop u bs)" if "u \<le> length bs" for u
      using that assms [of "drop u bs"] by (auto simp: stable_at_def)
  qed (rule m)
qed

lemma stable_parse_with: "stable_at (parse_with pf) bs"
proof (induction "length bs" arbitrary: bs rule: less_induct)
  case less
  note agg = stable_aggregates [of bs pf, OF less]
  let ?map = "\<lambda>bs dt. and_then (parse_map_reply pf bs dt) (\<lambda>ps u dt. Ok (Some (Map ps, u, dt)))"
  have map: "stable_at ?map bs"
    by (rule stable_map_result [OF refl agg(2)]) simp_all
  show ?case
  proof (cases bs)
    case Nil
    then show ?thesis by (simp add: stable_at_def parse_with.simps)
  next
    case (Cons tag r)
    let ?line = "\<lambda>C bs dt. Ok (map_option (\<lambda>(b, used). (C b, used, dt)) (reply_line bs))"
    define q where "q = (\<lambda>bs dt. if tag = 43 then ?line Simple bs dt else if tag = 45 then ?line Error bs dt
      else if tag = 58 then parse_int_reply bs dt else if tag = 36 then parse_bulk_reply bs dt
      else if tag = 42 then parse_array_reply pf False bs dt else if tag = 37 then ?map bs dt
      else if tag = 126 then parse_set_reply pf bs dt else if tag = 44 then parse_double_reply pf bs dt
      else if tag = 35 then parse_boolean_reply bs dt else if tag = 61 then parse_verbatim_reply bs dt
      else if tag = 40 then ?line BigNumber bs dt else if tag = 95 then parse_null_reply bs dt
      else if tag = 62 then parse_array_reply pf True bs dt else if tag = 33 then parse_blob_error_reply bs dt
      else if tag = 124 then parse_attributed_reply pf bs dt
      else Err (Malformed ''unknown reply type''))"
    have err: "stable_at (\<lambda>_ _. Err e) bs" for e :: parse_error by (simp add: stable_at_def)
    have "stable_at q bs"
      unfolding q_def by (intro stable_if stable_leaves agg map err)
    moreover have "parse_with pf (bs @ ms) dt = q (bs @ ms) dt" for ms dt
      unfolding Cons append_Cons q_def parse_with.simps [of pf "tag # _"] list.case and_then_def by (rule refl)
    ultimately show ?thesis by (rule stable_cong [rotated])
  qed
qed

section \<open>Reading back what was written\<close>

text \<open>
  A reply written with the encoders of \<open>reply_encode.rs\<close> and \<open>reply_encode_resp3.rs\<close>;
  \<open>tx\<close> gives the text of a double. \<open>double_texts\<close> are the texts of its doubles, in order.
\<close>

fun encode_reply :: "('f \<Rightarrow> bytes) \<Rightarrow> 'f reply \<Rightarrow> bytes" where
  "encode_reply tx (Simple b) = encode_simple_string [] b"
| "encode_reply tx (Error b) = encode_error [] b"
| "encode_reply tx (Integer n) = encode_integer [] n"
| "encode_reply tx (Bulk b) = encode_bulk [] b"
| "encode_reply tx Nil_reply = encode_null_bulk []"
| "encode_reply tx (Array rs) = encode_array_len [] (int (length rs)) @ concat (map (encode_reply tx) rs)"
| "encode_reply tx (Map ps) =
     encode_map_header [] (int (length ps)) @ concat (map (\<lambda>(k, v). encode_reply tx k @ encode_reply tx v) ps)"
| "encode_reply tx (Set rs) = encode_set_header [] (int (length rs)) @ concat (map (encode_reply tx) rs)"
| "encode_reply tx (Double v) = (44 # tx v) @ crlf"
| "encode_reply tx (Boolean v) = encode_boolean [] v"
| "encode_reply tx (Verbatim fmt b) = encode_verbatim [] fmt b"
| "encode_reply tx (BigNumber b) = encode_big_number [] b"
| "encode_reply tx Null = encode_null []"
| "encode_reply tx (Push rs) = encode_push_header [] (int (length rs)) @ concat (map (encode_reply tx) rs)"
| "encode_reply tx (BlobError b) = encode_blob_error [] b"

fun double_texts :: "('f \<Rightarrow> bytes) \<Rightarrow> 'f reply \<Rightarrow> bytes list" where
  "double_texts tx (Double v) = [tx v]"
| "double_texts tx (Array rs) = concat (map (double_texts tx) rs)"
| "double_texts tx (Map ps) = concat (map (\<lambda>(k, v). double_texts tx k @ double_texts tx v) ps)"
| "double_texts tx (Set rs) = concat (map (double_texts tx) rs)"
| "double_texts tx (Push rs) = concat (map (double_texts tx) rs)"
| "double_texts tx _ = []"

definition fits_len :: "nat \<Rightarrow> bool" where
  "fits_len n \<longleftrightarrow> int n \<le> i64_max"

text \<open>What the wire format can carry: no CR in a line, lengths within \<open>i64\<close>, a readable double.\<close>

fun readable :: "(bytes \<Rightarrow> 'f option) \<Rightarrow> ('f \<Rightarrow> bytes) \<Rightarrow> 'f reply \<Rightarrow> bool" where
  "readable pf tx (Simple b) = (13 \<notin> set b)"
| "readable pf tx (Error b) = (13 \<notin> set b)"
| "readable pf tx (BigNumber b) = (13 \<notin> set b)"
| "readable pf tx (Integer n) = (in_i64 n \<and> n \<noteq> i64_min)"
| "readable pf tx (Bulk b) = fits_len (length b)"
| "readable pf tx (BlobError b) = fits_len (length b)"
| "readable pf tx (Verbatim fmt b) = (length fmt = 3 \<and> fits_len (4 + length b))"
| "readable pf tx (Array rs) = (fits_len (length rs) \<and> list_all (readable pf tx) rs)"
| "readable pf tx (Set rs) = (fits_len (length rs) \<and> list_all (readable pf tx) rs)"
| "readable pf tx (Push rs) = (fits_len (length rs) \<and> list_all (readable pf tx) rs)"
| "readable pf tx (Map ps) = (fits_len (length ps) \<and> list_all (\<lambda>(k, v). readable pf tx k \<and> readable pf tx v) ps)"
| "readable pf tx (Double v) = (13 \<notin> set (tx v) \<and> utf8_valid (tx v) \<and> pf (tx v) = Some v)"
| "readable pf tx _ = True"

abbreviation collect :: "double_text \<Rightarrow> bytes list \<Rightarrow> double_text" where
  "collect dt ts \<equiv> map_option (\<lambda>t. t @ ts) dt"

text \<open>The value \<open>r\<close> is read off the front of the buffer, whatever follows.\<close>

definition reads :: "(bytes \<Rightarrow> 'f option) \<Rightarrow> ('f \<Rightarrow> bytes) \<Rightarrow> 'f reply \<Rightarrow> bool" where
  "reads pf tx r \<longleftrightarrow> (\<forall>rest dt. parse_with pf (encode_reply tx r @ rest) dt =
     Ok (Some (r, length (encode_reply tx r), collect dt (double_texts tx r))))"

lemma line_read: "13 \<notin> set b \<Longrightarrow> reply_line (tag # b @ 13 # 10 # rest) = Some (b, length b + 3)"
  using find_crlf_line [of b "[tag]" rest] slice_mid [of "[tag]" b "13 # 10 # rest"]
  by (simp add: reply_line_def)

lemma header_read:
  assumes "fits_len n"
  shows "find_crlf (tag # dec_digits n @ 13 # 10 # rest) 1 = Some (1 + length (dec_digits n))"
    "parse_int (slice (tag # dec_digits n @ 13 # 10 # rest) 1 (1 + length (dec_digits n))) = Some (int n)"
    "aggregate_header (tag # dec_digits n @ 13 # 10 # rest) w = Ok (Some (int n, 3 + length (dec_digits n)))"
  using number_line [of n "[tag]" rest] assms by (simp_all add: fits_len_def aggregate_header_def)

lemma parse_int_dec_int:
  assumes "in_i64 n" "n \<noteq> i64_min"
  shows "parse_int (dec_int n) = Some n"
proof (cases "n < 0")
  case True
  then have "int (nat (- n)) \<le> i64_max"
    using assms by (simp add: int_bounds)
  with True show ?thesis
    unfolding parse_int_Some dec_int_def
    by (intro exI [of _ "dec_digits (nat (- n))"] exI [of _ "- n"]) (simp add: parse_int_acc_dec)
next
  case False
  then show ?thesis
    using assms by (simp add: dec_int_def parse_int_dec int_bounds)
qed

lemma payload_read:
  fixes n :: nat and b :: bytes
  assumes "n = length b" "h = 1 + length (dec_digits n)"
  shows "slice (tag # dec_digits n @ 13 # 10 # b @ 13 # 10 # rest) (h + 2) (h + 2 + n) = b"
    "slice (tag # dec_digits n @ 13 # 10 # b @ 13 # 10 # rest) (h + 2 + n) (h + 2 + n + 2) = crlf"
    "h + 2 + n + 2 \<le> length (tag # dec_digits n @ 13 # 10 # b @ 13 # 10 # rest)"
  using slice_mid [of "tag # dec_digits n @ [13, 10]" b "13 # 10 # rest"]
    slice_mid [of "tag # dec_digits n @ [13, 10] @ b" "[13, 10]" rest] assms by (simp_all add: add.assoc)

lemmas encoder_defs = encode_simple_string_def encode_error_def encode_integer_def encode_null_bulk_def
  encode_array_len_def encode_map_header_def encode_set_header_def encode_push_header_def encode_boolean_def
  encode_null_def encode_big_number_def encode_verbatim_def encode_blob_error_def push_int_dec

lemma dec_int_of_nat [simp]: "dec_int (int n) = dec_digits n"
  by (simp add: dec_int_def)

lemma reads_lines:
  "13 \<notin> set b \<Longrightarrow> reads pf tx (Simple b)" "13 \<notin> set b \<Longrightarrow> reads pf tx (Error b)"
  "13 \<notin> set b \<Longrightarrow> reads pf tx (BigNumber b)" "reads pf tx (Boolean v)" "reads pf tx Null"
  "in_i64 n \<Longrightarrow> n \<noteq> i64_min \<Longrightarrow> reads pf tx (Integer n)"
  "readable pf tx (Double d) \<Longrightarrow> reads pf tx (Double d)"
proof -
  assume n: "in_i64 n" "n \<noteq> i64_min"
  have "13 \<notin> set (dec_int n)"
    using parse_int_dec_int [OF n] by (rule parse_int_no_cr)
  with n show "reads pf tx (Integer n)"
    by (simp add: reads_def encoder_defs parse_with.simps parse_int_reply_def line_read parse_int_dec_int option.map_ident)
next
  show "reads pf tx (Boolean v)"
    using line_read [of "[116]"] line_read [of "[102]"]
    by (simp add: reads_def encoder_defs parse_with.simps parse_boolean_reply_def option.map_ident)
qed (simp_all add: reads_def encoder_defs parse_with.simps line_read parse_null_reply_def parse_double_reply_def option.map_ident)

lemma reads_payloads:
  "fits_len (length b) \<Longrightarrow> reads pf tx (Bulk b)" "fits_len (length b) \<Longrightarrow> reads pf tx (BlobError b)"
  "reads pf tx Nil_reply"
  "length fmt = 3 \<Longrightarrow> fits_len (4 + length b) \<Longrightarrow> reads pf tx (Verbatim fmt b)"
proof -
  assume b: "fits_len (length b)"
  note facts = header_read [OF b] payload_read [where b = b, OF refl refl]
  show "reads pf tx (Bulk b)"
    using facts by (simp add: reads_def encode_bulk_frame bulk_frame_def parse_with.simps parse_bulk_reply_def
        payload_end_def Let_def option.map_ident)
  show "reads pf tx (BlobError b)"
    using facts by (simp add: reads_def encoder_defs parse_with.simps parse_blob_error_reply_def
        payload_end_def Let_def option.map_ident)
next
  have "find_crlf (36 # 45 # 49 # 13 # 10 # rest) (Suc 0) = Some 3" for rest
    using find_crlf_line [of "[45, 49]" "[36]" rest] by simp
  moreover have "parse_int (slice (36 # 45 # 49 # 13 # 10 # rest) (Suc 0) 3) = Some (- 1)" for rest :: bytes
    by (simp add: slice_def parse_int_def is_digit_def digit_val_def checked_i64_def int_bounds)
  ultimately show "reads pf tx Nil_reply"
    by (simp add: reads_def encoder_defs parse_with.simps parse_bulk_reply_def option.map_ident)
next
  assume f: "length fmt = 3" and b: "fits_len (4 + length b)"
  let ?body = "fmt @ 58 # b"
  obtain n where n: "n = length ?body" "n = 4 + length b" using f by simp
  have enc: "encode_verbatim [] fmt b = 61 # dec_digits n @ 13 # 10 # ?body @ [13, 10]"
    using dec_int_of_nat [of "4 + length b"] n(2) by (simp add: encode_verbatim_def push_int_dec Let_def)
  have "fits_len n" "\<not> int n < 4" using b n(2) by simp_all
  note facts = header_read [OF this(1)] payload_read [OF n(1) refl] this(2)
  have "?body ! 3 = 58" "take 3 ?body = fmt" "drop 4 ?body = b"
    using f by (simp_all add: nth_append)
  then show "reads pf tx (Verbatim fmt b)"
    using facts by (simp add: reads_def enc parse_with.simps parse_verbatim_reply_def payload_end_def Let_def
        option.map_ident) (simp add: n(2) f)
qed

lemma items_read:
  "list_all (reads pf tx) rs \<Longrightarrow>
     parse_items pf (length rs) (concat (map (encode_reply tx) rs) @ rest) dt =
       Ok (Some (rs, length (concat (map (encode_reply tx) rs)), collect dt (concat (map (double_texts tx) rs))))"
  by (induction rs arbitrary: dt) (auto simp: reads_def option.map_comp comp_def option.map_ident)

lemma pairs_read:
  "list_all (\<lambda>(k, v). reads pf tx k \<and> reads pf tx v) ps \<Longrightarrow>
     parse_pairs pf (length ps) (concat (map (\<lambda>(k, v). encode_reply tx k @ encode_reply tx v) ps) @ rest) dt =
       Ok (Some (ps, length (concat (map (\<lambda>(k, v). encode_reply tx k @ encode_reply tx v) ps)),
         collect dt (concat (map (\<lambda>(k, v). double_texts tx k @ double_texts tx v) ps))))"
  by (induction ps arbitrary: dt) (auto simp: reads_def option.map_comp comp_def option.map_ident)

lemma readable_reads: "readable pf tx r \<Longrightarrow> reads pf tx r"
proof (induction r)
  case (Array rs)
  then have "list_all (reads pf tx) rs" by (auto simp: list_all_iff)
  with Array.prems show ?case
    by (simp add: reads_def encoder_defs parse_with.simps parse_array_reply.simps header_read(3) items_read numeral_3_eq_3)
next
  case (Set rs)
  then have "list_all (reads pf tx) rs" by (auto simp: list_all_iff)
  with Set.prems show ?case
    by (simp add: reads_def encoder_defs parse_with.simps parse_set_reply.simps header_read(3) items_read numeral_3_eq_3)
next
  case (Push rs)
  then have "list_all (reads pf tx) rs" by (auto simp: list_all_iff)
  with Push.prems show ?case
    by (simp add: reads_def encoder_defs parse_with.simps parse_array_reply.simps header_read(3) items_read numeral_3_eq_3)
next
  case (Map ps)
  then have "list_all (\<lambda>(k, v). reads pf tx k \<and> reads pf tx v) ps"
    by (fastforce simp: list_all_iff)
  with Map.prems show ?case
    by (simp add: reads_def encoder_defs parse_with.simps parse_map_reply.simps header_read(3) pairs_read numeral_3_eq_3)
qed (simp_all add: reads_lines reads_payloads)

section \<open>Properties\<close>


definition sample_pf :: "bytes \<Rightarrow> nat option" where
  "sample_pf b = (if b = [49, 46, 53] then Some 15 else None)"

definition sample_tx :: "nat \<Rightarrow> bytes" where
  "sample_tx v = [49, 46, 53]"

definition sample_reply :: "nat reply" where
  "sample_reply = Array [Double 15, Bulk [13, 10], Map [(Simple [107], Integer (- 5))], Verbatim [116, 120, 116] [], Null]"

lemma sample_readable: "readable sample_pf sample_tx sample_reply"
  by (simp add: sample_reply_def sample_pf_def sample_tx_def fits_len_def int_bounds)


text \<open>
  C35: a reply that has arrived in part is reported as incomplete, and what the reply parser
  decides (a reply or an error) does not change as more bytes arrive; the bytes it reports
  as used are within the buffer.
\<close>

theorem reply_stream:
  "(readable pf tx r \<and> encode_reply tx r = bs @ ms \<and> ms \<noteq> [] \<longrightarrow> parse_reply pf bs = Ok None) \<and>
   (parse_reply pf bs = Ok (Some (r, n)) \<longrightarrow> n \<le> length bs \<and> parse_reply pf (bs @ ms) = Ok (Some (r, n))) \<and>
   (parse_reply pf bs = Err e \<longrightarrow> parse_reply pf (bs @ ms) = Err e)"
proof -
  note st = stable_parse_with [of pf bs]
  have ok: "n \<le> length bs \<and> parse_reply pf (bs @ ms) = Ok (Some (r, n))"
    if "parse_reply pf bs = Ok (Some (r, n))" for r n ms
    using that stable_Ok [OF st] by (fastforce simp: parse_reply_def split: sum.splits option.splits)
  have err: "parse_reply pf (bs @ ms) = Err e" if "parse_reply pf bs = Err e" for e ms
    using that stable_Err [OF st] by (auto simp: parse_reply_def split: sum.splits option.splits)
  have "parse_reply pf bs = Ok None" if "readable pf tx r" "encode_reply tx r = bs @ ms" "ms \<noteq> []"
  proof -
    have "parse_with pf (encode_reply tx r @ []) None =
        Ok (Some (r, length (encode_reply tx r), collect None (double_texts tx r)))"
      using readable_reads [OF that(1)] unfolding reads_def by blast
    then have full: "parse_reply pf (bs @ ms) = Ok (Some (r, length (bs @ ms)))"
      by (simp add: that(2) parse_reply_def)
    show ?thesis
    proof (cases "parse_reply pf bs")
      case (Inl e)
      from err [OF this, of ms] full show ?thesis by simp
    next
      case (Inr x)
      show ?thesis
      proof (cases x)
        case (Some rn)
        then have "parse_reply pf bs = Ok (Some (fst rn, snd rn))" using Inr by simp
        from ok [OF this, of ms] full that(3) show ?thesis by (cases ms) auto
      qed (simp add: Inr)
    qed
  qed
  then show ?thesis using ok [of r n ms] err [of e ms] by simp
qed

theorem reply_stream_witness:
  "encode_reply sample_tx (Bulk [7]) = [36, 49, 13] @ [10, 7, 13, 10] \<and> parse_reply sample_pf [36, 49, 13] = Ok None"
proof -
  have "encode_reply sample_tx (Bulk [7]) = [36, 49, 13] @ [10, 7, 13, 10]"
    by (simp add: encode_bulk_frame bulk_frame_def dec_digits.simps digit_byte_def)
  then show ?thesis
    using reply_stream [of sample_pf sample_tx "Bulk [7]" "[36, 49, 13]" "[10, 7, 13, 10]"]
    by (simp add: fits_len_def int_bounds)
qed

text \<open>
  C36: the smallest \<open>i64\<close> does not survive the round trip: the encoder writes it, the reply
  parser rejects it, because the magnitude is accumulated before the sign is applied.
\<close>

theorem reply_rejects_i64_min:
  "parse_reply pf (encode_integer [] i64_min) = Err (Malformed ''bad integer reply'')"
proof -
  have d: "parse_int_acc 0 (dec_digits 9223372036854775808) = None"
    by (simp add: dec_digits.simps parse_int_acc_append checked_i64_def int_bounds)
  have "13 \<notin> set (dec_int i64_min)"
    using digits_no_cr [of "dec_digits 9223372036854775808"] by (simp add: dec_int_def i64_min_def)
  moreover have "parse_int (dec_int i64_min) = None"
    using d by (simp add: parse_int_def dec_int_def i64_min_def)
  ultimately show ?thesis
    using line_read [of "dec_int i64_min" 58 "[]"]
    by (simp add: parse_reply_def encode_integer_def push_int_dec parse_with.simps parse_int_reply_def)
qed

end
