(* ===== verification/Elect_Core.thy ===== *)
theory Elect_Core
  imports Kevy_Prelude "HOL-Library.AList"
begin

text \<open>
  The election state machine of \<open>kevy-elect\<close> (\<open>elector.rs\<close>, \<open>elector_inbound.rs\<close>,
  \<open>elector_tick.rs\<close>, \<open>config.rs\<close>, \<open>persist.rs\<close>, \<open>message.rs\<close>). Node ids are byte strings,
  instants and durations are nanoseconds (\<open>nat\<close>; \<open>duration_since\<close> saturates at zero, as
  \<open>-\<close> does), epochs and offsets are \<open>u64\<close> values kept as \<open>nat\<close>, with the saturating
  increment written out. Handlers take the elector and return it updated, with the
  messages they emit. Configured durations are below \<open>2 ^ 64\<close> nanoseconds.
\<close>

type_synonym node_id = bytes
type_synonym instant = nat
type_synonym duration = nat

section \<open>Messages and configuration\<close>

datatype role = Primary | Replica | Candidate

datatype message =
    Hb nat node_id role nat
  | Offer nat node_id nat
  | Accept nat node_id
  | Announce nat node_id bytes

text \<open>An \<open>Outbound\<close>: the recipient and the message.\<close>

type_synonym outbound = "node_id \<times> message"

definition broadcast :: node_id where
  "broadcast = [42]"

record elect_config =
  hb_interval :: duration
  down_after :: duration
  election_timeout :: duration
  election_backoff :: duration
  election_backoff_jitter :: duration

definition elect_config_default :: elect_config where
  "elect_config_default =
     \<lparr>hb_interval = 200000000, down_after = 5000000000, election_timeout = 3000000000,
      election_backoff = 1000000000, election_backoff_jitter = 4000000000\<rparr>"

datatype elect_jitter = Fixed duration | System

definition node_hash :: "node_id \<Rightarrow> 64 word" where
  "node_hash nid = foldl (\<lambda>h b. (h * 1099511628211) XOR ucast b) 1469598103934665603 nid"

fun jitter_sample :: "elect_jitter \<Rightarrow> duration \<Rightarrow> instant \<Rightarrow> node_id \<Rightarrow> duration" where
  "jitter_sample (Fixed d) mx now nid = min d mx"
| "jitter_sample System mx now nid =
     (let span_ns = max mx 1 mod 18446744073709551616 in unat (node_hash nid) mod span_ns)"

section \<open>Durable state\<close>

text \<open>
  An \<open>ElectorPersist\<close>: either \<open>NoPersist\<close>, or a store that holds the last saved epoch and
  vote, as the trait requires of an implementation.
\<close>

datatype persist = No_persist | Durable nat "node_id option"

fun persist_save :: "persist \<Rightarrow> nat \<Rightarrow> node_id option \<Rightarrow> persist" where
  "persist_save No_persist ep v = No_persist"
| "persist_save (Durable _ _) ep v = Durable ep v"

fun persist_load :: "persist \<Rightarrow> nat \<times> node_id option" where
  "persist_load No_persist = (0, None)"
| "persist_load (Durable ep v) = (ep, v)"

section \<open>The elector\<close>

record peer_view =
  last_seen :: instant
  last_epoch :: nat
  last_role :: role
  last_repl_offset :: nat

record elector =
  el_node_id :: node_id
  el_peer_ids :: "node_id list"
  el_config :: elect_config
  el_role :: role
  el_epoch :: nat
  el_current_primary :: "node_id option"
  el_first_tick :: "instant option"
  el_my_repl_offset :: nat
  el_last_hb_sent :: "(node_id \<times> instant) list"
  el_peer_views :: "(node_id \<times> peer_view) list"
  el_accept_votes :: "node_id list"
  el_offer_at :: "instant option"
  el_backoff_until :: "instant option"
  el_last_accept_epoch :: "nat option"
  el_my_advertised_addr :: bytes
  el_jitter :: elect_jitter
  el_persist :: persist

definition elector_new :: "node_id \<Rightarrow> node_id list \<Rightarrow> bytes \<Rightarrow> role \<Rightarrow> elector" where
  "elector_new nid peers addr start_role =
     \<lparr>el_node_id = nid, el_peer_ids = peers, el_config = elect_config_default, el_role = start_role,
      el_epoch = 1, el_current_primary = None, el_first_tick = None, el_my_repl_offset = 0,
      el_last_hb_sent = [], el_peer_views = [], el_accept_votes = [], el_offer_at = None,
      el_backoff_until = None, el_last_accept_epoch = None, el_my_advertised_addr = addr,
      el_jitter = System, el_persist = No_persist\<rparr>"

definition with_config :: "elect_config \<Rightarrow> elector \<Rightarrow> elector" where
  "with_config c s = s\<lparr>el_config := c\<rparr>"

definition with_jitter :: "elect_jitter \<Rightarrow> elector \<Rightarrow> elector" where
  "with_jitter j s = s\<lparr>el_jitter := j\<rparr>"

definition with_persist :: "persist \<Rightarrow> elector \<Rightarrow> elector" where
  "with_persist p s =
     (let (ep, voted_for) = persist_load p;
          s' = (if ep > 0 then
                  (let s1 = s\<lparr>el_epoch := max (el_epoch s) ep\<rparr> in
                   if voted_for \<noteq> None then s1\<lparr>el_last_accept_epoch := Some ep\<rparr> else s1)
                else s)
      in s'\<lparr>el_persist := p\<rparr>)"

definition set_repl_offset :: "elector \<Rightarrow> nat \<Rightarrow> elector" where
  "set_repl_offset s offset = s\<lparr>el_my_repl_offset := offset\<rparr>"

definition has_quorum :: "elector \<Rightarrow> instant \<Rightarrow> bool" where
  "has_quorum s now =
     (let reachable = length (filter (\<lambda>(_, v). now - last_seen v < down_after (el_config s)) (el_peer_views s));
          cluster = max (length (el_peer_ids s)) 1
      in (reachable + 1) * 2 > cluster)"

text \<open>Ids are compared as byte strings.\<close>

fun bytes_less :: "bytes \<Rightarrow> bytes \<Rightarrow> bool" where
  "bytes_less [] ys = (ys \<noteq> [])"
| "bytes_less (x # xs) [] = False"
| "bytes_less (x # xs) (y # ys) = (x < y \<or> x = y \<and> bytes_less xs ys)"

section \<open>Inbound messages\<close>

definition follow_primary_hb :: "elector \<Rightarrow> node_id \<Rightarrow> nat \<Rightarrow> elector" where
  "follow_primary_hb s from ep =
     (let s1 = (if ep > el_epoch s then s\<lparr>el_persist := persist_save (el_persist s) ep None\<rparr> else s);
          s2 = s1\<lparr>el_epoch := ep, el_current_primary := Some from\<rparr>
      in if el_role s2 = Primary \<and> from \<noteq> el_node_id s2 then s2\<lparr>el_role := Replica\<rparr>
         else if el_role s2 = Candidate then
           s2\<lparr>el_role := Replica, el_offer_at := None, el_accept_votes := []\<rparr>
         else s2)"

definition on_hb :: "elector \<Rightarrow> node_id \<Rightarrow> nat \<Rightarrow> role \<Rightarrow> nat \<Rightarrow> instant \<Rightarrow> elector" where
  "on_hb s from ep r offset now =
     (let s1 = s\<lparr>el_peer_views := AList.update from
            \<lparr>last_seen = now, last_epoch = ep, last_role = r, last_repl_offset = offset\<rparr> (el_peer_views s)\<rparr>
      in if r = Primary \<and> ep \<ge> el_epoch s1 \<and>
            (ep > el_epoch s1 \<or> el_current_primary s1 = None \<and> el_role s1 = Replica)
         then follow_primary_hb s1 from ep else s1)"

definition on_offer :: "elector \<Rightarrow> nat \<Rightarrow> node_id \<Rightarrow> nat \<Rightarrow> elector \<times> outbound list" where
  "on_offer s new_epoch candidate_id offset =
     (if new_epoch \<le> el_epoch s then (s, [])
      else if el_my_repl_offset s > offset then (s, [])
      else if el_my_repl_offset s = offset \<and> bytes_less (el_node_id s) candidate_id then (s, [])
      else if el_last_accept_epoch s = Some new_epoch then (s, [])
      else (s\<lparr>el_persist := persist_save (el_persist s) new_epoch (Some candidate_id),
              el_last_accept_epoch := Some new_epoch, el_epoch := new_epoch\<rparr>,
            [(candidate_id, Accept new_epoch (el_node_id s))]))"

definition on_accept :: "elector \<Rightarrow> nat \<Rightarrow> node_id \<Rightarrow> elector" where
  "on_accept s ep accepter_id =
     (if el_role s \<noteq> Candidate \<or> el_epoch s \<noteq> ep then s
      else s\<lparr>el_accept_votes := List.insert accepter_id (el_accept_votes s)\<rparr>)"

definition on_announce :: "elector \<Rightarrow> nat \<Rightarrow> node_id \<Rightarrow> elector" where
  "on_announce s ep new_primary_id =
     (if ep \<le> el_epoch s \<and> el_current_primary s = Some new_primary_id then s
      else if ep < el_epoch s then s
      else s\<lparr>el_persist := persist_save (el_persist s) ep (Some new_primary_id), el_epoch := ep,
             el_current_primary := Some new_primary_id, el_last_accept_epoch := Some ep,
             el_accept_votes := [], el_offer_at := None,
             el_role := (if new_primary_id = el_node_id s then Primary else Replica)\<rparr>)"

fun on_message :: "elector \<Rightarrow> node_id \<Rightarrow> message \<Rightarrow> instant \<Rightarrow> elector \<times> outbound list" where
  "on_message s from (Hb ep _ r offset) now = (on_hb s from ep r offset now, [])"
| "on_message s from (Offer new_epoch candidate_id offset) now = on_offer s new_epoch candidate_id offset"
| "on_message s from (Accept ep accepter_id) now = (on_accept s ep accepter_id, [])"
| "on_message s from (Announce ep new_primary_id addr) now = (on_announce s ep new_primary_id, [])"

section \<open>Policy\<close>

definition quorum_size :: "elector \<Rightarrow> nat" where
  "quorum_size s = length (el_peer_ids s) div 2 + 1"

definition is_peer_down :: "elector \<Rightarrow> node_id \<Rightarrow> instant \<Rightarrow> bool" where
  "is_peer_down s peer now =
     (case map_of (el_peer_views s) peer of
        Some v \<Rightarrow> now - last_seen v \<ge> down_after (el_config s) | None \<Rightarrow> True)"

text \<open>One round of the loop of \<open>am_best_candidate\<close>: does this peer beat me?\<close>

definition beaten_by :: "elector \<Rightarrow> instant \<Rightarrow> node_id \<Rightarrow> bool" where
  "beaten_by s now other =
     (if other = el_node_id s then False
      else if el_current_primary s = Some other then False
      else case map_of (el_peer_views s) other of None \<Rightarrow> False
        | Some v \<Rightarrow>
          if now - last_seen v \<ge> down_after (el_config s) then False
          else if last_repl_offset v > el_my_repl_offset s then True
          else last_repl_offset v = el_my_repl_offset s \<and> bytes_less other (el_node_id s))"

definition am_best_candidate :: "elector \<Rightarrow> instant \<Rightarrow> bool" where
  "am_best_candidate s now = list_all (\<lambda>other. \<not> beaten_by s now other) (el_peer_ids s)"

section \<open>Ticks\<close>

fun emit_heartbeats_to :: "elector \<Rightarrow> instant \<Rightarrow> node_id list \<Rightarrow> elector \<times> outbound list" where
  "emit_heartbeats_to s now [] = (s, [])"
| "emit_heartbeats_to s now (peer # peers) =
     (if peer = el_node_id s then emit_heartbeats_to s now peers
      else
        (let due = (case map_of (el_last_hb_sent s) peer of
                      Some prev \<Rightarrow> now - prev \<ge> hb_interval (el_config s) | None \<Rightarrow> True)
         in if due then
              (let (s', out) = emit_heartbeats_to (s\<lparr>el_last_hb_sent := AList.update peer now (el_last_hb_sent s)\<rparr>) now peers
               in (s', (peer, Hb (el_epoch s) (el_node_id s) (el_role s) (el_my_repl_offset s)) # out))
            else emit_heartbeats_to s now peers))"

definition emit_heartbeats :: "elector \<Rightarrow> instant \<Rightarrow> elector \<times> outbound list" where
  "emit_heartbeats s now = emit_heartbeats_to s now (el_peer_ids s)"

definition election_preconditions_met :: "elector \<Rightarrow> instant \<Rightarrow> bool" where
  "election_preconditions_met s now =
     (if el_role s \<noteq> Replica then False
      else if (case el_backoff_until s of Some b \<Rightarrow> now < b | None \<Rightarrow> False) then False
      else
        (let blocked = (case el_current_primary s of
              Some primary \<Rightarrow> \<not> is_peer_down s primary now
            | None \<Rightarrow> \<not> (case el_first_tick s of
                Some t \<Rightarrow> now - t \<ge> down_after (el_config s) | None \<Rightarrow> False))
         in if blocked then False else am_best_candidate s now))"

definition maybe_start_election :: "elector \<Rightarrow> instant \<Rightarrow> elector \<times> outbound list" where
  "maybe_start_election s now =
     (if \<not> election_preconditions_met s now then (s, [])
      else
        (let new_epoch = sat_add_u64 (el_epoch s) 1;
             s' = s\<lparr>el_persist := persist_save (el_persist s) new_epoch (Some (el_node_id s)),
                    el_epoch := new_epoch, el_role := Candidate, el_accept_votes := [el_node_id s],
                    el_offer_at := Some now\<rparr>
         in (s', [(broadcast, Offer (el_epoch s') (el_node_id s') (el_my_repl_offset s'))])))"

definition maybe_finish_candidacy :: "elector \<Rightarrow> instant \<Rightarrow> elector \<times> outbound list" where
  "maybe_finish_candidacy s now =
     (if el_role s \<noteq> Candidate then (s, [])
      else case el_offer_at s of None \<Rightarrow> (s, [])
      | Some offer_at \<Rightarrow>
        if length (el_accept_votes s) \<ge> quorum_size s then
          (s\<lparr>el_role := Primary, el_current_primary := Some (el_node_id s), el_offer_at := None,
             el_accept_votes := []\<rparr>,
           [(broadcast, Announce (el_epoch s) (el_node_id s) (el_my_advertised_addr s))])
        else if now - offer_at \<ge> election_timeout (el_config s) then
          (let jitter = jitter_sample (el_jitter s) (election_backoff_jitter (el_config s)) now (el_node_id s)
           in (s\<lparr>el_role := Replica, el_offer_at := None, el_accept_votes := [],
                 el_backoff_until := Some (now + election_backoff (el_config s) + jitter)\<rparr>, []))
        else (s, []))"

definition tick :: "elector \<Rightarrow> instant \<Rightarrow> elector \<times> outbound list" where
  "tick s now =
     (let s0 = (if el_first_tick s = None then s\<lparr>el_first_tick := Some now\<rparr> else s);
          (s1, o1) = emit_heartbeats s0 now;
          (s2, o2) = maybe_start_election s1 now;
          (s3, o3) = maybe_finish_candidacy s2 now
      in (s3, o1 @ o2 @ o3))"

section \<open>What a handler may change\<close>

text \<open>Heartbeats touch the send schedule only.\<close>

lemma emit_heartbeats_to_frame:
  "emit_heartbeats_to s now peers = (s', out) \<Longrightarrow>
     (\<exists>h. s' = s\<lparr>el_last_hb_sent := h\<rparr>) \<and>
     (\<forall>to m. (to, m) \<in> set out \<longrightarrow> m = Hb (el_epoch s) (el_node_id s) (el_role s) (el_my_repl_offset s))"
proof (induction peers arbitrary: s s' out)
  case Nil
  then show ?case by (auto intro: exI [of _ "el_last_hb_sent s"])
next
  case (Cons peer peers)
  let ?u = "s\<lparr>el_last_hb_sent := AList.update peer now (el_last_hb_sent s)\<rparr>"
  consider "emit_heartbeats_to s now peers = (s', out)"
    | out' where "emit_heartbeats_to ?u now peers = (s', out')"
      "out = (peer, Hb (el_epoch s) (el_node_id s) (el_role s) (el_my_repl_offset s)) # out'"
    using Cons.prems by (auto simp: Let_def split: if_splits prod.splits)
  then show ?case
  proof cases
    case 1
    then show ?thesis by (rule Cons.IH)
  next
    case 2
    from Cons.IH [OF 2(1)] 2(2) show ?thesis by auto
  qed
qed

lemma epoch_mono_message: "el_epoch s \<le> el_epoch (fst (on_message s from m now))"
  by (cases m) (auto simp: on_hb_def follow_primary_hb_def on_offer_def on_accept_def on_announce_def Let_def)

end
