(* ===== verification/Elect_Net.thy ===== *)
theory Elect_Net
  imports Elect_Core
begin

text \<open>
  A cluster of electors: every node runs \<open>tick\<close> and \<open>on_message\<close> of the elector model, with
  a durable store; the network may lose, delay, reorder and duplicate messages, clocks
  are arbitrary, and a node may crash and restart from its store. The flag \<open>g\<close> of the
  step relation excludes the deliveries in which a node that is itself a candidate grants
  its vote: election safety holds without them and fails with them.
\<close>

record net =
  nodes :: "node_id \<Rightarrow> elector"
  sent :: "(node_id \<times> outbound) set"

text \<open>A node runs a handler: its new state, and its messages handed to the network.\<close>

definition run_node :: "net \<Rightarrow> node_id \<Rightarrow> elector \<times> outbound list \<Rightarrow> net" where
  "run_node w n r = w\<lparr>nodes := (nodes w)(n := fst r), sent := sent w \<union> Pair n ` set (snd r)\<rparr>"

text \<open>A boot, also after a crash: a new elector over what the store holds.\<close>

definition boot :: "elect_config \<Rightarrow> elect_jitter \<Rightarrow> (node_id \<Rightarrow> bytes) \<Rightarrow> node_id list \<Rightarrow> node_id \<Rightarrow> role \<Rightarrow> persist \<Rightarrow> elector" where
  "boot cfg j addr ids n r p =
     with_persist p (with_jitter j (with_config cfg (elector_new n ids (addr n) r)))"

definition votes_as_candidate :: "elector \<Rightarrow> message \<Rightarrow> bool" where
  "votes_as_candidate s m \<longleftrightarrow>
     el_role s = Candidate \<and> (\<exists>e c k. m = Offer e c k \<and> snd (on_offer s e c k) \<noteq> [])"

inductive step :: "bool \<Rightarrow> elect_config \<Rightarrow> elect_jitter \<Rightarrow> (node_id \<Rightarrow> bytes) \<Rightarrow> node_id list \<Rightarrow> net \<Rightarrow> net \<Rightarrow> bool"
  for g cfg j addr ids where
  tick: "n \<in> set ids \<Longrightarrow> step g cfg j addr ids w (run_node w n (tick (nodes w n) now))"
| deliver: "n \<in> set ids \<Longrightarrow> (from, to, m) \<in> sent w \<Longrightarrow> to = n \<or> to = broadcast \<and> n \<noteq> from \<Longrightarrow>
    (g \<Longrightarrow> \<not> votes_as_candidate (nodes w n) m) \<Longrightarrow>
    step g cfg j addr ids w (run_node w n (on_message (nodes w n) from m now))"
| restart: "n \<in> set ids \<Longrightarrow>
    step g cfg j addr ids w (w\<lparr>nodes := (nodes w)(n := boot cfg j addr ids n r (el_persist (nodes w n)))\<rparr>)"
| offset: "n \<in> set ids \<Longrightarrow>
    step g cfg j addr ids w (w\<lparr>nodes := (nodes w)(n := set_repl_offset (nodes w n) k)\<rparr>)"

inductive reachable :: "bool \<Rightarrow> elect_config \<Rightarrow> elect_jitter \<Rightarrow> (node_id \<Rightarrow> bytes) \<Rightarrow> node_id list \<Rightarrow> net \<Rightarrow> bool"
  for g cfg j addr ids where
  init: "reachable g cfg j addr ids \<lparr>nodes = (\<lambda>n. boot cfg j addr ids n (r n) (Durable 0 None)), sent = {}\<rparr>"
| step: "reachable g cfg j addr ids w \<Longrightarrow> step g cfg j addr ids w w' \<Longrightarrow> reachable g cfg j addr ids w'"

section \<open>Votes and announcements\<close>

text \<open>A vote leaves a trace on the network: an ACCEPT to the candidate, or one's own OFFER.\<close>

definition vote :: "net \<Rightarrow> node_id \<Rightarrow> nat \<Rightarrow> node_id \<Rightarrow> bool" where
  "vote w n e c \<longleftrightarrow> (n, c, Accept e n) \<in> sent w \<or> n = c \<and> (\<exists>k. (n, broadcast, Offer e n k) \<in> sent w)"

definition announced :: "net \<Rightarrow> nat \<Rightarrow> node_id \<Rightarrow> bool" where
  "announced w e c \<longleftrightarrow> (\<exists>f to a. (f, to, Announce e c a) \<in> sent w)"

definition quorum_for :: "net \<Rightarrow> node_id list \<Rightarrow> nat \<Rightarrow> node_id \<Rightarrow> bool" where
  "quorum_for w ids e c \<longleftrightarrow>
     (\<exists>Q. distinct Q \<and> set Q \<subseteq> set ids \<and> length Q \<ge> length ids div 2 + 1 \<and> (\<forall>m \<in> set Q. vote w m e c))"

fun msg_epoch :: "message \<Rightarrow> nat" where
  "msg_epoch (Hb e _ _ _) = e"
| "msg_epoch (Offer e _ _) = e"
| "msg_epoch (Accept e _) = e"
| "msg_epoch (Announce e _ _) = e"

text \<open>What one node keeps: identity, store below the epoch, votes below the store, one vote per epoch.\<close>

definition node_inv :: "net \<Rightarrow> node_id list \<Rightarrow> node_id \<Rightarrow> bool" where
  "node_inv w ids n \<longleftrightarrow>
     el_node_id (nodes w n) = n \<and> el_peer_ids (nodes w n) = ids \<and> el_epoch (nodes w n) \<le> u64_max \<and>
     (\<exists>d v. el_persist (nodes w n) = Durable d v \<and> d \<le> el_epoch (nodes w n) \<and>
        (\<forall>e c. vote w n e c \<longrightarrow> e \<le> d)) \<and>
     (\<forall>e c c'. vote w n e c \<and> vote w n e c' \<and> e < u64_max \<longrightarrow> c = c')"

definition tally_inv :: "bool \<Rightarrow> net \<Rightarrow> node_id list \<Rightarrow> node_id \<Rightarrow> bool" where
  "tally_inv g w ids n \<longleftrightarrow>
     (g \<and> el_role (nodes w n) = Candidate \<longrightarrow>
        distinct (el_accept_votes (nodes w n)) \<and>
        (\<forall>m \<in> set (el_accept_votes (nodes w n)). m \<in> set ids \<and> vote w m (el_epoch (nodes w n)) n))"

definition sent_inv :: "bool \<Rightarrow> net \<Rightarrow> node_id list \<Rightarrow> bool" where
  "sent_inv g w ids \<longleftrightarrow>
     (\<forall>f to e a. (f, to, Accept e a) \<in> sent w \<longrightarrow> a = f \<and> f \<in> set ids \<and> to \<noteq> broadcast) \<and>
     (\<forall>f to e c k. (f, to, Offer e c k) \<in> sent w \<longrightarrow> c = f \<and> f \<in> set ids) \<and>
     (\<forall>e c. g \<and> announced w e c \<longrightarrow> quorum_for w ids e c) \<and>
     (\<forall>f to m. (f, to, m) \<in> sent w \<longrightarrow> msg_epoch m \<le> u64_max)"

definition net_inv :: "bool \<Rightarrow> net \<Rightarrow> node_id list \<Rightarrow> bool" where
  "net_inv g w ids \<longleftrightarrow> (\<forall>n \<in> set ids. node_inv w ids n \<and> tally_inv g w ids n) \<and> sent_inv g w ids"

subsection \<open>Running a handler\<close>

lemma nodes_run [simp]:
  "nodes (run_node w n r) = (nodes w)(n := fst r)"
  "sent (run_node w n r) = sent w \<union> Pair n ` set (snd r)"
  by (simp_all add: run_node_def)

lemma run_node_seq: "run_node (run_node w n (s1, o1)) n (s2, o2) = run_node w n (s2, o1 @ o2)"
  by (simp add: run_node_def image_Un Un_assoc)

lemma vote_mono: "vote w n e c \<Longrightarrow> sent w \<subseteq> sent w' \<Longrightarrow> vote w' n e c"
  by (auto simp: vote_def)

lemma quorum_mono: "quorum_for w ids e c \<Longrightarrow> sent w \<subseteq> sent w' \<Longrightarrow> quorum_for w' ids e c"
  unfolding quorum_for_def by (meson vote_mono)

lemma vote_run_other: "m \<noteq> n \<Longrightarrow> vote (run_node w n r) m e c = vote w m e c"
  by (auto simp: vote_def)

text \<open>
  The general step: a handler that keeps the identity, moves the store as described, emits
  at most one new vote, and whose tally and announcements are justified, keeps the invariant.
\<close>

lemma net_inv_run:
  assumes inv: "net_inv g w ids" and n: "n \<in> set ids"
    and ident: "el_node_id s' = n" "el_peer_ids s' = ids" "el_epoch s' \<le> u64_max"
    and store: "\<And>d v. el_persist (nodes w n) = Durable d v \<Longrightarrow> d \<le> el_epoch (nodes w n) \<Longrightarrow>
      \<exists>d' v'. el_persist s' = Durable d' v' \<and> d \<le> d' \<and> d' \<le> el_epoch s' \<and>
        (\<forall>e c. vote (run_node w n (s', out)) n e c \<longrightarrow> vote w n e c \<or>
           e \<le> d' \<and> (e < u64_max \<longrightarrow> d < e \<and> (\<forall>c'. vote (run_node w n (s', out)) n e c' \<and> \<not> vote w n e c' \<longrightarrow> c' = c)))"
    and tally: "tally_inv g (run_node w n (s', out)) ids n"
    and msgs: "\<And>to e a. (to, Accept e a) \<in> set out \<Longrightarrow> a = n \<and> to \<noteq> broadcast"
      "\<And>to e c k. (to, Offer e c k) \<in> set out \<Longrightarrow> c = n"
      "\<And>to e c a. g \<Longrightarrow> (to, Announce e c a) \<in> set out \<Longrightarrow> quorum_for (run_node w n (s', out)) ids e c"
      "\<And>to m. (to, m) \<in> set out \<Longrightarrow> msg_epoch m \<le> u64_max"
  shows "net_inv g (run_node w n (s', out)) ids"
proof -
  let ?w = "run_node w n (s', out)"
  have sub: "sent w \<subseteq> sent ?w" by simp
  have sn: "sent_inv g w ids" and nd: "\<And>m. m \<in> set ids \<Longrightarrow> node_inv w ids m \<and> tally_inv g w ids m"
    using inv by (auto simp: net_inv_def)
  have "node_inv ?w ids m \<and> tally_inv g ?w ids m" if m: "m \<in> set ids" for m
  proof (cases "m = n")
    case False
    have "node_inv ?w ids m"
      using nd [OF m] False by (simp add: node_inv_def vote_run_other)
    moreover have "tally_inv g ?w ids m"
      using nd [OF m] False vote_mono [OF _ sub] by (simp add: tally_inv_def)
    ultimately show ?thesis by simp
  next
    case True
    obtain d v where dv: "el_persist (nodes w n) = Durable d v" "d \<le> el_epoch (nodes w n)"
      "\<And>e c. vote w n e c \<Longrightarrow> e \<le> d"
      and uniq: "\<And>e c c'. vote w n e c \<Longrightarrow> vote w n e c' \<Longrightarrow> e < u64_max \<Longrightarrow> c = c'"
      using nd [OF n] unfolding node_inv_def by blast
    from store [OF dv(1,2)] obtain d' v' where d': "el_persist s' = Durable d' v'" "d \<le> d'" "d' \<le> el_epoch s'"
      and votes: "\<And>e c. vote ?w n e c \<Longrightarrow> vote w n e c \<or>
        e \<le> d' \<and> (e < u64_max \<longrightarrow> d < e \<and> (\<forall>c'. vote ?w n e c' \<and> \<not> vote w n e c' \<longrightarrow> c' = c))"
      by blast
    have "e \<le> d'" if "vote ?w n e c" for e c
      using votes [OF that] dv(3) [of e c] d'(2) by auto
    moreover have "c = c'" if "vote ?w n e c" "vote ?w n e c'" "e < u64_max" for e c c'
      using votes [OF that(1)] votes [OF that(2)] that dv(3) [of e c] dv(3) [of e c'] uniq [of e c c'] by auto
    ultimately have "node_inv ?w ids n"
      using ident d' by (auto simp: node_inv_def)
    with tally True show ?thesis by simp
  qed
  moreover have "sent_inv g ?w ids"
  proof -
    have "quorum_for ?w ids e c" if "g" "announced ?w e c" for e c
    proof -
      from that(2) obtain f to a where "(f, to, Announce e c a) \<in> sent w \<or> (to, Announce e c a) \<in> set out"
        by (auto simp: announced_def)
      then show ?thesis
      proof
        assume "(f, to, Announce e c a) \<in> sent w"
        then have "announced w e c" by (auto simp: announced_def)
        then show ?thesis using sn that(1) quorum_mono [OF _ sub] by (simp add: sent_inv_def)
      qed (rule msgs(3) [OF that(1)])
    qed
    then show ?thesis
      using sn msgs(1,2,4) n by (fastforce simp: sent_inv_def)
  qed
  ultimately show ?thesis by (simp add: net_inv_def)
qed


text \<open>A handler that sends heartbeats at most.\<close>

lemma net_inv_silent:
  assumes inv: "net_inv g w ids" and n: "n \<in> set ids"
    and ident: "el_node_id s' = n" "el_peer_ids s' = ids" "el_epoch s' \<le> u64_max"
    and store: "\<And>d v. el_persist (nodes w n) = Durable d v \<Longrightarrow> d \<le> el_epoch (nodes w n) \<Longrightarrow>
      \<exists>d' v'. el_persist s' = Durable d' v' \<and> d \<le> d' \<and> d' \<le> el_epoch s'"
    and tally: "tally_inv g (run_node w n (s', out)) ids n"
    and hbs: "\<And>to m. (to, m) \<in> set out \<Longrightarrow> \<exists>e f r k. m = Hb e f r k \<and> e \<le> u64_max"
  shows "net_inv g (run_node w n (s', out)) ids"
proof -
  have no: "(to, Accept e a) \<notin> set out" "(to, Offer e a k) \<notin> set out" "(to, Announce e a b) \<notin> set out" for to e a k b
    using hbs by blast+
  have votes: "vote (run_node w n (s', out)) m e c \<longleftrightarrow> vote w m e c" for m e c
    using no by (auto simp: vote_def)
  show ?thesis
  proof (rule net_inv_run [OF inv n ident _ tally])
    show "\<exists>d' v'. el_persist s' = Durable d' v' \<and> d \<le> d' \<and> d' \<le> el_epoch s' \<and>
        (\<forall>e c. vote (run_node w n (s', out)) n e c \<longrightarrow> vote w n e c \<or>
           e \<le> d' \<and> (e < u64_max \<longrightarrow> d < e \<and> (\<forall>c'. vote (run_node w n (s', out)) n e c' \<and> \<not> vote w n e c' \<longrightarrow> c' = c)))"
      if "el_persist (nodes w n) = Durable d v" "d \<le> el_epoch (nodes w n)" for d v
      using store [OF that] by (simp add: votes)
  qed (auto dest: hbs)
qed

lemma run_node_silent: "run_node w n (s', []) = w\<lparr>nodes := (nodes w)(n := s')\<rparr>"
  by (simp add: run_node_def)

lemma net_inv_ident: "net_inv g w ids \<Longrightarrow> n \<in> set ids \<Longrightarrow> el_node_id (nodes w n) = n \<and> el_peer_ids (nodes w n) = ids \<and>
    el_epoch (nodes w n) \<le> u64_max"
  by (auto simp: net_inv_def node_inv_def)

lemma net_inv_tally: "net_inv g w ids \<Longrightarrow> n \<in> set ids \<Longrightarrow> tally_inv g w ids n"
  by (auto simp: net_inv_def)

text \<open>A tally that is kept, or dropped with the candidacy, stays justified.\<close>

lemma tally_keep:
  assumes "tally_inv g w ids n"
    and "el_role s' = Candidate \<Longrightarrow> el_role (nodes w n) = Candidate \<and>
      el_accept_votes s' = el_accept_votes (nodes w n) \<and> el_epoch s' = el_epoch (nodes w n)"
  shows "tally_inv g (run_node w n (s', out)) ids n"
  using assms vote_mono [of w _ _ _ "run_node w n (s', out)"] by (simp add: tally_inv_def)

lemma net_inv_quiet:
  assumes "net_inv g w ids" "n \<in> set ids" "el_node_id s' = n" "el_peer_ids s' = ids" "el_epoch s' \<le> u64_max"
    and "\<And>d v. el_persist (nodes w n) = Durable d v \<Longrightarrow> d \<le> el_epoch (nodes w n) \<Longrightarrow>
      \<exists>d' v'. el_persist s' = Durable d' v' \<and> d \<le> d' \<and> d' \<le> el_epoch s'"
    and "el_role s' = Candidate \<Longrightarrow> el_role (nodes w n) = Candidate \<and>
      el_accept_votes s' = el_accept_votes (nodes w n) \<and> el_epoch s' = el_epoch (nodes w n)"
    and "\<And>to m. (to, m) \<in> set out \<Longrightarrow> \<exists>e f r k. m = Hb e f r k \<and> e \<le> u64_max"
  shows "net_inv g (run_node w n (s', out)) ids"
  using net_inv_tally [OF assms(1,2)]
  by (intro net_inv_silent tally_keep) (use assms in auto)

lemma inv_on_hb:
  assumes "net_inv g w ids" "n \<in> set ids" "ep \<le> u64_max"
  shows "net_inv g (run_node w n (on_hb (nodes w n) from ep r k now, [])) ids"
  using net_inv_ident [OF assms(1,2)] assms(3)
  by (intro net_inv_quiet [OF assms(1,2)]) (auto simp: on_hb_def follow_primary_hb_def Let_def split: if_splits)

lemma inv_on_announce:
  assumes "net_inv g w ids" "n \<in> set ids" "ep \<le> u64_max"
  shows "net_inv g (run_node w n (on_announce (nodes w n) ep c, [])) ids"
  using net_inv_ident [OF assms(1,2)] assms(3)
  by (intro net_inv_quiet [OF assms(1,2)]) (auto simp: on_announce_def split: if_splits)

lemma inv_on_accept:
  assumes "net_inv g w ids" "n \<in> set ids" "(from, n, Accept ep a) \<in> sent w"
  shows "net_inv g (run_node w n (on_accept (nodes w n) ep a, [])) ids"
proof -
  have a: "a = from" "from \<in> set ids"
    using assms(1,3) by (auto simp: net_inv_def sent_inv_def)
  then have v: "vote w a ep n" using assms(3) by (simp add: vote_def)
  have "tally_inv g (run_node w n (on_accept (nodes w n) ep a, [])) ids n"
    using net_inv_tally [OF assms(1,2)] v a by (auto simp: tally_inv_def on_accept_def vote_def)
  then show ?thesis
    using net_inv_ident [OF assms(1,2)] by (intro net_inv_silent [OF assms(1,2)]) (auto simp: on_accept_def)
qed

lemma inv_on_offer:
  assumes "net_inv g w ids" "n \<in> set ids" "(from, to, Offer e c k) \<in> sent w"
    "g \<Longrightarrow> \<not> votes_as_candidate (nodes w n) (Offer e c k)" "broadcast \<notin> set ids"
  shows "net_inv g (run_node w n (on_offer (nodes w n) e c k)) ids"
proof (cases "snd (on_offer (nodes w n) e c k) = []")
  case True
  then have same: "on_offer (nodes w n) e c k = (nodes w n, [])"
    by (simp add: on_offer_def split: if_splits)
  show ?thesis
    unfolding same using net_inv_ident [OF assms(1,2)] by (intro net_inv_quiet [OF assms(1,2)]) auto
next
  case False
  let ?s = "nodes w n"
  have c: "c \<in> set ids" and emax: "e \<le> u64_max" using assms(1,3) unfolding net_inv_def sent_inv_def by (blast, fastforce)
  have e: "e > el_epoch ?s" and role: "g \<Longrightarrow> el_role ?s \<noteq> Candidate"
    and res: "on_offer ?s e c k = (?s\<lparr>el_persist := persist_save (el_persist ?s) e (Some c),
        el_last_accept_epoch := Some e, el_epoch := e\<rparr>, [(c, Accept e n)])"
    using False assms(4) net_inv_ident [OF assms(1,2)]
    by (auto simp: on_offer_def votes_as_candidate_def split: if_splits)
  show ?thesis
    unfolding res using assms(1,2)
  proof (rule net_inv_run)
    let ?s' = "?s\<lparr>el_persist := persist_save (el_persist ?s) e (Some c), el_last_accept_epoch := Some e, el_epoch := e\<rparr>"
    let ?w = "run_node w n (?s', [(c, Accept e n)])"
    fix d v
    assume d: "el_persist ?s = Durable d v" "d \<le> el_epoch ?s"
    have "vote ?w n e' c' \<longleftrightarrow> vote w n e' c' \<or> e' = e \<and> c' = c" for e' c'
      by (auto simp: vote_def)
    with d e show "\<exists>d' v'. el_persist ?s' = Durable d' v' \<and> d \<le> d' \<and> d' \<le> el_epoch ?s' \<and>
        (\<forall>e c. vote ?w n e c \<longrightarrow> vote w n e c \<or>
           e \<le> d' \<and> (e < u64_max \<longrightarrow> d < e \<and> (\<forall>c'. vote ?w n e c' \<and> \<not> vote w n e c' \<longrightarrow> c' = c)))"
      by auto
  next
    show "tally_inv g (run_node w n (?s\<lparr>el_persist := persist_save (el_persist ?s) e (Some c),
        el_last_accept_epoch := Some e, el_epoch := e\<rparr>, [(c, Accept e n)])) ids n"
      using role by (auto simp: tally_inv_def)
  qed (use c emax assms(5) net_inv_ident [OF assms(1,2)] in auto)
qed

lemma inv_on_message:
  assumes "net_inv g w ids" "n \<in> set ids" "(from, to, m) \<in> sent w" "to = n \<or> to = broadcast \<and> n \<noteq> from"
    "g \<Longrightarrow> \<not> votes_as_candidate (nodes w n) m" "broadcast \<notin> set ids"
  shows "net_inv g (run_node w n (on_message (nodes w n) from m now)) ids"
proof (cases m)
  have e: "msg_epoch m \<le> u64_max"
    using assms(1,3) unfolding net_inv_def sent_inv_def by blast
  case (Hb ep f r k)
  then show ?thesis using inv_on_hb [OF assms(1,2)] e by simp
next
  case (Offer e c k)
  then show ?thesis using inv_on_offer [OF assms(1,2)] assms(3,5,6) by simp
next
  case (Accept e a)
  have "to \<noteq> broadcast"
    using assms(1,3) unfolding net_inv_def sent_inv_def Accept by blast
  then show ?thesis using inv_on_accept [OF assms(1,2)] assms(3,4) Accept by simp
next
  have e: "msg_epoch m \<le> u64_max"
    using assms(1,3) unfolding net_inv_def sent_inv_def by blast
  case (Announce ep c a)
  then show ?thesis using inv_on_announce [OF assms(1,2)] e by simp
qed

lemma inv_start:
  assumes inv: "net_inv g w ids" and n: "n \<in> set ids"
  shows "net_inv g (run_node w n (maybe_start_election (nodes w n) now)) ids"
proof (cases "election_preconditions_met (nodes w n) now")
  case False
  then have same: "maybe_start_election (nodes w n) now = (nodes w n, [])"
    by (simp add: maybe_start_election_def)
  show ?thesis
    unfolding same using net_inv_ident [OF inv n] by (intro net_inv_quiet [OF inv n]) auto
next
  case True
  let ?s = "nodes w n"
  let ?e = "sat_add_u64 (el_epoch ?s) 1"
  let ?s' = "?s\<lparr>el_persist := persist_save (el_persist ?s) ?e (Some n), el_epoch := ?e,
    el_role := Candidate, el_accept_votes := [n], el_offer_at := Some now\<rparr>"
  let ?out = "[(broadcast, Offer ?e n (el_my_repl_offset ?s))]"
  let ?w = "run_node w n (?s', ?out)"
  have id: "el_node_id ?s = n" "el_peer_ids ?s = ids" "el_epoch ?s \<le> u64_max" using net_inv_ident [OF inv n] by auto
  have res: "maybe_start_election ?s now = (?s', ?out)"
    using True id(1) by (simp add: maybe_start_election_def Let_def)
  have v: "vote ?w n e c \<longleftrightarrow> vote w n e c \<or> e = ?e \<and> c = n" for e c
    by (auto simp: vote_def)
  have grow: "?e < u64_max \<Longrightarrow> el_epoch ?s < ?e" and bound: "el_epoch ?s \<le> ?e" "?e \<le> u64_max"
    using id(3) by (auto simp: sat_add_u64_def)
  show ?thesis
    unfolding res
  proof (rule net_inv_run [OF inv n])
    fix d v'
    assume d: "el_persist ?s = Durable d v'" "d \<le> el_epoch ?s"
    show "\<exists>d' v'. el_persist ?s' = Durable d' v' \<and> d \<le> d' \<and> d' \<le> el_epoch ?s' \<and>
        (\<forall>e c. vote ?w n e c \<longrightarrow> vote w n e c \<or>
           e \<le> d' \<and> (e < u64_max \<longrightarrow> d < e \<and> (\<forall>c'. vote ?w n e c' \<and> \<not> vote w n e c' \<longrightarrow> c' = c)))"
      unfolding v using d grow bound by auto
  next
    show "tally_inv g ?w ids n"
      using n by (auto simp: tally_inv_def vote_def)
  qed (use id bound in auto)
qed

lemma inv_finish:
  assumes inv: "net_inv g w ids" and n: "n \<in> set ids"
  shows "net_inv g (run_node w n (maybe_finish_candidacy (nodes w n) now)) ids"
proof (cases "el_role (nodes w n) = Candidate \<and> el_offer_at (nodes w n) \<noteq> None \<and>
    length (el_accept_votes (nodes w n)) \<ge> quorum_size (nodes w n)")
  case False
  define s' where "s' = fst (maybe_finish_candidacy (nodes w n) now)"
  have "snd (maybe_finish_candidacy (nodes w n) now) = []"
    using False by (auto simp: maybe_finish_candidacy_def Let_def split: option.splits)
  then have res: "maybe_finish_candidacy (nodes w n) now = (s', [])"
    by (simp add: s'_def prod_eq_iff)
  have s': "s' = nodes w n \<or> (\<exists>b. s' = (nodes w n)\<lparr>el_role := Replica, el_offer_at := None, el_accept_votes := [],
      el_backoff_until := b\<rparr>)"
    using False unfolding s'_def by (auto simp: maybe_finish_candidacy_def Let_def split: option.splits)
  then show ?thesis
    unfolding res using net_inv_ident [OF inv n] by (intro net_inv_quiet [OF inv n]) auto
next
  case True
  let ?s = "nodes w n"
  let ?s' = "?s\<lparr>el_role := Primary, el_current_primary := Some n, el_offer_at := None, el_accept_votes := []\<rparr>"
  let ?out = "[(broadcast, Announce (el_epoch ?s) n (el_my_advertised_addr ?s))]"
  have id: "el_node_id ?s = n" "el_peer_ids ?s = ids" "el_epoch ?s \<le> u64_max" using net_inv_ident [OF inv n] by auto
  have res: "maybe_finish_candidacy ?s now = (?s', ?out)"
    using True id(1) by (auto simp: maybe_finish_candidacy_def)
  have q: "quorum_for w ids (el_epoch ?s) n" if "g"
    using that net_inv_tally [OF inv n] True id(2)
    by (auto simp: quorum_for_def tally_inv_def quorum_size_def intro!: exI [of _ "el_accept_votes ?s"])
  show ?thesis
    unfolding res
  proof (rule net_inv_run [OF inv n])
    fix d v
    assume "el_persist ?s = Durable d v" "d \<le> el_epoch ?s"
    then show "\<exists>d' v'. el_persist ?s' = Durable d' v' \<and> d \<le> d' \<and> d' \<le> el_epoch ?s' \<and>
        (\<forall>e c. vote (run_node w n (?s', ?out)) n e c \<longrightarrow> vote w n e c \<or>
           e \<le> d' \<and> (e < u64_max \<longrightarrow> d < e \<and> (\<forall>c'. vote (run_node w n (?s', ?out)) n e c' \<and> \<not> vote w n e c' \<longrightarrow> c' = c)))"
      by (auto simp: vote_def)
  next
    show "quorum_for (run_node w n (?s', ?out)) ids e c" if "g" "(to, Announce e c a) \<in> set ?out" for to e c a
      using that(2) quorum_mono [OF q [OF that(1)], of "run_node w n (?s', ?out)"] by auto
  qed (use id in \<open>auto simp: tally_inv_def\<close>)
qed

lemma inv_tick:
  assumes inv: "net_inv g w ids" and n: "n \<in> set ids"
  shows "net_inv g (run_node w n (tick (nodes w n) now)) ids"
proof -
  define s0 where "s0 = (if el_first_tick (nodes w n) = None then (nodes w n)\<lparr>el_first_tick := Some now\<rparr> else nodes w n)"
  obtain s1 o1 where 1: "emit_heartbeats s0 now = (s1, o1)" by fastforce
  obtain s2 o2 where 2: "maybe_start_election s1 now = (s2, o2)" by fastforce
  obtain s3 o3 where 3: "maybe_finish_candidacy s2 now = (s3, o3)" by fastforce
  have t: "tick (nodes w n) now = (s3, o1 @ o2 @ o3)"
    by (simp add: tick_def s0_def [symmetric] 1 2 3)
  have id: "el_node_id (nodes w n) = n" "el_peer_ids (nodes w n) = ids" "el_epoch (nodes w n) \<le> u64_max"
    using net_inv_ident [OF inv n] by auto
  have s0: "\<exists>f. s0 = (nodes w n)\<lparr>el_first_tick := f\<rparr>"
    by (cases "el_first_tick (nodes w n)")
      (auto simp: s0_def intro: exI [of _ "Some now"] exI [of _ "el_first_tick (nodes w n)"])
  note frame = emit_heartbeats_to_frame [OF 1 [unfolded emit_heartbeats_def]]
  from s0 obtain f where f: "s0 = (nodes w n)\<lparr>el_first_tick := f\<rparr>" by blast
  from frame obtain h where h: "s1 = s0\<lparr>el_last_hb_sent := h\<rparr>"
    and hb: "\<And>to m. (to, m) \<in> set o1 \<Longrightarrow> m = Hb (el_epoch s0) (el_node_id s0) (el_role s0) (el_my_repl_offset s0)"
    by blast
  have "net_inv g (run_node w n (s1, o1)) ids"
  proof (rule net_inv_quiet [OF inv n])
    show "\<exists>e f r k. m = Hb e f r k \<and> e \<le> u64_max" if "(to, m) \<in> set o1" for to m
      using hb [OF that] f id by simp
  qed (use f h id in auto)
  from inv_start [OF this n, of now] have "net_inv g (run_node w n (s2, o1 @ o2)) ids"
    by (simp add: 2 run_node_seq)
  from inv_finish [OF this n, of now] show ?thesis
    by (simp add: 3 run_node_seq t)
qed

section \<open>Reachable clusters\<close>

lemma boot_fields:
  "el_node_id (boot cfg j addr ids n r p) = n" "el_peer_ids (boot cfg j addr ids n r p) = ids"
  "el_persist (boot cfg j addr ids n r p) = p" "el_accept_votes (boot cfg j addr ids n r p) = []"
  "el_epoch (boot cfg j addr ids n r p) = max 1 (fst (persist_load p))"
  "el_offer_at (boot cfg j addr ids n r p) = None"
  by (auto simp: boot_def with_persist_def with_jitter_def with_config_def elector_new_def Let_def
      split: prod.splits)

lemma inv_step:
  assumes "net_inv g w ids" "step g cfg j addr ids w w'" "broadcast \<notin> set ids"
  shows "net_inv g w' ids"
  using assms(2,1)
proof cases
  case (tick n now)
  then show ?thesis using inv_tick [OF assms(1)] by simp
next
  case (deliver n frm to m now)
  then show ?thesis using inv_on_message [OF assms(1)] assms(3) by simp
next
  case (restart n r)
  let ?b = "boot cfg j addr ids n r (el_persist (nodes w n))"
  have "net_inv g (run_node w n (?b, [])) ids"
  proof (rule net_inv_silent [OF assms(1) restart(2)])
    obtain d v where "el_persist (nodes w n) = Durable d v" "d \<le> u64_max"
      using assms(1) restart(2) by (fastforce simp: net_inv_def node_inv_def)
    then show "el_epoch ?b \<le> u64_max" by (simp add: boot_fields u64_max_def)
    show "tally_inv g (run_node w n (?b, [])) ids n" by (simp add: tally_inv_def boot_fields)
  qed (auto simp: boot_fields)
  then show ?thesis using restart(1) by (simp add: run_node_silent)
next
  case (offset n k)
  have "net_inv g (run_node w n (set_repl_offset (nodes w n) k, [])) ids"
    using net_inv_ident [OF assms(1) offset(2)]
    by (intro net_inv_quiet [OF assms(1) offset(2)]) (auto simp: set_repl_offset_def)
  then show ?thesis using offset(1) by (simp add: run_node_silent)
qed

lemma inv_reachable:
  assumes "reachable g cfg j addr ids w" "broadcast \<notin> set ids"
  shows "net_inv g w ids"
  using assms(1)
proof induction
  case (init r)
  show ?case
    by (auto simp: net_inv_def node_inv_def tally_inv_def sent_inv_def vote_def announced_def boot_fields u64_max_def)
next
  case (step w w')
  then show ?case using inv_step assms(2) by blast
qed

text \<open>Two majorities of one cluster share a node.\<close>

lemma quorums_meet:
  assumes "distinct ids" "distinct P" "distinct Q" "set P \<subseteq> set ids" "set Q \<subseteq> set ids"
    and "length P \<ge> length ids div 2 + 1" "length Q \<ge> length ids div 2 + 1"
  shows "\<exists>m. m \<in> set P \<and> m \<in> set Q"
proof (rule ccontr)
  assume "\<not> ?thesis"
  then have "card (set P \<union> set Q) = length P + length Q"
    using assms(2,3) by (subst card_Un_disjoint) (auto simp: distinct_card)
  moreover have "card (set P \<union> set Q) \<le> length ids"
    using assms(1,4,5) by (metis Un_least card_mono distinct_card finite_set)
  ultimately show False using assms(6,7) by linarith
qed

end
