(* ===== verification/Elect_Runs.thy ===== *)
theory Elect_Runs
  imports Elect_Net
begin

text \<open>
  Concrete runs of a three-node cluster with the default configuration: the run in which
  two candidates announce themselves in one epoch, the run in which an elected primary and
  the primary that voted for it coexist, and the witnesses of the safety theorems.
\<close>

section \<open>Runs as lists of actions\<close>

datatype action =
    Tick node_id instant
  | Deliver node_id node_id node_id message instant
  | Set_offset node_id nat

fun act :: "net \<Rightarrow> action \<Rightarrow> net" where
  "act w (Tick n now) = run_node w n (tick (nodes w n) now)"
| "act w (Deliver n frm to m now) = run_node w n (on_message (nodes w n) frm m now)"
| "act w (Set_offset n k) = w\<lparr>nodes := (nodes w)(n := set_repl_offset (nodes w n) k)\<rparr>"

fun enabled :: "bool \<Rightarrow> node_id list \<Rightarrow> net \<Rightarrow> action \<Rightarrow> bool" where
  "enabled g ids w (Tick n now) = (n \<in> set ids)"
| "enabled g ids w (Deliver n frm to m now) =
     (n \<in> set ids \<and> (frm, to, m) \<in> sent w \<and> (to = n \<or> to = broadcast \<and> n \<noteq> frm) \<and>
      (g \<longrightarrow> el_role (nodes w n) \<noteq> Candidate \<or> (\<forall>e c k. m \<noteq> Offer e c k)))"
| "enabled g ids w (Set_offset n k) = (n \<in> set ids)"

fun run_ok :: "bool \<Rightarrow> node_id list \<Rightarrow> net \<Rightarrow> action list \<Rightarrow> bool" where
  "run_ok g ids w [] = True"
| "run_ok g ids w (a # as) = (enabled g ids w a \<and> run_ok g ids (act w a) as)"

lemma run_reachable:
  "reachable g cfg j addr ids w \<Longrightarrow> run_ok g ids w as \<Longrightarrow> reachable g cfg j addr ids (foldl act w as)"
proof (induction as arbitrary: w)
  case (Cons a as)
  have "step g cfg j addr ids w (act w a)"
    using Cons.prems(2) by (cases a) (auto intro: step.intros simp: votes_as_candidate_def)
  with Cons show ?case by (auto intro: reachable.step)
qed simp

definition node_a :: node_id where "node_a = [97]"
definition node_b :: node_id where "node_b = [98]"
definition node_c :: node_id where "node_c = [99]"

definition trio :: "node_id list" where
  "trio = [node_a, node_b, node_c]"

definition start :: "(node_id \<Rightarrow> role) \<Rightarrow> net" where
  "start r = \<lparr>nodes = (\<lambda>n. boot elect_config_default (Fixed 0) (\<lambda>n. n) trio n (r n) (Durable 0 None)), sent = {}\<rparr>"

lemma start_reachable: "reachable g elect_config_default (Fixed 0) (\<lambda>n. n) trio (start r)"
  unfolding start_def by (rule reachable.init)

definition dueling_run :: "action list" where
  "dueling_run =
     [Tick node_a 0, Tick node_b 3500000000, Tick node_a 5000000000, Tick node_a 8000000000,
      Tick node_b 8500000000, Deliver node_c node_b broadcast (Offer 2 node_b 0) 8600000000,
      Tick node_a 9000000000, Deliver node_b node_c node_b (Accept 2 node_c) 9000000000,
      Deliver node_b node_a broadcast (Offer 3 node_a 0) 9000000000,
      Deliver node_a node_b node_a (Accept 3 node_b) 9010000000,
      Tick node_b 9050000000, Tick node_a 9050000000]"

definition coexist_run :: "action list" where
  "coexist_run =
     [Set_offset node_b 7, Tick node_b 0, Tick node_b 5000000000,
      Deliver node_a node_b broadcast (Offer 2 node_b 7) 5010000000,
      Deliver node_b node_a node_b (Accept 2 node_a) 5020000000, Tick node_b 5050000000]"

lemmas handler_defs = tick_def emit_heartbeats_def maybe_start_election_def election_preconditions_met_def
  am_best_candidate_def beaten_by_def is_peer_down_def maybe_finish_candidacy_def quorum_size_def
  on_offer_def on_accept_def set_repl_offset_def sat_add_u64_def u64_max_def Let_def
  elect_config_default_def boot_def with_persist_def with_jitter_def with_config_def elector_new_def

lemmas node_ids = node_a_def node_b_def node_c_def trio_def broadcast_def

abbreviation primary_a :: "node_id \<Rightarrow> role" where
  "primary_a n \<equiv> if n = node_a then Primary else Replica"

abbreviation dueling_end :: net where
  "dueling_end \<equiv> foldl act (start (\<lambda>_. Replica)) dueling_run"

abbreviation coexist_end :: net where
  "coexist_end \<equiv> foldl act (start primary_a) coexist_run"

lemma dueling_ok: "run_ok False trio (start (\<lambda>_. Replica)) dueling_run"
  by (simp add: dueling_run_def start_def handler_defs node_ids)

lemma dueling_announced: "announced dueling_end 3 node_a" "announced dueling_end 3 node_b"
  by (auto simp: announced_def dueling_run_def start_def handler_defs node_ids)

lemma coexist_ok: "run_ok True trio (start primary_a) coexist_run"
  by (simp add: coexist_run_def start_def handler_defs node_ids)

lemma coexist_announced: "announced coexist_end 2 node_b"
  by (auto simp: announced_def coexist_run_def start_def handler_defs node_ids)

lemma coexist_votes: "vote coexist_end node_a 2 node_b" "vote coexist_end node_b 2 node_b"
  by (auto simp: vote_def coexist_run_def start_def handler_defs node_ids)

lemma coexist_nodes:
  "el_role (nodes coexist_end node_a) = Primary" "el_role (nodes coexist_end node_b) = Primary"
  "el_epoch (nodes coexist_end node_a) = 2" "el_epoch (nodes coexist_end node_b) = 2"
  by (simp_all add: coexist_run_def start_def handler_defs node_ids)

lemma trio_facts: "distinct trio" "broadcast \<notin> set trio" "node_a \<in> set trio" "node_a \<noteq> node_b"
  by (simp_all add: node_ids)

section \<open>Properties\<close>

text \<open>
  C1: election safety. In every run in which no candidate grants its vote to another one,
  whatever is lost, duplicated or reordered, and however often nodes crash and restart, at most
  one node announces itself primary in an epoch (below the saturated one).
\<close>

theorem election_safety:
  assumes "reachable True cfg j addr ids w" "distinct ids" "broadcast \<notin> set ids" "e < u64_max"
    and "announced w e c" "announced w e c'"
  shows "c = c'"
proof -
  have inv: "net_inv True w ids" using inv_reachable assms(1,3) .
  then have "quorum_for w ids e c" "quorum_for w ids e c'"
    using assms(5,6) by (auto simp: net_inv_def sent_inv_def)
  then obtain P Q where P: "distinct P" "set P \<subseteq> set ids" "length P \<ge> length ids div 2 + 1" "\<forall>m \<in> set P. vote w m e c"
    and Q: "distinct Q" "set Q \<subseteq> set ids" "length Q \<ge> length ids div 2 + 1" "\<forall>m \<in> set Q. vote w m e c'"
    unfolding quorum_for_def by blast
  from quorums_meet [OF assms(2) P(1) Q(1) P(2) Q(2) P(3) Q(3)] obtain m where m: "m \<in> set P" "m \<in> set Q" by blast
  then have "vote w m e c" "vote w m e c'" "m \<in> set ids" using P Q by auto
  with inv assms(4) show ?thesis unfolding net_inv_def node_inv_def by blast
qed

theorem election_safety_witness:
  "reachable True elect_config_default (Fixed 0) (\<lambda>n. n) trio coexist_end \<and> announced coexist_end 2 node_b \<and>
   (\<forall>c. announced coexist_end 2 c = (c = node_b))"
  using election_safety [OF run_reachable [OF start_reachable coexist_ok] trio_facts(1,2), of 2 _ node_b]
    coexist_announced run_reachable [OF start_reachable coexist_ok]
  by (auto simp: u64_max_def)

text \<open>
  C2: a node votes at most once per epoch, over crashes and restarts: two ACCEPTs, or an
  ACCEPT and a candidacy, of one node in one epoch (below the saturated one) are for the
  same candidate.
\<close>

theorem one_vote_per_epoch:
  assumes "reachable g cfg j addr ids w" "broadcast \<notin> set ids" "n \<in> set ids" "e < u64_max"
    and "vote w n e c" "vote w n e c'"
  shows "c = c'"
  using inv_reachable [OF assms(1,2)] assms(3-6) unfolding net_inv_def node_inv_def by blast

theorem one_vote_per_epoch_witness:
  "reachable True elect_config_default (Fixed 0) (\<lambda>n. n) trio coexist_end \<and> vote coexist_end node_a 2 node_b \<and>
   (\<forall>c. vote coexist_end node_a 2 c = (c = node_b))"
  using one_vote_per_epoch [OF run_reachable [OF start_reachable coexist_ok] trio_facts(2,3), of 2 _ node_b]
    coexist_votes run_reachable [OF start_reachable coexist_ok]
  by (auto simp: u64_max_def)

text \<open>
  C23: without the restriction of the safety theorem the protocol elects two primaries in one
  epoch: a candidate that has its quorum, and has not ticked yet, grants its vote to a
  candidate of the next epoch, keeps its candidacy and its old tally, and announces itself in
  the new epoch, in which the other candidate wins too.
\<close>

theorem dueling_candidates_split_brain:
  "\<exists>w. reachable False elect_config_default (Fixed 0) (\<lambda>n. n) trio w \<and>
     announced w 3 node_a \<and> announced w 3 node_b \<and> node_a \<noteq> node_b"
  using run_reachable [OF start_reachable dueling_ok] dueling_announced trio_facts(4) by blast

text \<open>
  C24: a primary that grants its vote keeps its role in the new epoch: a reachable cluster has
  two nodes in role primary at the same epoch, and the heartbeats of the elected one do not
  demote the other, whatever their offset and time.
\<close>

theorem voting_primary_coexists:
  "\<exists>w. reachable True elect_config_default (Fixed 0) (\<lambda>n. n) trio w \<and>
     el_role (nodes w node_a) = Primary \<and> el_role (nodes w node_b) = Primary \<and>
     el_epoch (nodes w node_a) = el_epoch (nodes w node_b) \<and>
     (\<forall>k now. el_role (fst (on_message (nodes w node_a) node_b (Hb (el_epoch (nodes w node_b)) node_b Primary k) now)) = Primary)"
proof (intro exI conjI allI)
  show "reachable True elect_config_default (Fixed 0) (\<lambda>n. n) trio coexist_end"
    by (rule run_reachable [OF start_reachable coexist_ok])
  show "el_role (fst (on_message (nodes coexist_end node_a) node_b
      (Hb (el_epoch (nodes coexist_end node_b)) node_b Primary k) now)) = Primary" for k now
    by (simp add: on_hb_def coexist_nodes Let_def)
qed (simp_all add: coexist_nodes)

end
