(* ===== verification/Elect_Wire.thy ===== *)
theory Elect_Wire
  imports Elect_Core Resp_Command Utf8
begin

text \<open>
  The wire form of election messages (\<open>wire.rs\<close>, \<open>Role::as_str\<close>/\<open>Role::parse\<close> of
  \<open>message.rs\<close>): a RESP command per message, read back with the zero-copy request parser.
\<close>

datatype decode_error = Truncated | Bad | Wrong_shape | Bad_numeric | Bad_role

fun role_as_str :: "role \<Rightarrow> bytes" where
  "role_as_str Primary = ascii ''primary''"
| "role_as_str Replica = ascii ''replica''"
| "role_as_str Candidate = ascii ''candidate''"

definition role_parse :: "bytes \<Rightarrow> role option" where
  "role_parse s =
     (if eq_ignore_ascii_case s (ascii ''primary'') then Some Primary
      else if eq_ignore_ascii_case s (ascii ''replica'') then Some Replica
      else if eq_ignore_ascii_case s (ascii ''candidate'') then Some Candidate
      else None)"

definition push_bulk_array :: "bytes \<Rightarrow> nat \<Rightarrow> bytes" where
  "push_bulk_array out n = out @ [42] @ dec_digits n @ crlf"

definition push_bulk :: "bytes \<Rightarrow> bytes \<Rightarrow> bytes" where
  "push_bulk out data = ((out @ [36] @ dec_digits (length data) @ crlf) @ data) @ crlf"

fun message_encode :: "message \<Rightarrow> bytes" where
  "message_encode (Hb ep nid r offset) =
     push_bulk (push_bulk (push_bulk (push_bulk (push_bulk (push_bulk_array [] 5) (ascii ''HB''))
       (dec_digits ep)) nid) (role_as_str r)) (dec_digits offset)"
| "message_encode (Offer new_epoch candidate_id offset) =
     push_bulk (push_bulk (push_bulk (push_bulk (push_bulk_array [] 4) (ascii ''OFFER''))
       (dec_digits new_epoch)) candidate_id) (dec_digits offset)"
| "message_encode (Accept ep accepter_id) =
     push_bulk (push_bulk (push_bulk (push_bulk_array [] 3) (ascii ''ACCEPT'')) (dec_digits ep)) accepter_id"
| "message_encode (Announce ep new_primary_id addr) =
     push_bulk (push_bulk (push_bulk (push_bulk (push_bulk_array [] 4) (ascii ''ANNOUNCE''))
       (dec_digits ep)) new_primary_id) addr"

definition wire_parse_u64 :: "bytes \<Rightarrow> (decode_error, nat) result" where
  "wire_parse_u64 b =
     (if \<not> utf8_valid b then Err Bad_numeric
      else case parse_u64_str b of None \<Rightarrow> Err Bad_numeric | Some n \<Rightarrow> Ok n)"

definition parse_string :: "bytes \<Rightarrow> bytes" where
  "parse_string b = from_utf8_lossy b"

text \<open>Fields are read in the order of the struct literal; the first failure is returned.\<close>

definition parse_argv_for_verb :: "bytes \<Rightarrow> argv_borrowed \<Rightarrow> (decode_error, message) result" where
  "parse_argv_for_verb verb a =
     (let field = (\<lambda>i. the (borrowed_get a i)) in
      if eq_ignore_ascii_case verb (ascii ''HB'') then
        if borrowed_len a \<noteq> 5 then Err Wrong_shape
        else (case wire_parse_u64 (field 1) of Inl e \<Rightarrow> Err e
          | Inr ep \<Rightarrow> (case role_parse (field 3) of None \<Rightarrow> Err Bad_role
            | Some r \<Rightarrow> (case wire_parse_u64 (field 4) of Inl e \<Rightarrow> Err e
              | Inr offset \<Rightarrow> Ok (Hb ep (parse_string (field 2)) r offset))))
      else if eq_ignore_ascii_case verb (ascii ''OFFER'') then
        if borrowed_len a \<noteq> 4 then Err Wrong_shape
        else (case wire_parse_u64 (field 1) of Inl e \<Rightarrow> Err e
          | Inr ep \<Rightarrow> (case wire_parse_u64 (field 3) of Inl e \<Rightarrow> Err e
            | Inr offset \<Rightarrow> Ok (Offer ep (parse_string (field 2)) offset)))
      else if eq_ignore_ascii_case verb (ascii ''ACCEPT'') then
        if borrowed_len a \<noteq> 3 then Err Wrong_shape
        else (case wire_parse_u64 (field 1) of Inl e \<Rightarrow> Err e
          | Inr ep \<Rightarrow> Ok (Accept ep (parse_string (field 2))))
      else if eq_ignore_ascii_case verb (ascii ''ANNOUNCE'') then
        if borrowed_len a \<noteq> 4 then Err Wrong_shape
        else (case wire_parse_u64 (field 1) of Inl e \<Rightarrow> Err e
          | Inr ep \<Rightarrow> Ok (Announce ep (parse_string (field 2)) (parse_string (field 3))))
      else Err Wrong_shape)"

definition message_decode :: "bytes \<Rightarrow> (decode_error, message \<times> nat) result" where
  "message_decode bs =
     (case parse_command_borrowed bs of
        Inl _ \<Rightarrow> Err Bad
      | Inr None \<Rightarrow> Err Truncated
      | Inr (Some (a, used)) \<Rightarrow>
        (case borrowed_first a of None \<Rightarrow> Err Wrong_shape
         | Some verb \<Rightarrow> (case parse_argv_for_verb verb a of Inl e \<Rightarrow> Err e | Inr msg \<Rightarrow> Ok (msg, used))))"

section \<open>A message is a command\<close>

fun message_fields :: "message \<Rightarrow> bytes list" where
  "message_fields (Hb ep nid r offset) = [ascii ''HB'', dec_digits ep, nid, role_as_str r, dec_digits offset]"
| "message_fields (Offer ep c offset) = [ascii ''OFFER'', dec_digits ep, c, dec_digits offset]"
| "message_fields (Accept ep a) = [ascii ''ACCEPT'', dec_digits ep, a]"
| "message_fields (Announce ep p addr) = [ascii ''ANNOUNCE'', dec_digits ep, p, addr]"

fun message_wf :: "message \<Rightarrow> bool" where
  "message_wf (Hb ep nid r offset) = (ep \<le> u64_max \<and> offset \<le> u64_max \<and> utf8_valid nid)"
| "message_wf (Offer ep c offset) = (ep \<le> u64_max \<and> offset \<le> u64_max \<and> utf8_valid c)"
| "message_wf (Accept ep a) = (ep \<le> u64_max \<and> utf8_valid a)"
| "message_wf (Announce ep p addr) = (ep \<le> u64_max \<and> utf8_valid p \<and> utf8_valid addr)"

lemma message_encode_command: "message_encode m = encode_command [] (message_fields m)"
  by (cases m) (simp_all add: encode_command_frame push_bulk_def push_bulk_array_def bulk_frame_def,
    simp_all add: eval_nat_numeral)

lemma dec_digits_utf8 [simp]: "utf8_valid (dec_digits n)"
proof -
  have "list_all is_digit ds \<Longrightarrow> utf8_valid ds" for ds
  proof (induction ds)
    case (Cons d ds)
    then have "d \<le> 57" "utf8_valid ds" by (simp_all add: is_digit_def)
    moreover from this(1) have "d < 0x80" by (rule le_less_trans) simp
    ultimately show ?case by simp
  qed simp
  then show ?thesis by simp
qed

lemma wire_parse_u64_dec [simp]: "n \<le> u64_max \<Longrightarrow> wire_parse_u64 (dec_digits n) = Ok n"
  by (simp add: wire_parse_u64_def)

lemma role_parse_str [simp]: "role_parse (role_as_str r) = Some r"
  by (cases r) (simp_all add: role_parse_def eq_ignore_ascii_case_def ascii_def ascii_lower_def)

lemma verbs:
  "eq_ignore_ascii_case (ascii ''HB'') (ascii ''HB'')"
  "eq_ignore_ascii_case (ascii ''OFFER'') (ascii ''OFFER'')" "\<not> eq_ignore_ascii_case (ascii ''OFFER'') (ascii ''HB'')"
  "eq_ignore_ascii_case (ascii ''ACCEPT'') (ascii ''ACCEPT'')" "\<not> eq_ignore_ascii_case (ascii ''ACCEPT'') (ascii ''HB'')"
  "\<not> eq_ignore_ascii_case (ascii ''ACCEPT'') (ascii ''OFFER'')"
  "eq_ignore_ascii_case (ascii ''ANNOUNCE'') (ascii ''ANNOUNCE'')" "\<not> eq_ignore_ascii_case (ascii ''ANNOUNCE'') (ascii ''HB'')"
  "\<not> eq_ignore_ascii_case (ascii ''ANNOUNCE'') (ascii ''OFFER'')" "\<not> eq_ignore_ascii_case (ascii ''ANNOUNCE'') (ascii ''ACCEPT'')"
  by (simp_all add: eq_ignore_ascii_case_def ascii_def ascii_lower_def)

lemma borrowed_fields:
  assumes "borrowed_list a = fs"
  shows "borrowed_len a = length fs" "i < length fs \<Longrightarrow> borrowed_get a i = Some (fs ! i)"
  using borrowed.vlist_length [of a] borrowed.vget_vlist [of a i] assms
  by (simp_all add: borrowed_list_view nth_opt_def)

lemma parse_argv_fields:
  assumes "borrowed_list a = message_fields m" "message_wf m"
  shows "parse_argv_for_verb (hd (message_fields m)) a = Ok m"
  using borrowed_fields [OF assms(1)] assms(2)
  by (cases m) (simp_all add: parse_argv_for_verb_def verbs parse_string_def from_utf8_lossy_valid Let_def)

lemma message_sendable:
  assumes "length (message_encode m) < 536870912"
  shows "sendable (message_fields m)"
proof -
  have "length f \<le> length (concat (map bulk_frame fs))" if "f \<in> set fs" for f fs
    using that by (induction fs) (auto simp: bulk_frame_def)
  then have "length f \<le> length (message_encode m)" if "f \<in> set (message_fields m)" for f
    using that by (fastforce simp: message_encode_command encode_command_frame)
  then have "length f \<le> max_bulk_len" if "f \<in> set (message_fields m)" for f
    using that assms by (force simp: max_bulk_len_def)
  moreover have "message_fields m \<noteq> [] \<and> length (message_fields m) \<le> max_multibulk_len"
    by (cases m) (simp_all add: max_multibulk_len_def)
  ultimately show ?thesis by (simp add: sendable_def list_all_iff)
qed

section \<open>Properties\<close>

text \<open>
  C27: an election message with \<open>u64\<close> numbers and UTF-8 ids, encoded and followed by
  arbitrary bytes, decodes to itself and to the length of its encoding; an encoding cut
  short is reported as truncated.
\<close>

theorem message_roundtrip:
  assumes "message_wf m" "length (message_encode m @ rest) < 536870912"
  shows "message_decode (message_encode m @ rest) = Ok (m, length (message_encode m)) \<and>
    (\<forall>bs ms. message_encode m = bs @ ms \<and> ms \<noteq> [] \<longrightarrow> message_decode bs = Err Truncated)"
proof -
  have s: "sendable (message_fields m)" using assms(2) by (intro message_sendable) simp
  have len: "length (message_encode m @ rest) < 4294967296" using assms(2) by simp
  from borrowed_encoded [OF s len [unfolded message_encode_command]] obtain a where
    a: "parse_command_borrowed (message_encode m @ rest) = Ok (Some (a, length (message_encode m)))"
    "borrowed_list a = message_fields m" by (auto simp: message_encode_command)
  have "borrowed_first a = Some (hd (message_fields m))"
    using borrowed_fields(2) [OF a(2), of 0] by (cases m) (simp_all add: borrowed_first_def)
  with a parse_argv_fields [OF a(2) assms(1)]
  have "message_decode (message_encode m @ rest) = Ok (m, length (message_encode m))"
    by (simp add: message_decode_def)
  moreover have "message_decode bs = Err Truncated" if "message_encode m = bs @ ms" "ms \<noteq> []" for bs ms
    using borrowed_partial [OF s _ that(2), of bs] that len by (simp add: message_encode_command message_decode_def)
  ultimately show ?thesis by blast
qed

theorem message_roundtrip_witness:
  "message_wf (Offer 7 [97] 3) \<and>
   message_decode (message_encode (Offer 7 [97] 3) @ [42]) = Ok (Offer 7 [97] 3, length (message_encode (Offer 7 [97] 3)))"
  using message_roundtrip [of "Offer 7 [97] 3" "[42]"]
  by (simp add: u64_max_def message_encode_command encode_command_frame bulk_frame_def dec_digits.simps)

end
