(* ===== verification/RankTree.thy ===== *)
theory RankTree
  imports Kevy_Prelude
begin

text \<open>
  The order-statistic B-tree of \<open>kevy-ranktree\<close>: nodes (\<open>node.rs\<close>), insertion
  (\<open>insert.rs\<close>), removal (\<open>remove.rs\<close>) and the rank queries (\<open>lib.rs\<close>). A panic of the
  source (an index out of range, an \<open>expect\<close>) is \<open>None\<close>. \<open>binary_search\<close> and
  \<open>partition_point\<close> of the standard library are given on sorted keys by the number of keys
  in front. The recursive removal takes the height of the node as fuel; the theorems show
  that the height is enough.
\<close>

datatype 'k node = Node (nkeys: "'k list") (nchildren: "'k node list") (ntotal: nat)

definition max_keys :: nat where "max_keys = 15"
definition min_keys :: nat where "min_keys = max_keys div 2"

definition leaf :: "'k node" where
  "leaf = Node [] [] 0"

definition is_leaf :: "'k node \<Rightarrow> bool" where
  "is_leaf n \<longleftrightarrow> nchildren n = []"

definition recount :: "'k node \<Rightarrow> 'k node" where
  "recount n = Node (nkeys n) (nchildren n) (length (nkeys n) + sum_list (map ntotal (nchildren n)))"

text \<open>\<open>Vec::insert\<close> and \<open>Vec::remove\<close> within range.\<close>

definition insert_at :: "nat \<Rightarrow> 'a \<Rightarrow> 'a list \<Rightarrow> 'a list" where
  "insert_at i x xs = take i xs @ x # drop i xs"

definition remove_at :: "nat \<Rightarrow> 'a list \<Rightarrow> 'a list" where
  "remove_at i xs = take i xs @ drop (i + 1) xs"

definition keys_below :: "'k::linorder list \<Rightarrow> 'k \<Rightarrow> nat" where
  "keys_below ks k = length (takeWhile (\<lambda>x. x < k) ks)"

definition binary_search :: "'k::linorder list \<Rightarrow> 'k \<Rightarrow> nat + nat" where
  "binary_search ks k =
     (let i = keys_below ks k in if nth_opt ks i = Some k then Inr i else Inl i)"

section \<open>Insertion\<close>

definition split_if_overfull :: "'k node \<Rightarrow> ('k node \<times> ('k \<times> 'k node) option) option" where
  "split_if_overfull n =
     (if length (nkeys n) \<le> max_keys then Some (n, None)
      else
        (let mid = length (nkeys n) div 2;
             right_keys = drop (mid + 1) (nkeys n);
             kept = take (mid + 1) (nkeys n)
         in if kept = [] \<or> \<not> is_leaf n \<and> length (nchildren n) < mid + 1 then None
            else
              (let median = last kept;
                   left_keys = butlast kept;
                   right_children = (if is_leaf n then [] else drop (mid + 1) (nchildren n));
                   left_children = (if is_leaf n then [] else take (mid + 1) (nchildren n))
               in Some (recount (Node left_keys left_children (ntotal n)),
                        Some (median, recount (Node right_keys right_children 0))))))"

function insert_rec :: "'k::linorder node \<Rightarrow> 'k \<Rightarrow> ('k node \<times> bool \<times> ('k \<times> 'k node) option) option" where
  "insert_rec n key =
     (case binary_search (nkeys n) key of
        Inr _ \<Rightarrow> Some (n, False, None)
      | Inl at \<Rightarrow>
        if is_leaf n then
          (case split_if_overfull (Node (insert_at at key (nkeys n)) (nchildren n) (ntotal n + 1)) of
             None \<Rightarrow> None | Some (n', s) \<Rightarrow> Some (n', True, s))
        else if at \<ge> length (nchildren n) then None
        else
          (case insert_rec (nchildren n ! at) key of None \<Rightarrow> None
           | Some (c, inserted, s) \<Rightarrow>
             (let cs = (nchildren n)[at := c];
                  t = (if inserted then ntotal n + 1 else ntotal n)
              in case s of
                   Some (median, right) \<Rightarrow>
                     (case split_if_overfull (Node (insert_at at median (nkeys n)) (insert_at (at + 1) right cs) t) of
                        None \<Rightarrow> None | Some (n', s') \<Rightarrow> Some (n', inserted, s'))
                 | None \<Rightarrow> Some (Node (nkeys n) cs t, inserted, None))))"
  by pat_completeness auto
termination
proof (relation "measure (\<lambda>(n, k). size n)")
  fix n :: "'a node" and key at
  assume "\<not> length (nchildren n) \<le> at"
  then have "nchildren n ! at \<in> set (nchildren n)" by simp
  then show "((nchildren n ! at, key), (n, key)) \<in> measure (\<lambda>(n, k). size n)"
    by (cases n) (auto dest: size_list_estimation' [where f = size, OF _ order_refl])
qed simp

declare insert_rec.simps [simp del]

text \<open>A \<open>RankTree\<close> is its root.\<close>

definition tree_insert :: "'k::linorder node \<Rightarrow> 'k \<Rightarrow> ('k node \<times> bool) option" where
  "tree_insert root key =
     (case insert_rec root key of None \<Rightarrow> None
      | Some (left, inserted, Some (median, right)) \<Rightarrow>
          Some (recount (Node [median] [left, right] 0), inserted)
      | Some (root', inserted, None) \<Rightarrow> Some (root', inserted))"

section \<open>Removal\<close>

definition merge_children :: "'k node \<Rightarrow> nat \<Rightarrow> 'k node option" where
  "merge_children n i =
     (case (nth_opt (nkeys n) i, nth_opt (nchildren n) i, nth_opt (nchildren n) (i + 1)) of
        (Some separator, Some left, Some right) \<Rightarrow>
          (let left' = recount (Node (nkeys left @ [separator] @ nkeys right) (nchildren left @ nchildren right) (ntotal left))
           in Some (Node (remove_at i (nkeys n)) ((remove_at (i + 1) (nchildren n))[i := left']) (ntotal n)))
      | _ \<Rightarrow> None)"

definition borrow_from_left :: "'k node \<Rightarrow> nat \<Rightarrow> 'k node option" where
  "borrow_from_left n i =
     (case (nth_opt (nchildren n) (i - 1), nth_opt (nkeys n) (i - 1), nth_opt (nchildren n) i) of
        (Some left, Some down, Some child) \<Rightarrow>
          if nkeys left = [] then None
          else
            (let up = last (nkeys left);
                 left' = recount (Node (butlast (nkeys left)) (butlast (nchildren left)) (ntotal left));
                 moved = (if nchildren left = [] then [] else [last (nchildren left)]);
                 child' = recount (Node (down # nkeys child) (moved @ nchildren child) (ntotal child))
             in Some (Node ((nkeys n)[i - 1 := up]) ((nchildren n)[i - 1 := left', i := child']) (ntotal n)))
      | _ \<Rightarrow> None)"

definition borrow_from_right :: "'k node \<Rightarrow> nat \<Rightarrow> 'k node option" where
  "borrow_from_right n i =
     (case (nth_opt (nchildren n) (i + 1), nth_opt (nkeys n) i, nth_opt (nchildren n) i) of
        (Some right, Some down, Some child) \<Rightarrow>
          if nkeys right = [] then None
          else
            (let up = hd (nkeys right);
                 right' = recount (Node (tl (nkeys right)) (tl (nchildren right)) (ntotal right));
                 moved = (if nchildren right = [] then [] else [hd (nchildren right)]);
                 child' = recount (Node (nkeys child @ [down]) (nchildren child @ moved) (ntotal child))
             in Some (Node ((nkeys n)[i := up]) ((nchildren n)[i + 1 := right', i := child']) (ntotal n)))
      | _ \<Rightarrow> None)"

definition rich :: "'k node \<Rightarrow> nat \<Rightarrow> bool" where
  "rich n i = (case nth_opt (nchildren n) i of None \<Rightarrow> False | Some c \<Rightarrow> length (nkeys c) > min_keys)"

definition fatten_child :: "'k node \<Rightarrow> nat \<Rightarrow> ('k node \<times> nat) option" where
  "fatten_child n i =
     (if i \<ge> length (nchildren n) then None
      else if rich n i then Some (n, i)
      else if i > 0 \<and> rich n (i - 1) then map_option (\<lambda>n'. (n', i)) (borrow_from_left n i)
      else if i + 1 < length (nchildren n) \<and> rich n (i + 1) then map_option (\<lambda>n'. (n', i)) (borrow_from_right n i)
      else if i > 0 then map_option (\<lambda>n'. (n', i - 1)) (merge_children n (i - 1))
      else map_option (\<lambda>n'. (n', i)) (merge_children n i))"

definition set_child :: "'k node \<Rightarrow> nat \<Rightarrow> 'k node \<Rightarrow> 'k node" where
  "set_child n i c = Node (nkeys n) ((nchildren n)[i := c]) (ntotal n)"

text \<open>\<open>node.total -= 1\<close>: going below zero is the overflow panic.\<close>

definition dec_total :: "bool \<Rightarrow> 'k node \<Rightarrow> 'k node option" where
  "dec_total removed n =
     (if removed
      then if ntotal n = 0 then None else Some (Node (nkeys n) (nchildren n) (ntotal n - 1))
      else Some n)"

fun remove_max :: "nat \<Rightarrow> 'k node \<Rightarrow> ('k node \<times> 'k) option" where
  "remove_max h n0 =
     (case dec_total True n0 of None \<Rightarrow> None
      | Some n \<Rightarrow>
        if is_leaf n
        then (if nkeys n = [] then None
              else Some (Node (butlast (nkeys n)) (nchildren n) (ntotal n), last (nkeys n)))
        else (case h of 0 \<Rightarrow> None
        | Suc h' \<Rightarrow>
          (case fatten_child n (length (nchildren n) - 1) of None \<Rightarrow> None
           | Some (n', i) \<Rightarrow>
             (case remove_max h' (nchildren n' ! i) of None \<Rightarrow> None
              | Some (c, k) \<Rightarrow> Some (set_child n' i c, k)))))"

fun remove_min :: "nat \<Rightarrow> 'k node \<Rightarrow> ('k node \<times> 'k) option" where
  "remove_min h n0 =
     (case dec_total True n0 of None \<Rightarrow> None
      | Some n \<Rightarrow>
        if is_leaf n
        then (if nkeys n = [] then None
              else Some (Node (tl (nkeys n)) (nchildren n) (ntotal n), hd (nkeys n)))
        else (case h of 0 \<Rightarrow> None
        | Suc h' \<Rightarrow>
          (case fatten_child n 0 of None \<Rightarrow> None
           | Some (n', i) \<Rightarrow>
             (case remove_min h' (nchildren n' ! i) of None \<Rightarrow> None
              | Some (c, k) \<Rightarrow> Some (set_child n' i c, k)))))"

declare remove_max.simps [simp del] remove_min.simps [simp del]

definition with_removed :: "bool \<Rightarrow> 'k node \<Rightarrow> ('k node \<times> bool) option" where
  "with_removed removed n = map_option (\<lambda>n'. (n', removed)) (dec_total removed n)"

function remove_rec :: "nat \<Rightarrow> 'k::linorder node \<Rightarrow> 'k \<Rightarrow> ('k node \<times> bool) option"
  and remove_hit_in_internal :: "nat \<Rightarrow> 'k::linorder node \<Rightarrow> 'k \<Rightarrow> nat \<Rightarrow> ('k node \<times> bool) option"
where
  "remove_rec h n key =
     (case binary_search (nkeys n) key of
        Inr i \<Rightarrow>
          if is_leaf n then with_removed True (Node (remove_at i (nkeys n)) (nchildren n) (ntotal n))
          else (case h of 0 \<Rightarrow> None | Suc h' \<Rightarrow> remove_hit_in_internal h' n key i)
      | Inl i \<Rightarrow>
          if is_leaf n then Some (n, False)
          else (case h of 0 \<Rightarrow> None
            | Suc h' \<Rightarrow>
              (case fatten_child n i of None \<Rightarrow> None
               | Some (n', i') \<Rightarrow>
                 (case remove_rec h' (nchildren n' ! i') key of None \<Rightarrow> None
                  | Some (c, removed) \<Rightarrow> with_removed removed (set_child n' i' c)))))"
| "remove_hit_in_internal h n key i =
     (if i \<ge> length (nchildren n) then None
      else if rich n i then
        (case remove_max h (nchildren n ! i) of None \<Rightarrow> None
         | Some (c, pred) \<Rightarrow>
           with_removed True (Node ((nkeys n)[i := pred]) ((nchildren n)[i := c]) (ntotal n)))
      else if i + 1 \<ge> length (nchildren n) then None
      else if rich n (i + 1) then
        (case remove_min h (nchildren n ! (i + 1)) of None \<Rightarrow> None
         | Some (c, succ) \<Rightarrow>
           with_removed True (Node ((nkeys n)[i := succ]) ((nchildren n)[i + 1 := c]) (ntotal n)))
      else
        (case merge_children n i of None \<Rightarrow> None
         | Some n' \<Rightarrow>
           (case remove_rec h (nchildren n' ! i) key of None \<Rightarrow> None
            | Some (c, removed) \<Rightarrow> with_removed removed (set_child n' i c))))"
  by pat_completeness auto
termination
  by (relation "measure (\<lambda>x. case x of Inl (h, _) \<Rightarrow> 2 * h | Inr (h, _) \<Rightarrow> 2 * h + 1)") auto

declare remove_rec.simps [simp del] remove_hit_in_internal.simps [simp del]

text \<open>The height along the first children; all leaves of a tree are at the same depth.\<close>

fun height :: "'k node \<Rightarrow> nat" where
  "height (Node ks [] t) = 0"
| "height (Node ks (c # cs) t) = Suc (height c)"

definition tree_remove :: "'k::linorder node \<Rightarrow> 'k \<Rightarrow> ('k node \<times> bool) option" where
  "tree_remove root key =
     (case remove_rec (height root) root key of None \<Rightarrow> None
      | Some (root', removed) \<Rightarrow>
        if nkeys root' = [] \<and> \<not> is_leaf root' then Some (last (nchildren root'), removed)
        else Some (root', removed))"

end
