(* ===== verification/RankTree_Insert.thy ===== *)
theory RankTree_Insert
  imports RankTree
begin

text \<open>
  The abstraction of a node to its keys in order, the shape invariant of the tree, and the
  correctness of insertion against insertion into a strictly sorted list.
\<close>

named_theorems rank_tree

section \<open>Keys in order\<close>

fun weave :: "'a list list \<Rightarrow> 'a list \<Rightarrow> 'a list" where
  "weave [] ks = ks"
| "weave (c # cs) [] = c @ concat cs"
| "weave (c # cs) (k # ks) = c @ k # weave cs ks"

fun inorder :: "'k node \<Rightarrow> 'k list" where
  "inorder (Node ks cs t) = weave (map inorder cs) ks"

text \<open>What a node holds in front of its child \<open>i\<close>, and behind it.\<close>

fun front :: "nat \<Rightarrow> 'a list list \<Rightarrow> 'a list \<Rightarrow> 'a list" where
  "front (Suc i) (c # cs) (k # ks) = c @ k # front i cs ks"
| "front _ _ _ = []"

fun behind :: "'a list list \<Rightarrow> 'a list \<Rightarrow> 'a list" where
  "behind (c # cs) (k # ks) = k # c @ behind cs ks"
| "behind _ _ = []"

lemma weave_behind: "length cs = length ks \<Longrightarrow> weave (c # cs) ks = c @ behind cs ks"
proof (induction ks arbitrary: c cs)
  case (Cons k ks)
  then show ?case by (cases cs) auto
qed simp

lemma weave_at:
  "length cs = Suc (length ks) \<Longrightarrow> i \<le> length ks \<Longrightarrow>
   weave cs ks = front i cs ks @ cs ! i @ behind (drop (Suc i) cs) (drop i ks)"
proof (induction i arbitrary: cs ks)
  case 0
  then show ?case by (cases cs) (auto simp: weave_behind)
next
  case (Suc i)
  then show ?case by (cases cs; cases ks) auto
qed

lemma front_prefix:
  "front i (take i cs @ ds) (take i ks @ es) = front i cs ks" if "i \<le> length cs" "i \<le> length ks"
  using that by (induction i cs ks rule: front.induct) auto

lemma front_take: "i \<le> length cs \<Longrightarrow> i \<le> length ks \<Longrightarrow> front i (take i cs) (take i ks) = front i cs ks"
  using front_prefix [of i cs ks "[]" "[]"] by simp

lemma front_update: "i \<le> j \<Longrightarrow> front i (cs[j := c]) ks = front i cs ks"
  by (induction i cs ks arbitrary: j rule: front.induct) (auto split: nat.split)

lemma front_Suc:
  "i < length cs \<Longrightarrow> i < length ks \<Longrightarrow> front (Suc i) cs ks = front i cs ks @ cs ! i @ [ks ! i]"
proof (induction i arbitrary: cs ks)
  case 0
  then show ?case by (cases cs; cases ks) auto
next
  case (Suc i)
  then show ?case by (cases cs; cases ks) auto
qed

lemma behind_drop:
  "i < length ks \<Longrightarrow> Suc i < length cs \<Longrightarrow>
   behind (drop (Suc i) cs) (drop i ks) = ks ! i # cs ! Suc i @ behind (drop (Suc (Suc i)) cs) (drop (Suc i) ks)"
  by (simp add: Cons_nth_drop_Suc [symmetric])

section \<open>Shape\<close>

text \<open>\<open>shaped h n\<close>: all leaves of \<open>n\<close> are at depth \<open>h\<close>, no node is overfull, only \<open>n\<close>
  itself may have fewer than the minimum of keys, and every total counts its keys.\<close>

fun shaped :: "nat \<Rightarrow> 'k node \<Rightarrow> bool" where
  "shaped 0 (Node ks cs t) \<longleftrightarrow> cs = [] \<and> t = length ks \<and> length ks \<le> max_keys"
| "shaped (Suc h) (Node ks cs t) \<longleftrightarrow>
     length cs = Suc (length ks) \<and> length ks \<le> max_keys \<and>
     t = length ks + sum_list (map ntotal cs) \<and>
     (\<forall>c \<in> set cs. shaped h c \<and> min_keys \<le> length (nkeys c))"

lemma shaped_le: "shaped h n \<Longrightarrow> length (nkeys n) \<le> max_keys"
  by (cases "(h, n)" rule: shaped.cases) auto

lemma weave_length: "length cs = Suc (length ks) \<Longrightarrow> length (weave cs ks) = length ks + sum_list (map length cs)"
  by (induction cs ks rule: weave.induct) (auto simp: length_concat)

lemma shaped_total: "shaped h n \<Longrightarrow> ntotal n = length (inorder n)"
proof (induction h n rule: shaped.induct)
  case (2 h ks cs t)
  then have "map ntotal cs = map length (map inorder cs)" by auto
  then show ?case using 2 by (simp add: weave_length del: map_map)
qed auto

lemma shaped_leaf: "shaped h n \<Longrightarrow> is_leaf n \<longleftrightarrow> h = 0"
  by (cases "(h, n)" rule: shaped.cases) (auto simp: is_leaf_def)

lemma shaped_height: "shaped h n \<Longrightarrow> height n = h"
proof (induction h n rule: shaped.induct)
  case (2 h ks cs t)
  then show ?case by (cases cs) auto
qed auto

section \<open>Sorted lists\<close>

abbreviation ascending :: "'k::linorder list \<Rightarrow> bool" where
  "ascending \<equiv> sorted_wrt (<)"

fun ins_sorted :: "'k::linorder \<Rightarrow> 'k list \<Rightarrow> 'k list" where
  "ins_sorted k [] = [k]"
| "ins_sorted k (x # xs) = (if k < x then k # x # xs else if k = x then x # xs else x # ins_sorted k xs)"

lemma ins_sorted_set: "set (ins_sorted k xs) = insert k (set xs)"
  by (induction xs) auto

lemma ins_sorted_ascending: "ascending xs \<Longrightarrow> ascending (ins_sorted k xs)"
  by (induction xs) (auto simp: ins_sorted_set)

lemma ins_sorted_mem: "ascending xs \<Longrightarrow> k \<in> set xs \<Longrightarrow> ins_sorted k xs = xs"
  by (induction xs) auto

lemma ins_sorted_in:
  "\<forall>x \<in> set xs. x < k \<Longrightarrow> \<forall>z \<in> set zs. k < z \<Longrightarrow> ins_sorted k (xs @ ys @ zs) = xs @ ins_sorted k ys @ zs"
proof (induction xs)
  case Nil
  then show ?case by (induction ys) (cases zs; auto)+
qed auto

lemma weave_keys: "length cs = Suc (length ks) \<or> cs = [] \<Longrightarrow> set ks \<subseteq> set (weave cs ks)"
  by (induction cs ks rule: weave.induct) auto

lemma weave_ascending_keys: "length cs = Suc (length ks) \<or> cs = [] \<Longrightarrow> ascending (weave cs ks) \<Longrightarrow> ascending ks"
proof (induction cs ks rule: weave.induct)
  case (3 c cs k ks)
  then have "length cs = Suc (length ks) \<or> cs = []" by auto
  from 3 this weave_keys [OF this] show ?case by (auto simp: sorted_wrt_append)
qed auto

lemma weave_cut:
  "length cs = Suc (length ks) \<Longrightarrow> m < length ks \<Longrightarrow>
   weave (take (Suc m) cs) (take m ks) @ ks ! m # weave (drop (Suc m) cs) (drop (Suc m) ks) = weave cs ks"
proof (induction m arbitrary: cs ks)
  case 0
  then show ?case by (cases cs; cases ks) auto
next
  case (Suc m)
  then show ?case by (cases cs; cases ks) auto
qed

lemma binary_search_hit:
  "binary_search ks k = Inr i \<Longrightarrow> i < length ks \<and> ks ! i = k"
  by (auto simp: binary_search_def nth_opt_def Let_def split: if_splits)

lemma binary_search_miss:
  assumes "ascending ks" "binary_search ks k = Inl i"
  shows "i \<le> length ks \<and> (\<forall>x \<in> set (take i ks). x < k) \<and> (\<forall>x \<in> set (drop i ks). k < x)"
proof -
  have i: "i = length (takeWhile (\<lambda>x. x < k) ks)" and no: "nth_opt ks i \<noteq> Some k"
    using assms(2) by (auto simp: binary_search_def keys_below_def Let_def split: if_splits)
  have tk: "take i ks = takeWhile (\<lambda>x. x < k) ks" and dr: "drop i ks = dropWhile (\<lambda>x. x < k) ks"
    unfolding i by (simp_all add: takeWhile_eq_take [symmetric] dropWhile_eq_drop [symmetric])
  have "\<forall>x \<in> set (drop i ks). k < x"
  proof (cases "drop i ks")
    case (Cons y ys)
    then have "i < length ks" by (metis drop_eq_Nil list.distinct(1) not_le)
    then have "ks ! i = y" using Cons by (metis hd_drop_conv_nth list.sel(1))
    then have "y \<noteq> k" using no \<open>i < length ks\<close> by (auto simp: nth_opt_def)
    moreover have "\<not> y < k" using Cons dr by (metis dropWhile_eq_Cons_conv)
    moreover have "ascending (y # ys)" using Cons assms(1) by (metis sorted_wrt_drop)
    ultimately show ?thesis unfolding Cons by fastforce
  qed simp
  then show ?thesis using tk i by (auto simp: length_takeWhile_le dest: set_takeWhileD)
qed

lemma front_below:
  assumes "length cs = Suc (length ks)" "i \<le> length ks" "ascending (weave cs ks)" "\<forall>x \<in> set (take i ks). x < k"
  shows "\<forall>x \<in> set (front i cs ks). x < k"
proof (cases i)
  case (Suc j)
  then have f: "front i cs ks = front j cs ks @ cs ! j @ [ks ! j]" using front_Suc [of j cs ks] assms by simp
  have "ks ! j \<in> set (take i ks)" using Suc assms(2) by (auto simp: in_set_conv_nth intro!: exI [of _ j])
  then have "ks ! j < k" using assms(4) by blast
  moreover have "ascending (front i cs ks)" using assms(3) weave_at [OF assms(1,2)] by (simp add: sorted_wrt_append)
  ultimately show ?thesis unfolding f by (fastforce simp: sorted_wrt_append)
qed simp

lemma behind_above:
  assumes "length cs = Suc (length ks)" "i \<le> length ks" "ascending (weave cs ks)" "\<forall>x \<in> set (drop i ks). k < x"
  shows "\<forall>x \<in> set (behind (drop (Suc i) cs) (drop i ks)). k < x"
proof (cases "i = length ks")
  case False
  then have l: "i < length ks" "Suc i < length cs" using assms by auto
  have "ks ! i \<in> set (drop i ks)" using l by (metis Cons_nth_drop_Suc list.set_intros(1))
  then have "k < ks ! i" using assms(4) by blast
  moreover have "ascending (behind (drop (Suc i) cs) (drop i ks))"
    using assms(3) weave_at [OF assms(1,2)] by (simp add: sorted_wrt_append)
  ultimately show ?thesis unfolding behind_drop [OF l] by (auto intro: less_trans)
qed simp

lemma child_ascending:
  assumes "length cs = Suc (length ks)" "i \<le> length ks" "ascending (weave cs ks)"
  shows "ascending (cs ! i)"
  using assms(3) weave_at [OF assms(1,2)] by (simp add: sorted_wrt_append)

section \<open>Splitting\<close>

text \<open>A node that may be one key too long, as insertion leaves it before the split.\<close>

fun loose :: "nat \<Rightarrow> 'k node \<Rightarrow> bool" where
  "loose 0 (Node ks cs t) \<longleftrightarrow> cs = [] \<and> t = length ks \<and> length ks \<le> Suc max_keys"
| "loose (Suc h) (Node ks cs t) \<longleftrightarrow>
     length cs = Suc (length ks) \<and> length ks \<le> Suc max_keys \<and>
     t = length ks + sum_list (map ntotal cs) \<and>
     (\<forall>c \<in> set cs. shaped h c \<and> min_keys \<le> length (nkeys c))"

text \<open>A node and what was split off it hold the keys \<open>xs\<close>.\<close>

definition holds :: "nat \<Rightarrow> 'k node \<Rightarrow> ('k \<times> 'k node) option \<Rightarrow> 'k list \<Rightarrow> bool" where
  "holds h n s xs =
     (case s of None \<Rightarrow> shaped h n \<and> inorder n = xs
      | Some (m, r) \<Rightarrow> shaped h n \<and> shaped h r \<and> min_keys \<le> length (nkeys n) \<and> min_keys \<le> length (nkeys r) \<and>
          inorder n @ m # inorder r = xs)"

lemma loose_shaped: "loose h n \<Longrightarrow> length (nkeys n) \<le> max_keys \<Longrightarrow> shaped h n"
  by (cases "(h, n)" rule: loose.cases) auto

lemma split_holds:
  assumes "loose h n"
  shows "\<exists>n' s. split_if_overfull n = Some (n', s) \<and> holds h n' s (inorder n) \<and>
           min (length (nkeys n)) min_keys \<le> length (nkeys n')"
proof (cases "length (nkeys n) \<le> max_keys")
  case True
  then show ?thesis using loose_shaped [OF assms] by (simp add: split_if_overfull_def holds_def)
next
  case False
  obtain ks cs t where n: "n = Node ks cs t" by (cases n)
  have len: "length ks = 16"
    using assms False n by (cases "(h, n)" rule: loose.cases) (auto simp: max_keys_def)
  have "take 9 ks = take 8 ks @ [ks ! 8]" using take_Suc_conv_app_nth [of 8 ks] len by simp
  then have kept: "take 9 ks \<noteq> []" "last (take 9 ks) = ks ! 8" "butlast (take 9 ks) = take 8 ks" by simp_all
  show ?thesis
  proof (cases h)
    case 0
    then have "cs = []" using assms n by simp
    then show ?thesis
      using 0 len kept id_take_nth_drop [of 8 ks]
      by (simp add: n split_if_overfull_def max_keys_def min_keys_def holds_def is_leaf_def recount_def Let_def)
  next
    case (Suc h')
    then have c: "length cs = 17" "cs \<noteq> []" "\<forall>c \<in> set cs. shaped h' c \<and> min_keys \<le> length (nkeys c)"
      using assms n len by auto
    have "weave (take 9 (map inorder cs)) (take 8 ks) @ ks ! 8 # weave (drop 9 (map inorder cs)) (drop 9 ks)
       = weave (map inorder cs) ks"
      using weave_cut [of "map inorder cs" ks 8] len c(1) by simp
    then show ?thesis
      using Suc len kept c
      by (auto simp: n split_if_overfull_def max_keys_def min_keys_def holds_def is_leaf_def recount_def Let_def
          take_map drop_map dest: in_set_takeD in_set_dropD)
  qed
qed

section \<open>Insertion\<close>

lemma weave_set_child:
  assumes "length cs = Suc (length ks)" "i \<le> length ks"
  shows "weave (map f (cs[i := c])) ks = front i (map f cs) ks @ f c @ behind (drop (Suc i) (map f cs)) (drop i ks)"
  using assms weave_at [of "map f (cs[i := c])" ks i] by (simp add: map_update front_update)

lemma weave_insert_child:
  assumes "length cs = Suc (length ks)" "i \<le> length ks"
  shows "weave (map f (insert_at (i + 1) r (cs[i := c]))) (insert_at i m ks)
       = front i (map f cs) ks @ (f c @ m # f r) @ behind (drop (Suc i) (map f cs)) (drop i ks)"
  using assms
proof (induction i arbitrary: cs ks)
  case 0
  then show ?case by (cases cs) (auto simp: insert_at_def weave_behind)
next
  case (Suc i)
  then show ?case by (cases cs; cases ks) (auto simp: insert_at_def)
qed

lemma sum_list_insert_at: "sum_list (insert_at i (x::nat) xs) = x + sum_list xs"
  by (metis insert_at_def add.left_commute append_take_drop_id sum_list.Cons sum_list_append)

lemma map_insert_at: "map f (insert_at i x xs) = insert_at i (f x) (map f xs)"
  by (simp add: insert_at_def take_map drop_map)

lemma set_insert_at: "set (insert_at i x xs) = insert x (set xs)"
  by (metis insert_at_def Un_insert_right append_take_drop_id list.simps(15) set_append)

lemma length_insert_at [simp]: "length (insert_at i x xs) = Suc (length xs)"
  by (simp add: insert_at_def)

lemma sum_list_update_child:
  "i < length cs \<Longrightarrow> sum_list (map (f :: _ \<Rightarrow> nat) (cs[i := c])) + f (cs ! i) = sum_list (map f cs) + f c"
  by (induction cs arbitrary: i) (auto split: nat.split)

lemma ins_sorted_length:
  "ascending xs \<Longrightarrow> length (ins_sorted k xs) = length xs + (if k \<in> set xs then 0 else 1)"
  by (induction xs) auto

text \<open>What \<open>insert_rec\<close> promises for a node of height \<open>h\<close>.\<close>

definition inserts :: "nat \<Rightarrow> 'k::linorder node \<Rightarrow> 'k \<Rightarrow> 'k node \<Rightarrow> bool \<Rightarrow> ('k \<times> 'k node) option \<Rightarrow> bool" where
  "inserts h n k n' b s \<longleftrightarrow>
     b = (k \<notin> set (inorder n)) \<and> holds h n' s (ins_sorted k (inorder n)) \<and>
     min (length (nkeys n)) min_keys \<le> length (nkeys n')"

lemma insert_hit:
  assumes "shaped h n" "ascending (inorder n)" "binary_search (nkeys n) k = Inr i"
  shows "insert_rec n k = Some (n, False, None) \<and> inserts h n k n False None"
proof -
  obtain ks cs t where n: "n = Node ks cs t" by (cases n)
  have "length (map inorder cs) = Suc (length ks) \<or> map inorder cs = []"
    using assms(1) n by (cases h) auto
  then have "k \<in> set (inorder n)"
    using binary_search_hit [OF assms(3)] weave_keys n by (metis inorder.simps node.sel(1) nth_mem subsetD)
  then show ?thesis
    using assms by (simp add: insert_rec.simps inserts_def holds_def ins_sorted_mem)
qed

lemma insert_leaf:
  assumes "shaped 0 n" "ascending (inorder n)" "binary_search (nkeys n) k = Inl i"
  shows "\<exists>n' s. insert_rec n k = Some (n', True, s) \<and> inserts 0 n k n' True s"
proof -
  obtain ks where n: "n = Node ks [] (length ks)" and le: "length ks \<le> max_keys"
    using assms(1) by (cases n) auto
  note m = binary_search_miss [of ks k i]
  have at: "i \<le> length ks" "\<forall>x \<in> set (take i ks). x < k" "\<forall>x \<in> set (drop i ks). k < x"
    using m assms n by auto
  have ins: "insert_at i k ks = ins_sorted k ks"
    using ins_sorted_in [OF at(2,3), of "[]"] by (simp add: insert_at_def)
  have fresh: "k \<notin> set ks"
    using at(2,3) by (metis Un_iff append_take_drop_id less_irrefl set_append)
  have len: "length (ins_sorted k ks) = Suc (length ks)" using length_insert_at [of i k ks] ins by simp
  let ?n = "Node (insert_at i k ks) [] (length ks + 1)"
  have "loose 0 ?n" using le by simp
  from split_holds [OF this] obtain n' s where
    sp: "split_if_overfull ?n = Some (n', s)" "holds 0 n' s (inorder ?n)"
      "min (length (nkeys ?n)) min_keys \<le> length (nkeys n')" by blast
  show ?thesis
    using sp assms(3) ins fresh len
    by (auto simp: n insert_rec.simps [of n] insert_rec.simps is_leaf_def inserts_def)
qed

text \<open>The keys of an inner node around its child \<open>i\<close>.\<close>

abbreviation lefts :: "nat \<Rightarrow> 'k node \<Rightarrow> 'k list" where
  "lefts i n \<equiv> front i (map inorder (nchildren n)) (nkeys n)"

abbreviation rights :: "nat \<Rightarrow> 'k node \<Rightarrow> 'k list" where
  "rights i n \<equiv> behind (drop (Suc i) (map inorder (nchildren n))) (drop i (nkeys n))"

lemma inorder_at:
  "shaped (Suc h) n \<Longrightarrow> i \<le> length (nkeys n) \<Longrightarrow> inorder n = lefts i n @ inorder (nchildren n ! i) @ rights i n"
  by (cases n) (use weave_at [of "map inorder (nchildren n)" "nkeys n" i] in simp)

lemma shaped_child:
  "shaped (Suc h) n \<Longrightarrow> i \<le> length (nkeys n) \<Longrightarrow>
   i < length (nchildren n) \<and> shaped h (nchildren n ! i) \<and> min_keys \<le> length (nkeys (nchildren n ! i))"
  by (cases n) auto

lemma replace_child:
  assumes "shaped (Suc h) n" "i \<le> length (nkeys n)" "shaped h c" "min_keys \<le> length (nkeys c)"
    "t + ntotal (nchildren n ! i) = ntotal n + ntotal c"
  shows "shaped (Suc h) (Node (nkeys n) ((nchildren n)[i := c]) t) \<and>
    inorder (Node (nkeys n) ((nchildren n)[i := c]) t) = lefts i n @ inorder c @ rights i n"
proof -
  obtain ks cs u where n: "n = Node ks cs u" by (cases n)
  have "sum_list (map ntotal (cs[i := c])) + ntotal (cs ! i) = sum_list (map ntotal cs) + ntotal c"
    by (rule sum_list_update_child) (use assms n in auto)
  then show ?thesis
    using assms weave_set_child [of cs ks i inorder c] set_update_subset_insert [of cs i c] by (auto simp: n)
qed

lemma split_child:
  assumes "shaped (Suc h) n" "i \<le> length (nkeys n)" "shaped h c" "min_keys \<le> length (nkeys c)"
    "shaped h r" "min_keys \<le> length (nkeys r)"
    "t + ntotal (nchildren n ! i) = ntotal n + Suc (ntotal c + ntotal r)"
  shows "loose (Suc h) (Node (insert_at i m (nkeys n)) (insert_at (i + 1) r ((nchildren n)[i := c])) t) \<and>
    inorder (Node (insert_at i m (nkeys n)) (insert_at (i + 1) r ((nchildren n)[i := c])) t)
      = lefts i n @ (inorder c @ m # inorder r) @ rights i n"
proof -
  obtain ks cs u where n: "n = Node ks cs u" by (cases n)
  have "sum_list (map ntotal (cs[i := c])) + ntotal (cs ! i) = sum_list (map ntotal cs) + ntotal c"
    by (rule sum_list_update_child) (use assms n in auto)
  then show ?thesis
    using assms weave_insert_child [of cs ks i inorder r c m] set_update_subset_insert [of cs i c]
    by (auto simp: n map_insert_at sum_list_insert_at set_insert_at)
qed

lemma sides:
  assumes "shaped (Suc h) n" "ascending (inorder n)" "binary_search (nkeys n) k = Inl i"
  shows "i \<le> length (nkeys n) \<and> (\<forall>x \<in> set (lefts i n). x < k) \<and> (\<forall>x \<in> set (rights i n). k < x) \<and>
         ascending (inorder (nchildren n ! i))"
proof -
  obtain ks cs t where n: "n = Node ks cs t" by (cases n)
  have l: "length (map inorder cs) = Suc (length ks)" and a: "ascending (weave (map inorder cs) ks)"
    using assms n by auto
  have at: "i \<le> length ks" "\<forall>x \<in> set (take i ks). x < k" "\<forall>x \<in> set (drop i ks). k < x"
    using binary_search_miss [of ks k i] assms(3) n weave_ascending_keys [OF _ a] l by auto
  show ?thesis
    using front_below [OF l at(1) a at(2)] behind_above [OF l at(1) a at(3)] child_ascending [OF l at(1) a] at(1) l
    by (simp add: n)
qed

lemma holds_length:
  "holds h n s xs \<Longrightarrow> ntotal n + (case s of None \<Rightarrow> 0 | Some (m, r) \<Rightarrow> Suc (ntotal r)) = length xs"
  by (auto simp: holds_def shaped_total split: option.splits)

lemma insert_child:
  assumes sh: "shaped (Suc h) n" and asc: "ascending (inorder n)" and bs: "binary_search (nkeys n) k = Inl i"
    and rec: "insert_rec (nchildren n ! i) k = Some (c, b, s)" and c: "inserts h (nchildren n ! i) k c b s"
  shows "\<exists>n' s'. insert_rec n k = Some (n', b, s') \<and> inserts (Suc h) n k n' b s'"
proof -
  note sd = sides [OF sh asc bs]
  then have i: "i \<le> length (nkeys n)" by blast
  note ch = shaped_child [OF sh i]
  note whole = inorder_at [OF sh i]
  have ins: "ins_sorted k (inorder n) = lefts i n @ ins_sorted k (inorder (nchildren n ! i)) @ rights i n"
    unfolding whole by (rule ins_sorted_in) (use sd in auto)
  have b: "b = (k \<notin> set (inorder n))" using c sd unfolding whole inserts_def by auto
  have hold: "holds h c s (ins_sorted k (inorder (nchildren n ! i)))" and mk: "min_keys \<le> length (nkeys c)"
    using c ch by (auto simp: inserts_def)
  define t where "t = (if b then ntotal n + 1 else ntotal n)"
  have tot: "t + ntotal (nchildren n ! i) = ntotal n + (ntotal c + (case s of None \<Rightarrow> 0 | Some (m, r) \<Rightarrow> Suc (ntotal r)))"
    unfolding holds_length [OF hold] t_def
    using ins_sorted_length [of "inorder (nchildren n ! i)" k] sd c ch by (auto simp: shaped_total inserts_def)
  have nl: "\<not> is_leaf n" using shaped_leaf [OF sh] by simp
  show ?thesis
  proof (cases s)
    case None
    have "shaped h c" "inorder c = ins_sorted k (inorder (nchildren n ! i))" using hold None by (auto simp: holds_def)
    with replace_child [OF sh i this(1) mk, of t] tot None have
      "inserts (Suc h) n k (Node (nkeys n) ((nchildren n)[i := c]) t) b None"
      using b ins by (simp add: inserts_def holds_def)
    then show ?thesis using None nl ch bs rec by (simp add: insert_rec.simps [of n] t_def)
  next
    case (Some mr)
    obtain m r where s: "s = Some (m, r)" using Some by (cases mr) auto
    let ?n = "Node (insert_at i m (nkeys n)) (insert_at (i + 1) r ((nchildren n)[i := c])) t"
    have "loose (Suc h) ?n \<and> inorder ?n = lefts i n @ (inorder c @ m # inorder r) @ rights i n"
      by (rule split_child [OF sh i]) (use hold tot s mk in \<open>auto simp: holds_def\<close>)
    then have l: "loose (Suc h) ?n" "inorder ?n = ins_sorted k (inorder n)"
      using hold s ins by (auto simp: holds_def)
    from split_holds [OF l(1)] obtain n' s' where
      sp: "split_if_overfull ?n = Some (n', s')" "holds (Suc h) n' s' (inorder ?n)"
        "min (length (nkeys ?n)) min_keys \<le> length (nkeys n')" by blast
    then have "inserts (Suc h) n k n' b s'" using b l(2) by (simp add: inserts_def)
    then show ?thesis using s nl ch bs rec sp(1) by (simp add: insert_rec.simps [of n] t_def)
  qed
qed

lemma insert_rec_inserts:
  "shaped h n \<Longrightarrow> ascending (inorder n) \<Longrightarrow>
   \<exists>n' b s. insert_rec n k = Some (n', b, s) \<and> inserts h n k n' b s"
proof (induction h arbitrary: n)
  case 0
  then show ?case using insert_hit [OF 0] insert_leaf [OF 0] by (cases "binary_search (nkeys n) k") blast+
next
  case (Suc h)
  show ?case
  proof (cases "binary_search (nkeys n) k")
    case (Inl i)
    have "i \<le> length (nkeys n)" "ascending (inorder (nchildren n ! i))" using sides [OF Suc.prems Inl] by auto
    then show ?thesis
      using Suc.IH [of "nchildren n ! i"] shaped_child [OF Suc.prems(1)] insert_child [OF Suc.prems Inl] by blast
  next
    case (Inr i)
    then show ?thesis using insert_hit [OF Suc.prems] by blast
  qed
qed

section \<open>The tree\<close>

definition rank_tree_inv :: "'k::linorder node \<Rightarrow> bool" where
  "rank_tree_inv n \<longleftrightarrow> shaped (height n) n \<and> (is_leaf n \<or> nkeys n \<noteq> []) \<and> ascending (inorder n)"

lemma rank_tree_invI: "shaped h n \<Longrightarrow> is_leaf n \<or> nkeys n \<noteq> [] \<Longrightarrow> ascending (inorder n) \<Longrightarrow> rank_tree_inv n"
  by (simp add: rank_tree_inv_def shaped_height)

lemma rank_tree_inv_leaf: "rank_tree_inv leaf"
  by (simp add: rank_tree_inv_def leaf_def is_leaf_def)

lemma tree_insert_ok:
  assumes "rank_tree_inv t"
  shows "\<exists>t'. tree_insert t k = Some (t', k \<notin> set (inorder t)) \<and> rank_tree_inv t' \<and>
           inorder t' = ins_sorted k (inorder t)"
proof -
  define h where "h = height t"
  have sh: "shaped h t" and asc: "ascending (inorder t)" and ne: "is_leaf t \<or> nkeys t \<noteq> []"
    using assms by (auto simp: rank_tree_inv_def h_def)
  obtain n' b s where r: "insert_rec t k = Some (n', b, s)" and ins: "inserts h t k n' b s"
    using insert_rec_inserts [OF sh asc] by blast
  have asc': "ascending (ins_sorted k (inorder t))" by (rule ins_sorted_ascending [OF asc])
  show ?thesis
  proof (cases s)
    case None
    then have n': "shaped h n'" "inorder n' = ins_sorted k (inorder t)" "b = (k \<notin> set (inorder t))"
      "min (length (nkeys t)) min_keys \<le> length (nkeys n')" using ins by (auto simp: inserts_def holds_def)
    have "is_leaf n' \<or> nkeys n' \<noteq> []"
      using n'(4) ne shaped_leaf [OF sh] shaped_leaf [OF n'(1)]
      by (auto simp: min_keys_def max_keys_def min_def split: if_splits)
    then show ?thesis using None r n' asc' rank_tree_invI [OF n'(1)] by (simp add: tree_insert_def)
  next
    case (Some mr)
    obtain m q where s: "s = Some (m, q)" using Some by (cases mr) auto
    let ?r = "recount (Node [m] [n', q] 0)"
    have h: "shaped h n'" "shaped h q" "min_keys \<le> length (nkeys n')" "min_keys \<le> length (nkeys q)"
      "inorder n' @ m # inorder q = ins_sorted k (inorder t)" "b = (k \<notin> set (inorder t))"
      using ins s by (auto simp: inserts_def holds_def)
    then have "shaped (Suc h) ?r" "inorder ?r = ins_sorted k (inorder t)" by (auto simp: recount_def max_keys_def)
    then show ?thesis
      using r s asc' rank_tree_invI [of "Suc h" ?r] h(6) by (simp add: tree_insert_def recount_def)
  qed
qed

end
