(* ===== verification/RankTree_Remove.thy ===== *)
theory RankTree_Remove
  imports RankTree_Insert
begin

text \<open>
  Removal from the tree against removal from the list of its keys: the rebalancing steps
  keep the keys in order and the shape, and the recursion needs no more than the height.
\<close>

section \<open>Inner nodes\<close>

text \<open>The shape of an inner node over children of height \<open>h\<close>, its own total left open: the
  removals of an extreme key decrement the total before they rebalance.\<close>

definition inner :: "nat \<Rightarrow> 'k node \<Rightarrow> bool" where
  "inner h n \<longleftrightarrow>
     length (nchildren n) = Suc (length (nkeys n)) \<and> length (nkeys n) \<le> max_keys \<and>
     (\<forall>c \<in> set (nchildren n). shaped h c \<and> min_keys \<le> length (nkeys c))"

lemma shaped_inner: "shaped (Suc h) n \<longleftrightarrow> inner h n \<and> ntotal n = length (inorder n)"
proof (cases n)
  case (Node ks cs t)
  have "length (inorder n) = length ks + sum_list (map ntotal cs)" if "inner h n"
  proof -
    have "map ntotal cs = map length (map inorder cs)"
      using that Node shaped_total by (auto simp: inner_def)
    then show ?thesis using that Node by (simp add: inner_def weave_length del: map_map)
  qed
  then show ?thesis using Node by (auto simp: inner_def)
qed

lemma inner_not_leaf: "inner h n \<Longrightarrow> \<not> is_leaf n"
  by (auto simp: inner_def is_leaf_def)

lemma inner_at:
  "inner h n \<Longrightarrow> i \<le> length (nkeys n) \<Longrightarrow> inorder n = lefts i n @ inorder (nchildren n ! i) @ rights i n"
  by (cases n) (use weave_at [of "map inorder (nchildren n)" "nkeys n" i] in \<open>simp add: inner_def\<close>)

lemma inner_child:
  "inner h n \<Longrightarrow> i \<le> length (nkeys n) \<Longrightarrow>
   i < length (nchildren n) \<and> shaped h (nchildren n ! i) \<and> min_keys \<le> length (nkeys (nchildren n ! i))"
  by (auto simp: inner_def)

lemma rich_iff: "i < length (nchildren n) \<Longrightarrow> rich n i \<longleftrightarrow> min_keys < length (nkeys (nchildren n ! i))"
  by (simp add: rich_def nth_opt_def)

lemma inner_set_child:
  assumes "inner h n" "i \<le> length (nkeys n)" "shaped h c" "min_keys \<le> length (nkeys c)"
  shows "inner h (set_child n i c) \<and> inorder (set_child n i c) = lefts i n @ inorder c @ rights i n"
  using assms weave_set_child [of "nchildren n" "nkeys n" i inorder c] set_update_subset_insert [of "nchildren n" i c]
  by (auto simp: inner_def set_child_def)

text \<open>Two neighbouring children and the key between them.\<close>

definition set_two :: "'k node \<Rightarrow> nat \<Rightarrow> 'k node \<Rightarrow> 'k \<Rightarrow> 'k node \<Rightarrow> 'k node" where
  "set_two n i a u b = Node ((nkeys n)[i := u]) ((nchildren n)[i := a, Suc i := b]) (ntotal n)"

lemma weave_two:
  "length cs = Suc (length ks) \<Longrightarrow> i < length ks \<Longrightarrow>
   weave cs ks = front i cs ks @ cs ! i @ ks ! i # cs ! Suc i @ behind (drop (Suc (Suc i)) cs) (drop (Suc i) ks)"
  using weave_at [of cs ks i] behind_drop [of i ks cs] by simp

lemma front_update_key: "i \<le> j \<Longrightarrow> front i cs (ks[j := k]) = front i cs ks"
  by (induction i cs ks arbitrary: j rule: front.induct) (auto split: nat.split)

lemma inner_two_at:
  "inner h n \<Longrightarrow> i < length (nkeys n) \<Longrightarrow>
   inorder n = lefts i n @ inorder (nchildren n ! i) @ nkeys n ! i # inorder (nchildren n ! Suc i) @ rights (Suc i) n \<and>
   lefts (Suc i) n = lefts i n @ inorder (nchildren n ! i) @ [nkeys n ! i] \<and>
   rights i n = nkeys n ! i # inorder (nchildren n ! Suc i) @ rights (Suc i) n"
  using weave_two [of "map inorder (nchildren n)" "nkeys n" i] front_Suc [of i "map inorder (nchildren n)" "nkeys n"]
    behind_drop [of i "nkeys n" "map inorder (nchildren n)"]
  by (cases n) (simp add: inner_def)

lemma inner_set_two:
  assumes "inner h n" "i < length (nkeys n)" "shaped h a" "min_keys \<le> length (nkeys a)"
    "shaped h b" "min_keys \<le> length (nkeys b)"
  shows "inner h (set_two n i a u b) \<and> lefts i (set_two n i a u b) = lefts i n \<and>
    rights (Suc i) (set_two n i a u b) = rights (Suc i) n \<and>
    inorder (set_two n i a u b) = lefts i n @ inorder a @ u # inorder b @ rights (Suc i) n"
proof -
  let ?m = "set_two n i a u b"
  have "inner h ?m"
    using assms set_update_subset_insert [of "(nchildren n)[i := a]" "Suc i" b]
      set_update_subset_insert [of "nchildren n" i a]
    by (auto simp: inner_def set_two_def)
  moreover have "lefts i ?m = lefts i n" by (simp add: set_two_def map_update front_update front_update_key)
  moreover have "rights (Suc i) ?m = rights (Suc i) n" by (simp add: set_two_def map_update)
  ultimately show ?thesis using inner_two_at [of h ?m i] assms by (simp add: set_two_def inner_def)
qed

section \<open>Moving keys between neighbours\<close>

definition moves :: "nat \<Rightarrow> 'k node list \<Rightarrow> bool" where
  "moves h M = (case h of 0 \<Rightarrow> M = [] | Suc h' \<Rightarrow> (\<exists>m. M = [m] \<and> shaped h' m \<and> min_keys \<le> length (nkeys m)))"

lemma weave_append:
  "length cs = Suc (length ks) \<Longrightarrow> ds \<noteq> [] \<Longrightarrow> weave (cs @ ds) (ks @ s # es) = weave cs ks @ s # weave ds es"
proof (induction ks arbitrary: cs)
  case Nil
  then show ?case by (cases cs) auto
next
  case (Cons k ks)
  then show ?case by (cases cs) auto
qed

lemma shaped_recount_0: "shaped 0 (recount (Node ks cs t)) \<longleftrightarrow> cs = [] \<and> length ks \<le> max_keys"
  by (auto simp: recount_def)

lemma shaped_recount_Suc:
  "shaped (Suc h) (recount (Node ks cs t)) \<longleftrightarrow>
   length cs = Suc (length ks) \<and> length ks \<le> max_keys \<and> (\<forall>c \<in> set cs. shaped h c \<and> min_keys \<le> length (nkeys c))"
  by (auto simp: recount_def)

lemma recount_fields [simp]:
  "nkeys (recount n) = nkeys n" "nchildren (recount n) = nchildren n" "inorder (recount n) = inorder n"
  by (cases n; simp add: recount_def)+

lemma pop_last:
  assumes "shaped h (Node ks cs t)" "ks \<noteq> []"
  defines "M \<equiv> if cs = [] then [] else [last cs]"
  shows "shaped h (recount (Node (butlast ks) (butlast cs) t)) \<and> moves h M \<and>
    weave (map inorder cs) ks = weave (map inorder (butlast cs)) (butlast ks) @ last ks # concat (map inorder M)"
proof (cases h)
  case 0
  then show ?thesis using assms by (auto simp: shaped_recount_0 moves_def)
next
  case (Suc h')
  have l: "length cs = Suc (length ks)" "cs \<noteq> []" using assms Suc by auto
  obtain c d where e: "cs = butlast cs @ [d]" "ks = butlast ks @ [last ks]" "d = last cs"
    using l assms(2) by (metis append_butlast_last_id)
  have "weave (map inorder (butlast cs @ [d])) (butlast ks @ [last ks])
      = weave (map inorder (butlast cs)) (butlast ks) @ last ks # inorder d"
    using weave_append [of "map inorder (butlast cs)" "butlast ks" "[inorder d]" "last ks" "[]"] l assms(2) by simp
  then show ?thesis
    using assms Suc l e by (auto simp: shaped_recount_Suc moves_def dest: in_set_butlastD)
qed

lemma push_first:
  assumes "shaped h (Node ks cs t)" "length ks < max_keys" "moves h M"
  shows "shaped h (recount (Node (d # ks) (M @ cs) t)) \<and>
    weave (map inorder (M @ cs)) (d # ks) = concat (map inorder M) @ d # weave (map inorder cs) ks"
  using assms by (cases h) (auto simp: shaped_recount_0 shaped_recount_Suc moves_def)

lemma pop_first:
  assumes "shaped h (Node ks cs t)" "ks \<noteq> []"
  defines "M \<equiv> if cs = [] then [] else [hd cs]"
  shows "shaped h (recount (Node (tl ks) (tl cs) t)) \<and> moves h M \<and>
    weave (map inorder cs) ks = concat (map inorder M) @ hd ks # weave (map inorder (tl cs)) (tl ks)"
proof (cases h)
  case 0
  then show ?thesis using assms by (auto simp: shaped_recount_0 moves_def)
next
  case (Suc h')
  then show ?thesis using assms by (cases cs; cases ks) (auto simp: shaped_recount_Suc moves_def)
qed

lemma push_last:
  assumes "shaped h (Node ks cs t)" "length ks < max_keys" "moves h M"
  shows "shaped h (recount (Node (ks @ [d]) (cs @ M) t)) \<and>
    weave (map inorder (cs @ M)) (ks @ [d]) = weave (map inorder cs) ks @ d # concat (map inorder M)"
proof (cases h)
  case 0
  then show ?thesis using assms by (auto simp: shaped_recount_0 moves_def)
next
  case (Suc h')
  then obtain m where "M = [m]" using assms(3) by (auto simp: moves_def)
  then show ?thesis
    using assms Suc weave_append [of "map inorder cs" ks "[inorder m]" d "[]"]
    by (auto simp: shaped_recount_Suc moves_def)
qed

lemma merged:
  assumes "shaped h (Node ks cs t)" "shaped h (Node es ds u)" "Suc (length ks + length es) \<le> max_keys"
  shows "shaped h (recount (Node (ks @ [s] @ es) (cs @ ds) t)) \<and>
    weave (map inorder (cs @ ds)) (ks @ [s] @ es) = weave (map inorder cs) ks @ s # weave (map inorder ds) es"
proof (cases h)
  case 0
  then show ?thesis using assms by (auto simp: shaped_recount_0)
next
  case (Suc h')
  then have "ds \<noteq> []" using assms(2) by auto
  then show ?thesis
    using Suc assms weave_append [of "map inorder cs" ks "map inorder ds" s es] by (auto simp: shaped_recount_Suc)
qed

section \<open>Rebalancing a child\<close>

definition fattens :: "nat \<Rightarrow> 'k node \<Rightarrow> nat \<Rightarrow> 'k node \<Rightarrow> nat \<Rightarrow> bool" where
  "fattens h n i n' i' \<longleftrightarrow>
     inner h n' \<and> inorder n' = inorder n \<and> ntotal n' = ntotal n \<and> i' \<le> length (nkeys n') \<and>
     min_keys < length (nkeys (nchildren n' ! i')) \<and> length (nkeys n) \<le> Suc (length (nkeys n')) \<and>
     (\<exists>a. lefts i n = lefts i' n' @ a) \<and> (\<exists>b. rights i n = b @ rights i' n')"

lemma borrow_left_ok:
  assumes n: "inner h n" and j: "j < length (nkeys n)" and rich: "min_keys < length (nkeys (nchildren n ! j))"
    and poor: "length (nkeys (nchildren n ! Suc j)) = min_keys"
  shows "\<exists>n'. borrow_from_left n (Suc j) = Some n' \<and> fattens h n (Suc j) n' (Suc j)"
proof -
  obtain ks cs t where l: "nchildren n ! j = Node ks cs t" by (cases "nchildren n ! j")
  obtain es ds u where c: "nchildren n ! Suc j = Node es ds u" by (cases "nchildren n ! Suc j")
  have sl: "shaped h (Node ks cs t)" and sc: "shaped h (Node es ds u)" and len: "Suc j < length (nchildren n)"
    using inner_child [OF n, of j] inner_child [OF n, of "Suc j"] j l c n by (auto simp: inner_def)
  have ne: "ks \<noteq> []" "length es < max_keys" using rich poor l c by (auto simp: min_keys_def max_keys_def)
  define M where "M = (if cs = [] then [] else [last cs])"
  define a where "a = recount (Node (butlast ks) (butlast cs) t)"
  define b where "b = recount (Node (nkeys n ! j # es) (M @ ds) u)"
  have a: "shaped h a" "moves h M" "inorder (Node ks cs t) = inorder a @ last ks # concat (map inorder M)"
    using pop_last [OF sl ne(1)] by (auto simp: a_def M_def)
  have b: "shaped h b" "inorder b = concat (map inorder M) @ nkeys n ! j # inorder (Node es ds u)"
    using push_first [OF sc ne(2) a(2), of "nkeys n ! j"] by (auto simp: b_def)
  have mk: "min_keys \<le> length (nkeys a)" "min_keys < length (nkeys b)" using rich poor l c by (auto simp: a_def b_def)
  let ?n = "set_two n j a (last ks) b"
  have eq: "borrow_from_left n (Suc j) = Some ?n"
    using j len ne(1) l c
    by (simp add: borrow_from_left_def nth_opt_def set_two_def a_def b_def M_def Let_def)
  note two = inner_set_two [OF n j a(1) mk(1) b(1) less_imp_le [OF mk(2)], of "last ks"]
  have kl: "length (nkeys ?n) = length (nkeys n)" "nchildren ?n ! j = a" "nchildren ?n ! Suc j = b" "nkeys ?n ! j = last ks"
    "ntotal ?n = ntotal n" using j len by (auto simp: set_two_def)
  have "lefts (Suc j) n = lefts (Suc j) ?n @ concat (map inorder M) @ [nkeys n ! j]"
    using inner_two_at [OF n j] inner_two_at [of h ?n j] two j kl a(3) l by simp
  then have ex: "\<exists>x. lefts (Suc j) n = lefts (Suc j) ?n @ x" by blast
  have "inorder ?n = inorder n" using two inner_two_at [OF n j] a(3) b(2) l c by simp
  then have "fattens h n (Suc j) ?n (Suc j)"
    unfolding fattens_def using conjunct1 [OF two] two ex kl j mk(2) by simp
  then show ?thesis using eq by blast
qed

lemma borrow_right_ok:
  assumes n: "inner h n" and j: "j < length (nkeys n)" and rich: "min_keys < length (nkeys (nchildren n ! Suc j))"
    and poor: "length (nkeys (nchildren n ! j)) = min_keys"
  shows "\<exists>n'. borrow_from_right n j = Some n' \<and> fattens h n j n' j"
proof -
  obtain es ds u where c: "nchildren n ! j = Node es ds u" by (cases "nchildren n ! j")
  obtain ks cs t where r: "nchildren n ! Suc j = Node ks cs t" by (cases "nchildren n ! Suc j")
  have sc: "shaped h (Node es ds u)" and sr: "shaped h (Node ks cs t)" and len: "Suc j < length (nchildren n)"
    using inner_child [OF n, of j] inner_child [OF n, of "Suc j"] j r c n by (auto simp: inner_def)
  have ne: "ks \<noteq> []" "length es < max_keys" using rich poor r c by (auto simp: min_keys_def max_keys_def)
  define M where "M = (if cs = [] then [] else [hd cs])"
  define b where "b = recount (Node (tl ks) (tl cs) t)"
  define a where "a = recount (Node (es @ [nkeys n ! j]) (ds @ M) u)"
  have b: "shaped h b" "moves h M" "inorder (Node ks cs t) = concat (map inorder M) @ hd ks # inorder b"
    using pop_first [OF sr ne(1)] by (auto simp: b_def M_def)
  have a: "shaped h a" "inorder a = inorder (Node es ds u) @ nkeys n ! j # concat (map inorder M)"
    using push_last [OF sc ne(2) b(2), of "nkeys n ! j"] by (auto simp: a_def)
  have mk: "min_keys < length (nkeys a)" "min_keys \<le> length (nkeys b)" using rich poor r c by (auto simp: a_def b_def)
  let ?n = "set_two n j a (hd ks) b"
  have eq: "borrow_from_right n j = Some ?n"
    using j len ne(1) r c
    by (simp add: borrow_from_right_def nth_opt_def set_two_def a_def b_def M_def Let_def list_update_swap)
  note two = inner_set_two [OF n j a(1) less_imp_le [OF mk(1)] b(1) mk(2), of "hd ks"]
  have kl: "length (nkeys ?n) = length (nkeys n)" "nchildren ?n ! j = a" "nchildren ?n ! Suc j = b" "nkeys ?n ! j = hd ks"
    "ntotal ?n = ntotal n" using j len by (auto simp: set_two_def)
  have "rights j n = (nkeys n ! j # concat (map inorder M)) @ rights j ?n"
    using inner_two_at [OF n j] inner_two_at [of h ?n j] two j kl b(3) r by simp
  then have ex: "\<exists>x. rights j n = x @ rights j ?n" by blast
  have "inorder ?n = inorder n" using two inner_two_at [OF n j] b(3) a(2) r c by simp
  then have "fattens h n j ?n j"
    unfolding fattens_def using conjunct1 [OF two] two ex kl j mk(1) by simp
  then show ?thesis using eq by blast
qed

lemma weave_merge:
  "length cs = Suc (length ks) \<Longrightarrow> j < length ks \<Longrightarrow>
   front j (map f ((remove_at (j + 1) cs)[j := m])) (remove_at j ks) = front j (map f cs) ks \<and>
   drop (Suc j) (map f ((remove_at (j + 1) cs)[j := m])) = drop (Suc (Suc j)) (map f cs) \<and>
   drop j (remove_at j ks) = drop (Suc j) ks"
  using front_prefix [of j "map f cs" ks "f m # drop (Suc (Suc j)) (map f cs)" "drop (Suc j) ks"]
  by (simp add: remove_at_def list_update_append take_map drop_map upd_conv_take_nth_drop min_def take_Suc_conv_app_nth
      list_update_append1)

lemma length_remove_at: "i < length xs \<Longrightarrow> length (remove_at i xs) = length xs - 1"
  by (simp add: remove_at_def)

lemma inorder_unfold: "inorder n = weave (map inorder (nchildren n)) (nkeys n)"
  by (cases n) simp

lemma merge_ok:
  assumes n: "inner h n" and j: "j < length (nkeys n)"
    and poor: "length (nkeys (nchildren n ! j)) = min_keys" "length (nkeys (nchildren n ! Suc j)) = min_keys"
  shows "\<exists>n'. merge_children n j = Some n' \<and> inner h n' \<and> inorder n' = inorder n \<and> ntotal n' = ntotal n \<and>
    length (nkeys n) = Suc (length (nkeys n')) \<and> min_keys < length (nkeys (nchildren n' ! j)) \<and>
    lefts j n' = lefts j n \<and> rights j n' = rights (Suc j) n"
proof -
  obtain ks cs t where l: "nchildren n ! j = Node ks cs t" by (cases "nchildren n ! j")
  obtain es ds u where r: "nchildren n ! Suc j = Node es ds u" by (cases "nchildren n ! Suc j")
  have sl: "shaped h (Node ks cs t)" and sr: "shaped h (Node es ds u)" and len: "Suc j < length (nchildren n)"
    using inner_child [OF n, of j] inner_child [OF n, of "Suc j"] j l r n by (auto simp: inner_def)
  define m where "m = recount (Node (ks @ [nkeys n ! j] @ es) (cs @ ds) t)"
  have m: "shaped h m" "inorder m = inorder (Node ks cs t) @ nkeys n ! j # inorder (Node es ds u)"
    "min_keys < length (nkeys m)"
    using merged [OF sl sr, of "nkeys n ! j"] poor l r by (auto simp: m_def min_keys_def max_keys_def)
  define n' where "n' = Node (remove_at j (nkeys n)) ((remove_at (j + 1) (nchildren n))[j := m]) (ntotal n)"
  have eq: "merge_children n j = Some n'"
    using j len l r by (simp add: merge_children_def nth_opt_def n'_def m_def)
  have ln: "length (nkeys n) = Suc (length (nkeys n'))" "nchildren n' ! j = m" "j \<le> length (nkeys n')"
    using j len by (auto simp: n'_def remove_at_def)
  have "set (remove_at (j + 1) (nchildren n)) \<subseteq> set (nchildren n)"
    by (auto simp: remove_at_def dest: in_set_takeD in_set_dropD)
  then have "set (nchildren n') \<subseteq> insert m (set (nchildren n))"
    using set_update_subset_insert [of "remove_at (j + 1) (nchildren n)" j m] by (auto simp: n'_def)
  then have "\<forall>c \<in> set (nchildren n'). shaped h c \<and> min_keys \<le> length (nkeys c)"
    using n m(1,3) unfolding inner_def by (metis insert_iff less_imp_le subsetD)
  then have inn: "inner h n'" using n j len by (auto simp: inner_def n'_def length_remove_at)
  have lr: "lefts j n' = lefts j n" "rights j n' = rights (Suc j) n"
    using weave_merge [of "nchildren n" "nkeys n" j inorder m] n j by (auto simp: n'_def inner_def)
  have "inorder n' = inorder n"
    using inner_at [OF inn ln(3)] inner_two_at [OF n j] lr m(2) l r ln(2) by simp
  then show ?thesis using eq inn ln m(3) lr by (auto simp: n'_def)
qed

lemma merge_left_fattens:
  assumes n: "inner h n" and j: "j < length (nkeys n)"
    and poor: "length (nkeys (nchildren n ! j)) = min_keys" "length (nkeys (nchildren n ! Suc j)) = min_keys"
  shows "\<exists>n'. merge_children n j = Some n' \<and> fattens h n (Suc j) n' j \<and> fattens h n j n' j"
proof -
  obtain n' where m: "merge_children n j = Some n'" "inner h n'" "inorder n' = inorder n" "ntotal n' = ntotal n"
    "length (nkeys n) = Suc (length (nkeys n'))" "min_keys < length (nkeys (nchildren n' ! j))"
    "lefts j n' = lefts j n" "rights j n' = rights (Suc j) n"
    using merge_ok [OF n j poor] by blast
  have "\<exists>a. lefts (Suc j) n = lefts j n' @ a" "\<exists>b. rights j n = b @ rights j n'"
    unfolding m(7,8) using inner_two_at [OF n j] by (metis append_Cons append.assoc append_Nil)+
  then show ?thesis using m j by (simp add: fattens_def)
qed

lemma fatten_ok:
  assumes n: "inner h n" and i: "i \<le> length (nkeys n)" and ne: "nkeys n \<noteq> []"
  shows "\<exists>n' i'. fatten_child n i = Some (n', i') \<and> fattens h n i n' i'"
proof -
  have len: "length (nchildren n) = Suc (length (nkeys n))" using n by (simp add: inner_def)
  have poor: "length (nkeys (nchildren n ! j)) = min_keys" if "\<not> rich n j" "j \<le> length (nkeys n)" for j
    using that inner_child [OF n, of j] by (simp add: rich_iff)
  consider "rich n i" | "\<not> rich n i" "i > 0" "rich n (i - 1)"
    | "\<not> rich n i" "\<not> (i > 0 \<and> rich n (i - 1))" "i + 1 < length (nchildren n)" "rich n (i + 1)"
    | "\<not> rich n i" "i > 0" "\<not> rich n (i - 1)" "\<not> (i + 1 < length (nchildren n) \<and> rich n (i + 1))"
    | "\<not> rich n i" "i = 0" "\<not> rich n 1"
    using ne len by fastforce
  then show ?thesis
  proof cases
    case 1
    then show ?thesis using n i len by (auto simp: fatten_child_def fattens_def rich_iff)
  next
    case 2
    then show ?thesis
      using borrow_left_ok [OF n, of "i - 1"] poor [of i] i len by (auto simp: fatten_child_def rich_iff)
  next
    case 3
    then show ?thesis
      using borrow_right_ok [OF n, of i] poor [of i] i len by (auto simp: fatten_child_def rich_iff)
  next
    case 4
    then obtain j where j: "i = Suc j" by (cases i) auto
    then show ?thesis
      using 4 merge_left_fattens [OF n, of j] poor [of i] poor [of j] i len by (auto simp: fatten_child_def)
  next
    case 5
    have "Suc 0 \<le> length (nkeys n)" using ne by (cases "nkeys n") auto
    then show ?thesis
      using 5 merge_left_fattens [OF n, of 0] poor [of 0] poor [of 1] ne len by (auto simp: fatten_child_def)
  qed
qed

section \<open>Removing an extreme key\<close>

lemma dec_total_ok: "0 < ntotal n \<Longrightarrow> dec_total True n = Some (Node (nkeys n) (nchildren n) (ntotal n - 1))"
  by (simp add: dec_total_def)

lemma inner_retotal: "inner h (Node (nkeys n) (nchildren n) t) = inner h n"
  "inorder (Node (nkeys n) (nchildren n) t) = inorder n"
  by (cases n; simp add: inner_def)+

lemma set_child_fields [simp]:
  "nkeys (set_child n i c) = nkeys n" "ntotal (set_child n i c) = ntotal n"
  by (simp_all add: set_child_def)

lemma shaped_keys_total: "shaped h n \<Longrightarrow> nkeys n \<noteq> [] \<Longrightarrow> 0 < ntotal n"
  by (cases "(h, n)" rule: shaped.cases) auto

lemma remove_max_ok:
  "shaped h n \<Longrightarrow> nkeys n \<noteq> [] \<Longrightarrow>
   \<exists>n' x. remove_max h n = Some (n', x) \<and> shaped h n' \<and> inorder n = inorder n' @ [x] \<and>
          length (nkeys n) \<le> Suc (length (nkeys n'))"
proof (induction h arbitrary: n)
  case 0
  then obtain ks where n: "n = Node ks [] (length ks)" "length ks \<le> max_keys" "ks \<noteq> []" by (cases n) auto
  then show ?case by (simp add: remove_max.simps dec_total_def is_leaf_def)
next
  case (Suc h)
  let ?m = "Node (nkeys n) (nchildren n) (ntotal n - 1)"
  have n: "inner h n" "ntotal n = length (inorder n)" using Suc.prems(1) by (auto simp: shaped_inner)
  have pos: "0 < ntotal n" by (rule shaped_keys_total [OF Suc.prems])
  have len: "length (nchildren n) - 1 = length (nkeys n)" using n(1) by (simp add: inner_def)
  obtain m i where f: "fatten_child ?m (length (nkeys n)) = Some (m, i)" "fattens h ?m (length (nkeys n)) m i"
    using fatten_ok [of h ?m "length (nkeys n)"] n(1) Suc.prems(2) by (auto simp: inner_retotal)
  then have m: "inner h m" "inorder m = inorder n" "ntotal m = ntotal n - 1" "i \<le> length (nkeys m)"
    "min_keys < length (nkeys (nchildren m ! i))" "length (nkeys n) \<le> Suc (length (nkeys m))" "rights i m = []"
    by (auto simp: fattens_def inner_retotal inorder_unfold [of n])
  obtain c x where c: "remove_max h (nchildren m ! i) = Some (c, x)" "shaped h c" "inorder (nchildren m ! i) = inorder c @ [x]"
    "length (nkeys (nchildren m ! i)) \<le> Suc (length (nkeys c))"
    using Suc.IH [of "nchildren m ! i"] inner_child [OF m(1,4)] m(5) by (metis list.size(3) not_less_zero)
  have sc: "inner h (set_child m i c)" "inorder (set_child m i c) = lefts i m @ inorder c @ rights i m"
    using inner_set_child [OF m(1,4) c(2)] c(4) m(5) by auto
  have "inorder n = inorder (set_child m i c) @ [x]"
    unfolding sc(2) m(2) [symmetric] using inner_at [OF m(1,4)] c(3) m(7) by simp
  moreover from this have "shaped (Suc h) (set_child m i c)" using sc(1) m(3) n(2) by (simp add: shaped_inner)
  ultimately show ?case
    using f(1) c(1) m(6) pos inner_not_leaf [OF n(1)] len
    by (simp add: remove_max.simps [of "Suc h"] dec_total_ok is_leaf_def)
qed

lemma remove_min_ok:
  "shaped h n \<Longrightarrow> nkeys n \<noteq> [] \<Longrightarrow>
   \<exists>n' x. remove_min h n = Some (n', x) \<and> shaped h n' \<and> inorder n = x # inorder n' \<and>
          length (nkeys n) \<le> Suc (length (nkeys n'))"
proof (induction h arbitrary: n)
  case 0
  then obtain ks where n: "n = Node ks [] (length ks)" "length ks \<le> max_keys" "ks \<noteq> []" by (cases n) auto
  then show ?case by (simp add: remove_min.simps dec_total_def is_leaf_def)
next
  case (Suc h)
  let ?m = "Node (nkeys n) (nchildren n) (ntotal n - 1)"
  have n: "inner h n" "ntotal n = length (inorder n)" using Suc.prems(1) by (auto simp: shaped_inner)
  have pos: "0 < ntotal n" by (rule shaped_keys_total [OF Suc.prems])
  obtain m i where f: "fatten_child ?m 0 = Some (m, i)" "fattens h ?m 0 m i"
    using fatten_ok [of h ?m 0] n(1) Suc.prems(2) by (auto simp: inner_retotal)
  then have m: "inner h m" "inorder m = inorder n" "ntotal m = ntotal n - 1" "i \<le> length (nkeys m)"
    "min_keys < length (nkeys (nchildren m ! i))" "length (nkeys n) \<le> Suc (length (nkeys m))" "lefts i m = []"
    by (auto simp: fattens_def inner_retotal inorder_unfold [of n])
  obtain c x where c: "remove_min h (nchildren m ! i) = Some (c, x)" "shaped h c" "inorder (nchildren m ! i) = x # inorder c"
    "length (nkeys (nchildren m ! i)) \<le> Suc (length (nkeys c))"
    using Suc.IH [of "nchildren m ! i"] inner_child [OF m(1,4)] m(5) by (metis list.size(3) not_less_zero)
  have sc: "inner h (set_child m i c)" "inorder (set_child m i c) = lefts i m @ inorder c @ rights i m"
    using inner_set_child [OF m(1,4) c(2)] c(4) m(5) by auto
  have "inorder n = x # inorder (set_child m i c)"
    unfolding sc(2) m(2) [symmetric] using inner_at [OF m(1,4)] c(3) m(7) by simp
  moreover from this have "shaped (Suc h) (set_child m i c)" using sc(1) m(3) n(2) by (simp add: shaped_inner)
  ultimately show ?case
    using f(1) c(1) m(6) pos inner_not_leaf [OF n(1)]
    by (simp add: remove_min.simps [of "Suc h"] dec_total_ok is_leaf_def)
qed

section \<open>Removal\<close>

definition removes :: "nat \<Rightarrow> 'k::linorder node \<Rightarrow> 'k \<Rightarrow> ('k node \<times> bool) option \<Rightarrow> bool" where
  "removes h n k r \<longleftrightarrow>
     (\<exists>n'. r = Some (n', k \<in> set (inorder n)) \<and> shaped h n' \<and> inorder n' = removeAll k (inorder n) \<and>
           length (nkeys n) \<le> Suc (length (nkeys n')))"

lemma removeAll_mid: "distinct (xs @ k # ys) \<Longrightarrow> removeAll k (xs @ k # ys) = xs @ ys"
  by (simp add: removeAll_id)

lemma ascending_distinct: "ascending xs \<Longrightarrow> distinct (xs :: 'k::linorder list)"
  by (induction xs) auto

lemma with_removed_shaped:
  assumes "inner h n" "ntotal n = length (inorder n) + (if b then 1 else 0)"
  shows "\<exists>n'. with_removed b n = Some (n', b) \<and> shaped (Suc h) n' \<and> inorder n' = inorder n \<and> nkeys n' = nkeys n"
  using assms by (auto simp: with_removed_def dec_total_def shaped_inner inner_retotal inorder_unfold [of n])

text \<open>Removing below a child around which the key does not occur.\<close>

lemma remove_below:
  assumes m: "inner h m" "i \<le> length (nkeys m)" "min_keys < length (nkeys (nchildren m ! i))"
    and tot: "ntotal m = length (inorder m)" and dist: "distinct (inorder m)"
    and out: "k \<notin> set (lefts i m)" "k \<notin> set (rights i m)"
    and c: "removes h (nchildren m ! i) k (Some (c, b))"
    and len: "length (nkeys n) \<le> Suc (length (nkeys m))" and same: "inorder n = inorder m"
  shows "removes (Suc h) n k (with_removed b (set_child m i c))"
proof -
  have c': "shaped h c" "inorder c = removeAll k (inorder (nchildren m ! i))" "b = (k \<in> set (inorder (nchildren m ! i)))"
    "min_keys \<le> length (nkeys c)" using c m(3) by (auto simp: removes_def)
  have sc: "inner h (set_child m i c)" "inorder (set_child m i c) = lefts i m @ inorder c @ rights i m"
    using inner_set_child [OF m(1,2) c'(1,4)] by auto
  note at = inner_at [OF m(1,2)]
  have io: "inorder (set_child m i c) = removeAll k (inorder m)"
    unfolding sc(2) using at out c'(2) by (simp add: removeAll_id)
  have b: "b = (k \<in> set (inorder m))" using at out c'(3) by auto
  have "distinct (inorder (nchildren m ! i))" using dist at by simp
  then have "ntotal (set_child m i c) = length (inorder (set_child m i c)) + (if b then 1 else 0)"
    using tot dist b unfolding io by (auto simp: distinct_remove1_removeAll [symmetric] length_remove1 length_pos_if_in_set
        Suc_pred [OF length_pos_if_in_set])
  from with_removed_shaped [OF sc(1) this] show ?thesis
    using io b len same by (auto simp: removes_def)
qed

text \<open>Replacing the key found in an inner node by its neighbour in order.\<close>

lemma hit_set_two:
  assumes n: "inner h n" "ntotal n = length (inorder n)" "distinct (inorder n)" "i < length (nkeys n)" "nkeys n ! i = k"
    and ab: "shaped h a" "min_keys \<le> length (nkeys a)" "shaped h b" "min_keys \<le> length (nkeys b)"
    and keep: "inorder a @ u # inorder b = inorder (nchildren n ! i) @ inorder (nchildren n ! Suc i)"
  shows "removes (Suc h) n k (with_removed True (set_two n i a u b))"
proof -
  let ?m = "set_two n i a u b"
  note two = inner_two_at [OF n(1,4), unfolded n(5)]
  have whole: "inorder n = (lefts i n @ inorder (nchildren n ! i)) @ k # (inorder (nchildren n ! Suc i) @ rights (Suc i) n)"
    using two by simp
  have rm: "removeAll k (inorder n) = lefts i n @ (inorder a @ u # inorder b) @ rights (Suc i) n"
    unfolding keep using n(3) removeAll_mid [of "lefts i n @ inorder (nchildren n ! i)" k] unfolding whole by simp
  have st: "inner h ?m" "inorder ?m = removeAll k (inorder n)"
    using inner_set_two [OF n(1,4) ab, of u] rm by auto
  have mem: "k \<in> set (inorder n)" unfolding whole by simp
  have "ntotal ?m = length (inorder ?m) + 1"
    unfolding st(2) using n(2,3) mem
    by (simp add: set_two_def distinct_remove1_removeAll [symmetric] length_remove1 Suc_pred [OF length_pos_if_in_set])
  then show ?thesis
    using with_removed_shaped [of h ?m True] st mem by (auto simp: removes_def set_two_def)
qed

lemma remove_hit_ok:
  assumes n: "inner h n" "ntotal n = length (inorder n)" and asc: "ascending (inorder n)"
    and i: "i < length (nkeys n)" "nkeys n ! i = k"
    and IH: "\<And>c. shaped h c \<Longrightarrow> ascending (inorder c) \<Longrightarrow> nkeys c \<noteq> [] \<Longrightarrow> removes h c k (remove_rec h c k)"
  shows "removes (Suc h) n k (remove_hit_in_internal h n k i)"
proof -
  note dist = ascending_distinct [OF asc]
  have len: "Suc i < length (nchildren n)" "i < length (nchildren n)" using n(1) i by (simp_all add: inner_def)
  have il: "i \<le> length (nkeys n)" "Suc i \<le> length (nkeys n)" using i by auto
  note L = inner_child [OF n(1) il(1)] and R = inner_child [OF n(1) il(2)]
  note hit = hit_set_two [OF n dist i]
  consider "rich n i" | "\<not> rich n i" "rich n (Suc i)" | "\<not> rich n i" "\<not> rich n (Suc i)" by blast
  then show ?thesis
  proof cases
    case 1
    then have big: "min_keys < length (nkeys (nchildren n ! i))" using len by (simp add: rich_iff)
    then have "nkeys (nchildren n ! i) \<noteq> []" by auto
    then obtain c x where c: "remove_max h (nchildren n ! i) = Some (c, x)" "shaped h c"
      "inorder (nchildren n ! i) = inorder c @ [x]" "length (nkeys (nchildren n ! i)) \<le> Suc (length (nkeys c))"
      using remove_max_ok L by blast
    have "removes (Suc h) n k (with_removed True (set_two n i c x (nchildren n ! Suc i)))"
      by (rule hit) (use c big R in auto)
    moreover have "(nchildren n)[i := c, Suc i := nchildren n ! Suc i] = (nchildren n)[i := c]"
      by (metis list_update_id n_not_Suc_n nth_list_update_neq)
    ultimately show ?thesis using 1 c(1) len by (simp add: remove_hit_in_internal.simps [of h n] set_two_def)
  next
    case 2
    then have big: "min_keys < length (nkeys (nchildren n ! Suc i))" using len by (simp add: rich_iff)
    then have "nkeys (nchildren n ! Suc i) \<noteq> []" by auto
    then obtain c x where c: "remove_min h (nchildren n ! Suc i) = Some (c, x)" "shaped h c"
      "inorder (nchildren n ! Suc i) = x # inorder c" "length (nkeys (nchildren n ! Suc i)) \<le> Suc (length (nkeys c))"
      using remove_min_ok R by blast
    have "removes (Suc h) n k (with_removed True (set_two n i (nchildren n ! i) x c))"
      by (rule hit) (use c big L in auto)
    then show ?thesis using 2 c(1) len by (simp add: remove_hit_in_internal.simps [of h n] set_two_def)
  next
    case 3
    then have poor: "length (nkeys (nchildren n ! i)) = min_keys" "length (nkeys (nchildren n ! Suc i)) = min_keys"
      using len L R by (auto simp: rich_iff)
    obtain m where m: "merge_children n i = Some m" "inner h m" "inorder m = inorder n" "ntotal m = ntotal n"
      "length (nkeys n) = Suc (length (nkeys m))" "min_keys < length (nkeys (nchildren m ! i))"
      "lefts i m = lefts i n" "rights i m = rights (Suc i) n" using merge_ok [OF n(1) i(1) poor] by blast
    have im: "i \<le> length (nkeys m)" using m(5) i by simp
    have c: "shaped h (nchildren m ! i)" "nkeys (nchildren m ! i) \<noteq> []" "ascending (inorder (nchildren m ! i))"
      using inner_child [OF m(2) im] m(6) asc inner_at [OF m(2) im] m(3) by (auto simp: sorted_wrt_append)
    obtain c' b where r: "remove_rec h (nchildren m ! i) k = Some (c', b)" "removes h (nchildren m ! i) k (Some (c', b))"
      using IH [OF c(1,3,2)] by (metis removes_def)
    have out: "k \<notin> set (lefts i m)" "k \<notin> set (rights i m)"
      using inner_two_at [OF n(1) i(1), unfolded i(2)] dist m(7,8) by auto
    have "removes (Suc h) n k (with_removed b (set_child m i c'))"
      by (rule remove_below [OF m(2) im m(6) _ _ out r(2)]) (use m n dist in auto)
    then show ?thesis using 3 r(1) m(1) len by (simp add: remove_hit_in_internal.simps [of h n])
  qed
qed

lemma remove_rec_leaf:
  assumes "shaped 0 n" "ascending (inorder n)"
  shows "removes 0 n k (remove_rec 0 n k)"
proof -
  obtain ks where n: "n = Node ks [] (length ks)" and le: "length ks \<le> max_keys" using assms(1) by (cases n) auto
  show ?thesis
  proof (cases "binary_search ks k")
    case (Inl i)
    have "set ks = set (take i ks) \<union> set (drop i ks)" by (metis append_take_drop_id set_append)
    then have "k \<notin> set ks" using binary_search_miss [of ks k i] Inl assms(2) n by auto
    then show ?thesis using Inl assms(1) by (simp add: n remove_rec.simps removes_def is_leaf_def removeAll_id)
  next
    case (Inr i)
    then have i: "i < length ks" "ks ! i = k" using binary_search_hit by auto
    have e: "take i ks @ k # drop (Suc i) ks = ks" using id_take_nth_drop [OF i(1)] i(2) by simp
    have "removeAll k ks = remove_at i ks"
      using removeAll_mid [of "take i ks" k "drop (Suc i) ks"] ascending_distinct [of ks] assms(2) n
      unfolding e by (simp add: remove_at_def)
    then show ?thesis
      using Inr i le nth_mem [OF i(1)]
      by (auto simp: n remove_rec.simps removes_def is_leaf_def with_removed_def dec_total_def length_remove_at)
  qed
qed

lemma remove_rec_ok:
  "shaped h n \<Longrightarrow> ascending (inorder n) \<Longrightarrow> h = 0 \<or> nkeys n \<noteq> [] \<Longrightarrow> removes h n k (remove_rec h n k)"
proof (induction h arbitrary: n)
  case 0
  then show ?case using remove_rec_leaf by blast
next
  case (Suc h)
  have n: "inner h n" "ntotal n = length (inorder n)" using Suc.prems(1) by (auto simp: shaped_inner)
  note nl = inner_not_leaf [OF n(1)]
  show ?case
  proof (cases "binary_search (nkeys n) k")
    case (Inr i)
    then have "removes (Suc h) n k (remove_hit_in_internal h n k i)"
      using remove_hit_ok [OF n Suc.prems(2)] binary_search_hit Suc.IH by blast
    then show ?thesis using Inr nl by (simp add: remove_rec.simps [of "Suc h"])
  next
    case (Inl i)
    have i: "i \<le> length (nkeys n)" and sd: "k \<notin> set (lefts i n)" "k \<notin> set (rights i n)"
      using sides [OF Suc.prems(1,2) Inl] by auto
    obtain m j where f: "fatten_child n i = Some (m, j)" "fattens h n i m j"
      using fatten_ok [OF n(1) i] Suc.prems(3) by auto
    then have m: "inner h m" "inorder m = inorder n" "ntotal m = ntotal n" "j \<le> length (nkeys m)"
      "min_keys < length (nkeys (nchildren m ! j))" "length (nkeys n) \<le> Suc (length (nkeys m))"
      "k \<notin> set (lefts j m)" "k \<notin> set (rights j m)" using sd by (auto simp: fattens_def)
    have c: "shaped h (nchildren m ! j)" "nkeys (nchildren m ! j) \<noteq> []" "ascending (inorder (nchildren m ! j))"
      using inner_child [OF m(1,4)] m(5) Suc.prems(2) inner_at [OF m(1,4)] m(2) by (auto simp: sorted_wrt_append)
    obtain c' b where r: "remove_rec h (nchildren m ! j) k = Some (c', b)" "removes h (nchildren m ! j) k (Some (c', b))"
      using Suc.IH [OF c(1,3)] c(2) by (metis removes_def)
    have "removes (Suc h) n k (with_removed b (set_child m j c'))"
      by (rule remove_below [OF m(1,4,5) _ _ m(7,8) r(2) m(6)]) (use m(2,3) n(2) ascending_distinct [OF Suc.prems(2)] in auto)
    then show ?thesis using Inl nl f(1) r(1) by (simp add: remove_rec.simps [of "Suc h"])
  qed
qed

lemma tree_remove_ok:
  assumes "rank_tree_inv t"
  shows "\<exists>t'. tree_remove t k = Some (t', k \<in> set (inorder t)) \<and> rank_tree_inv t' \<and>
           inorder t' = removeAll k (inorder t)"
proof -
  define h where "h = height t"
  have sh: "shaped h t" and asc: "ascending (inorder t)" and ne: "h = 0 \<or> nkeys t \<noteq> []"
    using assms shaped_leaf [of "height t" t] by (auto simp: rank_tree_inv_def h_def)
  obtain n where r: "remove_rec h t k = Some (n, k \<in> set (inorder t))" "shaped h n" "inorder n = removeAll k (inorder t)"
    using remove_rec_ok [OF sh asc ne] by (auto simp: removes_def)
  have asc': "ascending (inorder n)" unfolding r(3) using asc by (induction "inorder t") (auto simp: sorted_wrt_filter removeAll_filter_not_eq)
  show ?thesis
  proof (cases "nkeys n = [] \<and> \<not> is_leaf n")
    case True
    then obtain h' where h': "h = Suc h'" using shaped_leaf [OF r(2)] by (cases h) auto
    then obtain c u where n: "n = Node [] [c] u" using r(2) True by (cases n) (auto simp: length_Suc_conv)
    then have c: "shaped h' c" "nkeys c \<noteq> []" using r(2) h' by (auto simp: min_keys_def max_keys_def)
    then show ?thesis
      using r True n asc' rank_tree_invI [of h' c] by (simp add: tree_remove_def h_def [symmetric])
  next
    case False
    then show ?thesis
      using r asc' rank_tree_invI [OF r(2)] by (auto simp: tree_remove_def h_def [symmetric])
  qed
qed

end
