(* ===== verification/RankTree_Query.thy ===== *)
theory RankTree_Query
  imports RankTree_Remove
begin

text \<open>
  The rank queries of \<open>kevy-ranktree\<close> (\<open>lib.rs\<close>) and its iterators (\<open>iter.rs\<close>), with their
  bounded path stacks. The outer option of a result is the panic, the inner one the
  \<open>Option\<close> of the source. A predicate handed to \<open>partition_point\<close> is taken to hold on a
  prefix of the keys, as the standard library asks.
\<close>

section \<open>Operations\<close>

definition tree_len :: "'k node \<Rightarrow> nat" where
  "tree_len root = ntotal root"

definition tree_is_empty :: "'k node \<Rightarrow> bool" where
  "tree_is_empty root \<longleftrightarrow> ntotal root = 0"

fun pick_child :: "'k node list \<Rightarrow> nat \<Rightarrow> nat \<Rightarrow> (nat \<times> nat \<times> bool) option" where
  "pick_child [] rank i = None"
| "pick_child (c # cs) rank i =
     (if rank < ntotal c then Some (i, rank, True)
      else if rank - ntotal c = 0 then Some (i, 0, False)
      else pick_child cs (rank - ntotal c - 1) (i + 1))"

lemma pick_child_range: "pick_child cs rank i = Some (j, r, b) \<Longrightarrow> i \<le> j \<and> j < i + length cs"
  by (induction cs rank i rule: pick_child.induct) (auto split: if_splits)

lemma child_size: "i < length (nchildren n) \<Longrightarrow> size (nchildren n ! i) < size n"
  by (cases n) (auto dest!: nth_mem [of i] size_list_estimation' [where f = size, OF _ order_refl])

text \<open>\<open>on_descend\<close> is a closure over a state of the caller.\<close>

function descend_to_rank :: "('k node \<Rightarrow> nat \<Rightarrow> 's \<Rightarrow> 's option) \<Rightarrow> 'k node \<Rightarrow> nat \<Rightarrow> 's \<Rightarrow> ('k node \<times> nat \<times> 's) option" where
  "descend_to_rank on_descend n rank s =
     (if is_leaf n then Some (n, rank, s)
      else
        (case pick_child (nchildren n) rank 0 of None \<Rightarrow> None
         | Some (i, r, True) \<Rightarrow>
             (case on_descend n i s of None \<Rightarrow> None
              | Some s' \<Rightarrow> descend_to_rank on_descend (nchildren n ! i) r s')
         | Some (i, r, False) \<Rightarrow> Some (n, i, s)))"
  by pat_completeness auto
termination
  by (relation "measure (\<lambda>(f, n, r, s). size n)") (auto intro!: child_size dest!: pick_child_range)

definition select :: "'k node \<Rightarrow> nat \<Rightarrow> 'k option option" where
  "select root rank =
     (if rank \<ge> ntotal root then Some None
      else case descend_to_rank (\<lambda>_ _ s. Some s) root rank () of None \<Rightarrow> None
      | Some (n, idx, _) \<Rightarrow> (case nth_opt (nkeys n) idx of None \<Rightarrow> None | Some k \<Rightarrow> Some (Some k)))"

function rank_of_from :: "'k::linorder node \<Rightarrow> 'k \<Rightarrow> nat \<Rightarrow> nat option option" where
  "rank_of_from n key acc =
     (case binary_search (nkeys n) key of
        Inr i \<Rightarrow> Some (Some (acc + sum_list (map ntotal (take (i + 1) (nchildren n))) + i))
      | Inl i \<Rightarrow>
          if is_leaf n then Some None
          else if i \<ge> length (nchildren n) then None
          else rank_of_from (nchildren n ! i) key (acc + i + sum_list (map ntotal (take i (nchildren n)))))"
  by pat_completeness auto
termination
  by (relation "measure (\<lambda>(n, k, a). size n)") (auto intro: child_size)

definition rank_of :: "'k::linorder node \<Rightarrow> 'k \<Rightarrow> nat option option" where
  "rank_of root key = rank_of_from root key 0"

function partition_from :: "('k \<Rightarrow> bool) \<Rightarrow> 'k node \<Rightarrow> nat \<Rightarrow> nat option" where
  "partition_from pred n acc =
     (let i = length (takeWhile pred (nkeys n)) in
      if is_leaf n then Some (acc + i)
      else if i \<ge> length (nchildren n) then None
      else partition_from pred (nchildren n ! i) (acc + i + sum_list (map ntotal (take i (nchildren n)))))"
  by pat_completeness auto
termination
  by (relation "measure (\<lambda>(p, n, a). size n)") (auto intro: child_size)

declare descend_to_rank.simps [simp del] rank_of_from.simps [simp del] partition_from.simps [simp del]

definition partition_point :: "('k \<Rightarrow> bool) \<Rightarrow> 'k node \<Rightarrow> nat option" where
  "partition_point pred root = partition_from pred root 0"

datatype 'k bound = Unbounded | Included 'k | Excluded 'k

definition bound_ranks :: "'k::linorder node \<Rightarrow> 'k bound \<Rightarrow> 'k bound \<Rightarrow> (nat \<times> nat) option" where
  "bound_ranks root start_bound end_bound =
     (case (case start_bound of Unbounded \<Rightarrow> Some 0
            | Included k \<Rightarrow> partition_point (\<lambda>x. x < k) root
            | Excluded k \<Rightarrow> partition_point (\<lambda>x. x \<le> k) root) of None \<Rightarrow> None
      | Some lo \<Rightarrow>
        (case (case end_bound of Unbounded \<Rightarrow> Some (tree_len root)
               | Included k \<Rightarrow> partition_point (\<lambda>x. x \<le> k) root
               | Excluded k \<Rightarrow> partition_point (\<lambda>x. x < k) root) of None \<Rightarrow> None
         | Some hi \<Rightarrow> Some (lo, hi)))"

definition count_in :: "'k::linorder node \<Rightarrow> 'k bound \<Rightarrow> 'k bound \<Rightarrow> nat option" where
  "count_in root start_bound end_bound =
     map_option (\<lambda>(lo, hi). hi - lo) (bound_ranks root start_bound end_bound)"

subsection \<open>Iterators\<close>

definition max_height :: nat where "max_height = 24"

type_synonym 'k path = "('k node \<times> nat) list"

definition path_push :: "'k path \<Rightarrow> 'k node \<times> nat \<Rightarrow> 'k path option" where
  "path_push p entry = (if length p \<ge> max_height then None else Some (entry # p))"

definition path_pop :: "'k path \<Rightarrow> (('k node \<times> nat) \<times> 'k path) option" where
  "path_pop p = (case p of [] \<Rightarrow> None | e # p' \<Rightarrow> Some (e, p'))"

record 'k iter =
  it_stack :: "'k path"
  it_remaining :: nat

definition iter_new_from :: "'k node \<Rightarrow> nat \<Rightarrow> 'k iter option" where
  "iter_new_from root rank =
     (let remaining = ntotal root - rank in
      if remaining = 0 then Some \<lparr>it_stack = [], it_remaining = remaining\<rparr>
      else
        (case descend_to_rank (\<lambda>n i s. if i < length (nkeys n) then path_push s (n, i) else Some s) root rank [] of
           None \<Rightarrow> None
         | Some (n, idx, s) \<Rightarrow>
             map_option (\<lambda>s'. \<lparr>it_stack = s', it_remaining = remaining\<rparr>) (path_push s (n, idx))))"

definition iter_capped :: "'k iter \<Rightarrow> nat \<Rightarrow> 'k iter" where
  "iter_capped it cap = it\<lparr>it_remaining := min (it_remaining it) cap\<rparr>"

fun descend_left :: "'k path \<Rightarrow> 'k node \<Rightarrow> 'k path option" where
  "descend_left p (Node ks cs t) =
     (case path_push p (Node ks cs t, 0) of None \<Rightarrow> None
      | Some p' \<Rightarrow> (case cs of [] \<Rightarrow> Some p' | c # _ \<Rightarrow> descend_left p' c))"

definition iter_next :: "'k iter \<Rightarrow> ('k option \<times> 'k iter) option" where
  "iter_next it =
     (if it_remaining it = 0 then Some (None, it)
      else case path_pop (it_stack it) of None \<Rightarrow> Some (None, it)
      | Some ((n, i), p) \<Rightarrow>
        (case nth_opt (nkeys n) i of None \<Rightarrow> None
         | Some key \<Rightarrow>
           (case (if i + 1 < length (nkeys n) then path_push p (n, i + 1) else Some p) of None \<Rightarrow> None
            | Some p1 \<Rightarrow>
              (case (if is_leaf n then Some p1
                     else if i + 1 < length (nchildren n) then descend_left p1 (nchildren n ! (i + 1)) else None) of
                 None \<Rightarrow> None
               | Some p2 \<Rightarrow> Some (Some key, \<lparr>it_stack = p2, it_remaining = it_remaining it - 1\<rparr>)))))"

definition rev_new_through :: "'k node \<Rightarrow> nat \<Rightarrow> 'k iter option" where
  "rev_new_through root through =
     (let remaining = min through (ntotal root) in
      if remaining = 0 then Some \<lparr>it_stack = [], it_remaining = remaining\<rparr>
      else
        (case descend_to_rank (\<lambda>n i s. if i > 0 then path_push s (n, i - 1) else Some s) root (remaining - 1) [] of
           None \<Rightarrow> None
         | Some (n, idx, s) \<Rightarrow>
             map_option (\<lambda>s'. \<lparr>it_stack = s', it_remaining = remaining\<rparr>) (path_push s (n, idx))))"

function descend_right :: "'k path \<Rightarrow> 'k node \<Rightarrow> 'k path option" where
  "descend_right p n =
     (if nkeys n = [] then None
      else case path_push p (n, length (nkeys n) - 1) of None \<Rightarrow> None
      | Some p' \<Rightarrow> if is_leaf n then Some p' else descend_right p' (nchildren n ! (length (nchildren n) - 1)))"
  by pat_completeness auto
termination
  by (relation "measure (\<lambda>(p, n). size n)") (auto simp: is_leaf_def intro!: child_size)

declare descend_right.simps [simp del]

definition rev_next :: "'k iter \<Rightarrow> ('k option \<times> 'k iter) option" where
  "rev_next it =
     (if it_remaining it = 0 then Some (None, it)
      else case path_pop (it_stack it) of None \<Rightarrow> Some (None, it)
      | Some ((n, i), p) \<Rightarrow>
        (case nth_opt (nkeys n) i of None \<Rightarrow> None
         | Some key \<Rightarrow>
           (case (if i > 0 then path_push p (n, i - 1) else Some p) of None \<Rightarrow> None
            | Some p1 \<Rightarrow>
              (case (if is_leaf n then Some p1
                     else if i < length (nchildren n) then descend_right p1 (nchildren n ! i) else None) of
                 None \<Rightarrow> None
               | Some p2 \<Rightarrow> Some (Some key, \<lparr>it_stack = p2, it_remaining = it_remaining it - 1\<rparr>)))))"

definition tree_iter_from :: "'k node \<Rightarrow> nat \<Rightarrow> 'k iter option" where
  "tree_iter_from root rank = iter_new_from root rank"

definition tree_iter :: "'k node \<Rightarrow> 'k iter option" where
  "tree_iter root = tree_iter_from root 0"

definition tree_iter_rev :: "'k node \<Rightarrow> 'k iter option" where
  "tree_iter_rev root = rev_new_through root (ntotal root)"

definition tree_iter_rev_from :: "'k node \<Rightarrow> nat \<Rightarrow> 'k iter option" where
  "tree_iter_rev_from root rank = rev_new_through root rank"

definition tree_range :: "'k::linorder node \<Rightarrow> 'k bound \<Rightarrow> 'k bound \<Rightarrow> 'k iter option" where
  "tree_range root start_bound end_bound =
     (case bound_ranks root start_bound end_bound of None \<Rightarrow> None
      | Some (lo, hi) \<Rightarrow> map_option (\<lambda>it. iter_capped it (hi - lo)) (iter_new_from root lo))"

fun tree_extend :: "'k::linorder node \<Rightarrow> 'k list \<Rightarrow> 'k node option" where
  "tree_extend t [] = Some t"
| "tree_extend t (k # ks) = (case tree_insert t k of None \<Rightarrow> None | Some (t', _) \<Rightarrow> tree_extend t' ks)"

definition tree_from_iter :: "'k::linorder list \<Rightarrow> 'k node option" where
  "tree_from_iter ks = tree_extend leaf ks"

text \<open>A caller that calls \<open>next\<close> up to \<open>fuel\<close> times, until it returns \<open>None\<close>.\<close>

fun drain :: "('i \<Rightarrow> ('k option \<times> 'i) option) \<Rightarrow> nat \<Rightarrow> 'i \<Rightarrow> 'k list option" where
  "drain step 0 it = None"
| "drain step (Suc fuel) it =
     (case step it of None \<Rightarrow> None
      | Some (None, _) \<Rightarrow> Some []
      | Some (Some k, it') \<Rightarrow> map_option ((#) k) (drain step fuel it'))"

section \<open>Counting in front of a child\<close>

lemma front_length:
  "i \<le> length ks \<Longrightarrow> i \<le> length cs \<Longrightarrow> length (front i cs ks) = i + sum_list (map length (take i cs))"
  by (induction i cs ks rule: front.induct) auto

lemma inner_totals: "inner h n \<Longrightarrow> c \<in> set (nchildren n) \<Longrightarrow> ntotal c = length (inorder c)"
  using shaped_total by (auto simp: inner_def)

lemma lefts_length:
  assumes "inner h n" "i \<le> length (nkeys n)"
  shows "length (lefts i n) = i + sum_list (map ntotal (take i (nchildren n)))"
proof -
  have "map ntotal (take i (nchildren n)) = map length (take i (map inorder (nchildren n)))"
    using inner_totals [OF assms(1)] by (auto simp: take_map dest!: in_set_takeD)
  then show ?thesis using assms front_length [of i "nkeys n" "map inorder (nchildren n)"] by (simp add: inner_def)
qed

lemma pick_child_ok:
  "length cs = Suc (length ks) \<Longrightarrow> \<forall>c \<in> set cs. ntotal c = length (inorder c) \<Longrightarrow>
   rank < length (weave (map inorder cs) ks) \<Longrightarrow>
   \<exists>i r b. pick_child cs rank j = Some (j + i, r, b) \<and> i \<le> length ks \<and>
     (if b then r < length (inorder (cs ! i)) \<and> rank = length (front i (map inorder cs) ks) + r
      else r = 0 \<and> i < length ks \<and> rank = length (front i (map inorder cs) ks) + length (inorder (cs ! i)))"
proof (induction cs arbitrary: ks rank j)
  case (Cons c cs)
  show ?case
  proof (cases "rank \<le> ntotal c")
    case True
    then show ?thesis using Cons.prems by (cases ks) (auto intro: exI [of _ 0])
  next
    case False
    then obtain k ks' where ks: "ks = k # ks'" using Cons.prems by (cases ks) auto
    from False Cons.prems ks have "rank - ntotal c - 1 < length (weave (map inorder cs) ks')" by auto
    with Cons.IH [of ks' "rank - ntotal c - 1" "j + 1"] Cons.prems ks obtain i r b where
      "pick_child cs (rank - ntotal c - 1) (j + 1) = Some (j + 1 + i, r, b)" "i \<le> length ks'"
      "if b then r < length (inorder (cs ! i)) \<and> rank - ntotal c - 1 = length (front i (map inorder cs) ks') + r
       else r = 0 \<and> i < length ks' \<and> rank - ntotal c - 1 = length (front i (map inorder cs) ks') + length (inorder (cs ! i))"
      by auto
    then show ?thesis using False Cons.prems ks by (intro exI [of _ "Suc i"] exI [of _ r] exI [of _ b]) (auto split: if_splits)
  qed
qed simp

lemma inner_pick:
  assumes "inner h n" "rank < length (inorder n)"
  shows "(\<exists>i r. pick_child (nchildren n) rank 0 = Some (i, r, True) \<and> i \<le> length (nkeys n) \<and>
            r < length (inorder (nchildren n ! i)) \<and> rank = length (lefts i n) + r) \<or>
         (\<exists>i. pick_child (nchildren n) rank 0 = Some (i, 0, False) \<and> i < length (nkeys n) \<and>
            rank = length (lefts i n) + length (inorder (nchildren n ! i)))"
proof -
  have "\<exists>i r b. pick_child (nchildren n) rank 0 = Some (0 + i, r, b) \<and> i \<le> length (nkeys n) \<and>
     (if b then r < length (inorder (nchildren n ! i)) \<and> rank = length (lefts i n) + r
      else r = 0 \<and> i < length (nkeys n) \<and> rank = length (lefts i n) + length (inorder (nchildren n ! i)))"
    using assms inner_totals [OF assms(1)] by (intro pick_child_ok) (auto simp: inner_def inorder_unfold [of n])
  then obtain i r b where "pick_child (nchildren n) rank 0 = Some (i, r, b)" "i \<le> length (nkeys n)"
     "if b then r < length (inorder (nchildren n ! i)) \<and> rank = length (lefts i n) + r
      else r = 0 \<and> i < length (nkeys n) \<and> rank = length (lefts i n) + length (inorder (nchildren n ! i))" by auto
  then show ?thesis by (cases b) auto
qed

section \<open>Selection and rank\<close>

text \<open>Where a descent lands, with what an \<open>on_descend\<close> that always succeeds has accumulated.\<close>

lemma descend_key:
  "shaped h n \<Longrightarrow> rank < length (inorder n) \<Longrightarrow>
   \<exists>m idx. descend_to_rank (\<lambda>_ _ s. Some s) n rank s = Some (m, idx, s) \<and> idx < length (nkeys m) \<and>
     nkeys m ! idx = inorder n ! rank"
proof (induction h arbitrary: n rank)
  case 0
  then show ?case by (cases n) (auto simp: descend_to_rank.simps is_leaf_def)
next
  case (Suc h)
  then have n: "inner h n" by (simp add: shaped_inner)
  from inner_pick [OF n Suc.prems(2)] show ?case
  proof (elim disjE exE conjE)
    fix i r assume p: "pick_child (nchildren n) rank 0 = Some (i, r, True)" "i \<le> length (nkeys n)"
      "r < length (inorder (nchildren n ! i))" "rank = length (lefts i n) + r"
    have "inorder n ! rank = inorder (nchildren n ! i) ! r"
      using inner_at [OF n p(2)] p(3,4) by (simp add: nth_append)
    then show ?thesis
      using Suc.IH [of "nchildren n ! i" r] p inner_child [OF n p(2)] inner_not_leaf [OF n]
      by (simp add: descend_to_rank.simps [of _ n])
  next
    fix i assume p: "pick_child (nchildren n) rank 0 = Some (i, 0, False)" "i < length (nkeys n)"
      "rank = length (lefts i n) + length (inorder (nchildren n ! i))"
    have "inorder n ! rank = nkeys n ! i"
      using inner_two_at [OF n p(2)] p(3) by (simp add: nth_append)
    then show ?thesis using p inner_not_leaf [OF n] by (simp add: descend_to_rank.simps [of _ n])
  qed
qed

lemma select_ok:
  assumes "rank_tree_inv t"
  shows "select t rank = Some (nth_opt (inorder t) rank)"
proof -
  have sh: "shaped (height t) t" using assms by (simp add: rank_tree_inv_def)
  show ?thesis
    using shaped_total [OF sh] descend_key [OF sh, of rank "()"] by (auto simp: select_def nth_opt_def)
qed

lemma position_here: "k \<notin> set xs \<Longrightarrow> position (\<lambda>x. x = k) (xs @ k # ys) = Some (length xs)"
  by (induction xs) auto

lemma position_between:
  "k \<notin> set xs \<Longrightarrow> k \<notin> set zs \<Longrightarrow>
   position (\<lambda>x. x = k) (xs @ ys @ zs) = map_option ((+) (length xs)) (position (\<lambda>x. x = k) ys)"
proof (induction xs)
  case Nil
  have "position (\<lambda>x. x = k) (ys @ zs) = position (\<lambda>x. x = k) ys"
    using Nil(2) position_eq_None [of "\<lambda>x. x = k" zs] by (induction ys) auto
  then show ?case by (cases "position (\<lambda>x. x = k) ys") auto
next
  case (Cons x xs)
  then show ?case by (cases "position (\<lambda>x. x = k) ys") auto
qed

lemma rank_hit:
  assumes "inner h n" "distinct (inorder n)" "i < length (nkeys n)" "nkeys n ! i = k"
  shows "position (\<lambda>x. x = k) (inorder n) = Some (sum_list (map ntotal (take (i + 1) (nchildren n))) + i)"
proof -
  have il: "i < length (nchildren n)" "i \<le> length (nkeys n)" using assms(1,3) by (auto simp: inner_def)
  have at: "inorder n = (lefts i n @ inorder (nchildren n ! i)) @ k # (inorder (nchildren n ! Suc i) @ rights (Suc i) n)"
    using inner_two_at [OF assms(1,3), unfolded assms(4)] by simp
  have "position (\<lambda>x. x = k) (inorder n) = Some (length (lefts i n @ inorder (nchildren n ! i)))"
    unfolding at by (rule position_here) (use assms(2) at in auto)
  then show ?thesis
    using lefts_length [OF assms(1) il(2)] inner_totals [OF assms(1) nth_mem [OF il(1)]] il(1)
    by (simp add: take_Suc_conv_app_nth)
qed

lemma rank_of_from_ok:
  "shaped h n \<Longrightarrow> ascending (inorder n) \<Longrightarrow>
   rank_of_from n k acc = Some (map_option ((+) acc) (position (\<lambda>x. x = k) (inorder n)))"
proof (induction h arbitrary: n acc)
  case 0
  then obtain ks where n: "n = Node ks [] (length ks)" by (cases n) auto
  show ?case
  proof (cases "binary_search ks k")
    case (Inl i)
    have "set ks = set (take i ks) \<union> set (drop i ks)" by (metis append_take_drop_id set_append)
    then have "\<forall>x \<in> set ks. x \<noteq> k" using binary_search_miss [of ks k i] Inl 0(2) n by auto
    then have "position (\<lambda>x. x = k) ks = None" by (simp add: position_eq_None)
    then show ?thesis using Inl by (simp add: n rank_of_from.simps is_leaf_def)
  next
    case (Inr i)
    then have i: "i < length ks" "ks ! i = k" using binary_search_hit by auto
    then have "position (\<lambda>x. x = k) ks = Some i"
      using ascending_distinct [of ks] 0(2) n by (auto simp: position_eq_Some nth_eq_iff_index_eq)
    then show ?thesis using Inr by (simp add: n rank_of_from.simps)
  qed
next
  case (Suc h)
  then have n: "inner h n" by (simp add: shaped_inner)
  show ?case
  proof (cases "binary_search (nkeys n) k")
    case (Inl i)
    note sd = sides [OF Suc.prems Inl]
    then have i: "i \<le> length (nkeys n)" by blast
    have "position (\<lambda>x. x = k) (inorder n)
        = map_option ((+) (length (lefts i n))) (position (\<lambda>x. x = k) (inorder (nchildren n ! i)))"
      unfolding inner_at [OF n i] by (rule position_between) (use sd in auto)
    then show ?thesis
      using Inl Suc.IH [of "nchildren n ! i"] inner_child [OF n i] sd inner_not_leaf [OF n] lefts_length [OF n i]
      by (cases "position (\<lambda>x. x = k) (inorder (nchildren n ! i))") (simp_all add: rank_of_from.simps [of n])
  next
    case (Inr i)
    then have "i < length (nkeys n)" "nkeys n ! i = k" using binary_search_hit by auto
    from rank_hit [OF n ascending_distinct [OF Suc.prems(2)] this] Inr show ?thesis
      by (simp add: rank_of_from.simps [of n])
  qed
qed

section \<open>Partition points and ranges\<close>

text \<open>A predicate that holds on a prefix of the keys.\<close>

definition partitioned :: "('k \<Rightarrow> bool) \<Rightarrow> 'k list \<Rightarrow> bool" where
  "partitioned P xs \<longleftrightarrow> sorted_wrt (\<lambda>x y. P y \<longrightarrow> P x) xs"

lemma partitioned_append:
  "partitioned P (xs @ ys) \<longleftrightarrow> partitioned P xs \<and> partitioned P ys \<and> (\<forall>x \<in> set xs. \<forall>y \<in> set ys. P y \<longrightarrow> P x)"
  by (simp add: partitioned_def sorted_wrt_append)

lemma partitioned_weave_keys: "length cs = Suc (length ks) \<Longrightarrow> partitioned P (weave cs ks) \<Longrightarrow> partitioned P ks"
proof (induction cs ks rule: weave.induct)
  case (3 c cs k ks)
  then have "set ks \<subseteq> set (weave cs ks)" using weave_keys [of cs ks] by simp
  with 3 show ?case by (auto simp: partitioned_def sorted_wrt_append)
qed (auto simp: partitioned_def)

lemma partitioned_dropWhile: "partitioned P xs \<Longrightarrow> x \<in> set (dropWhile P xs) \<Longrightarrow> \<not> P x"
proof (induction xs)
  case (Cons a xs)
  show ?case
  proof (cases "P a")
    case True
    then show ?thesis using Cons by (simp add: partitioned_def)
  next
    case False
    then have "x = a \<or> x \<in> set xs" using Cons.prems(2) by simp
    then show ?thesis using Cons.prems(1) False unfolding partitioned_def sorted_wrt.simps by blast
  qed
qed simp

lemma partitioned_takeWhile:
  assumes "partitioned P xs" "i = length (takeWhile P xs)"
  shows "(\<forall>x \<in> set (take i xs). P x) \<and> (\<forall>x \<in> set (drop i xs). \<not> P x)"
proof -
  have "takeWhile P xs = take i xs" "dropWhile P xs = drop i xs"
    unfolding assms(2) by (simp_all add: takeWhile_eq_take [symmetric] dropWhile_eq_drop [symmetric])
  then show ?thesis using partitioned_dropWhile [OF assms(1)] by (metis set_takeWhileD)
qed

lemma front_all:
  assumes "length cs = Suc (length ks)" "i \<le> length ks" "partitioned P (weave cs ks)" "\<forall>x \<in> set (take i ks). P x"
  shows "\<forall>x \<in> set (front i cs ks). P x"
proof (cases i)
  case (Suc j)
  then have f: "front i cs ks = (front j cs ks @ cs ! j) @ [ks ! j]" using front_Suc [of j cs ks] assms by simp
  have "ks ! j \<in> set (take i ks)" using Suc assms(2) by (auto simp: in_set_conv_nth intro!: exI [of _ j])
  then have p: "P (ks ! j)" using assms(4) by blast
  have "partitioned P (front i cs ks)" using assms(3) weave_at [OF assms(1,2)] by (simp add: partitioned_append)
  then have "\<forall>x \<in> set (front j cs ks @ cs ! j). P x"
    unfolding f partitioned_append using p by (metis list.set_intros(1))
  then show ?thesis unfolding f using p by (metis Un_iff empty_iff empty_set set_ConsD set_append)
qed simp

lemma behind_none:
  assumes "length cs = Suc (length ks)" "i \<le> length ks" "partitioned P (weave cs ks)" "\<forall>x \<in> set (drop i ks). \<not> P x"
  shows "\<forall>x \<in> set (behind (drop (Suc i) cs) (drop i ks)). \<not> P x"
proof (cases "i = length ks")
  case False
  then have l: "i < length ks" "Suc i < length cs" using assms by auto
  have "ks ! i \<in> set (drop i ks)" using l by (metis Cons_nth_drop_Suc list.set_intros(1))
  then have "\<not> P (ks ! i)" using assms(4) by blast
  moreover have "partitioned P (behind (drop (Suc i) cs) (drop i ks))"
    using assms(3) weave_at [OF assms(1,2)] by (simp add: partitioned_append)
  ultimately show ?thesis
    unfolding behind_drop [OF l] partitioned_def sorted_wrt.simps by (metis set_ConsD)
qed simp

lemma takeWhile_between:
  "\<forall>x \<in> set xs. P x \<Longrightarrow> \<forall>x \<in> set zs. \<not> P x \<Longrightarrow> takeWhile P (xs @ ys @ zs) = xs @ takeWhile P ys"
  by (cases zs) (simp_all add: takeWhile_append takeWhile_tail, metis takeWhile_eq_all_conv)

lemma partition_from_ok:
  "shaped h n \<Longrightarrow> partitioned P (inorder n) \<Longrightarrow>
   partition_from P n acc = Some (acc + length (takeWhile P (inorder n)))"
proof (induction h arbitrary: n acc)
  case 0
  then obtain ks where "n = Node ks [] (length ks)" by (cases n) auto
  then show ?case by (simp add: partition_from.simps is_leaf_def)
next
  case (Suc h)
  then have n: "inner h n" by (simp add: shaped_inner)
  define i where "i = length (takeWhile P (nkeys n))"
  have i: "i \<le> length (nkeys n)" by (simp add: i_def length_takeWhile_le)
  have l: "length (map inorder (nchildren n)) = Suc (length (nkeys n))" using n by (simp add: inner_def)
  note pw = Suc.prems(2) [unfolded inorder_unfold [of n]]
  note pt = partitioned_takeWhile [OF partitioned_weave_keys [OF l pw] i_def]
  have tw: "takeWhile P (inorder n) = lefts i n @ takeWhile P (inorder (nchildren n ! i))"
    unfolding inner_at [OF n i]
    by (rule takeWhile_between) (use front_all [OF l i pw] behind_none [OF l i pw] pt in auto)
  have "partitioned P (inorder (nchildren n ! i))"
    using Suc.prems(2) unfolding inner_at [OF n i] by (simp add: partitioned_append)
  then show ?case
    using Suc.IH [of "nchildren n ! i"] inner_child [OF n i] inner_not_leaf [OF n] lefts_length [OF n i] tw
    by (simp add: partition_from.simps [of _ n] i_def [symmetric])
qed

fun above_start :: "'k::linorder bound \<Rightarrow> 'k \<Rightarrow> bool" where
  "above_start Unbounded x = True"
| "above_start (Included k) x = (k \<le> x)"
| "above_start (Excluded k) x = (k < x)"

fun below_end :: "'k::linorder bound \<Rightarrow> 'k \<Rightarrow> bool" where
  "below_end Unbounded x = True"
| "below_end (Included k) x = (x \<le> k)"
| "below_end (Excluded k) x = (x < k)"

definition in_bounds :: "'k::linorder bound \<Rightarrow> 'k bound \<Rightarrow> 'k \<Rightarrow> bool" where
  "in_bounds lo hi x \<longleftrightarrow> above_start lo x \<and> below_end hi x"

lemma partitioned_start: "ascending xs \<Longrightarrow> partitioned (\<lambda>x. \<not> above_start lo x) xs"
  unfolding partitioned_def by (erule sorted_wrt_mono_rel [rotated]) (cases lo; auto)

lemma partitioned_end: "ascending xs \<Longrightarrow> partitioned (below_end hi) xs"
  unfolding partitioned_def by (erule sorted_wrt_mono_rel [rotated]) (cases hi; auto)

lemma takeWhile_filter: "partitioned Q xs \<Longrightarrow> filter Q xs = takeWhile Q xs"
proof -
  assume "partitioned Q xs"
  then have "filter Q (dropWhile Q xs) = []" by (simp add: filter_empty_conv partitioned_dropWhile)
  moreover have "filter Q (takeWhile Q xs) = takeWhile Q xs" by (auto simp: filter_id_conv dest: set_takeWhileD)
  ultimately show ?thesis by (metis append_Nil2 filter_append takeWhile_dropWhile_id)
qed

lemma filter_window:
  assumes "partitioned P xs" "partitioned Q xs"
  shows "filter (\<lambda>x. \<not> P x \<and> Q x) xs
       = take (length (takeWhile Q xs) - length (takeWhile P xs)) (drop (length (takeWhile P xs)) xs)"
proof -
  have "filter (\<lambda>x. \<not> P x \<and> Q x) xs = filter (\<lambda>x. \<not> P x) (takeWhile Q xs)"
    unfolding takeWhile_filter [OF assms(2), symmetric] by (simp add: conj_commute)
  also have "\<dots> = drop (length (takeWhile P xs)) (takeWhile Q xs)"
    using assms(1)
  proof (induction xs)
    case (Cons a xs)
    have p: "partitioned P xs" using Cons.prems by (simp add: partitioned_def)
    show ?case
    proof (cases "P a")
      case False
      then have "dropWhile P (a # xs) = a # xs" by simp
      then have "\<forall>x \<in> set (a # xs). \<not> P x" using partitioned_dropWhile [OF Cons.prems] by metis
      then have "filter (\<lambda>x. \<not> P x) (takeWhile Q (a # xs)) = takeWhile Q (a # xs)"
        by (intro filter_True) (meson set_takeWhileD)
      then show ?thesis using False by simp
    qed (use Cons.IH [OF p] in auto)
  qed simp
  also have "\<dots> = drop (length (takeWhile P xs)) (take (length (takeWhile Q xs)) xs)"
    by (simp only: takeWhile_eq_take [symmetric])
  finally show ?thesis unfolding drop_take .
qed

lemma bound_ranks_ok:
  assumes "rank_tree_inv t"
  shows "bound_ranks t lo hi =
    Some (length (takeWhile (\<lambda>x. \<not> above_start lo x) (inorder t)), length (takeWhile (below_end hi) (inorder t)))"
proof -
  have sh: "shaped (height t) t" and asc: "ascending (inorder t)" using assms by (auto simp: rank_tree_inv_def)
  have pp: "partition_point P t = Some (length (takeWhile P (inorder t)))" if "partitioned P (inorder t)" for P
    using partition_from_ok [OF sh that, of 0] by (simp add: partition_point_def)
  have "partitioned (\<lambda>x. x < k) (inorder t)" "partitioned (\<lambda>x. x \<le> k) (inorder t)" for k
    using partitioned_end [OF asc, of "Excluded k"] partitioned_end [OF asc, of "Included k"]
    by (simp_all add: below_end.simps [abs_def])
  note pp = pp [OF this(1)] pp [OF this(2)]
  have f: "takeWhile (\<lambda>x. True) (inorder t) = inorder t" "takeWhile (\<lambda>x. False) (inorder t) = []"
    by (simp_all add: takeWhile_eq_all_conv takeWhile_eq_Nil_iff)
  show ?thesis
    by (cases lo; cases hi) (simp_all add: bound_ranks_def pp tree_len_def shaped_total [OF sh] not_le not_less f
        below_end.simps [abs_def])
qed

lemma count_in_ok:
  assumes "rank_tree_inv t"
  shows "count_in t lo hi = Some (length (filter (in_bounds lo hi) (inorder t)))"
proof -
  have asc: "ascending (inorder t)" using assms by (simp add: rank_tree_inv_def)
  have "length (takeWhile (below_end hi) (inorder t)) - x \<le> length (inorder t) - x" for x
    by (intro diff_le_mono length_takeWhile_le)
  then show ?thesis
    using filter_window [OF partitioned_start [OF asc, of lo] partitioned_end [OF asc, of hi]]
    by (simp add: count_in_def bound_ranks_ok [OF assms] in_bounds_def [abs_def] min_absorb2)
qed

section \<open>Iterators\<close>

text \<open>What an entry of a forward stack has still to yield, and of a backward one.\<close>

definition upcoming :: "'k node \<times> nat \<Rightarrow> 'k list" where
  "upcoming e = (if is_leaf (fst e) then drop (snd e) (nkeys (fst e)) else rights (snd e) (fst e))"

definition preceding :: "'k node \<times> nat \<Rightarrow> 'k list" where
  "preceding e = rev (if is_leaf (fst e) then take (Suc (snd e)) (nkeys (fst e)) else lefts (Suc (snd e)) (fst e))"

text \<open>The heights of the nodes on a path grow towards the bottom, so a path is short.\<close>

fun path_ok :: "nat \<Rightarrow> nat \<Rightarrow> 'k path \<Rightarrow> bool" where
  "path_ok H l [] = True"
| "path_ok H l ((n, i) # p) \<longleftrightarrow>
     (\<exists>h. l \<le> h \<and> h \<le> H \<and> shaped h n \<and> i < length (nkeys n) \<and> path_ok H (Suc h) p)"

lemma path_ok_length: "path_ok H l p \<Longrightarrow> l \<le> Suc H \<Longrightarrow> length p \<le> Suc H - l"
proof (induction H l p rule: path_ok.induct)
  case (2 H l n i p)
  then obtain h where "l \<le> h" "h \<le> H" "path_ok H (Suc h) p" by auto
  moreover from this 2 have "length p \<le> Suc H - Suc h" by auto
  ultimately show ?case by auto
qed simp

lemma path_ok_mono: "path_ok H l p \<Longrightarrow> l' \<le> l \<Longrightarrow> path_ok H l' p"
proof (cases p)
  case (Cons e q)
  obtain n i where e: "e = (n, i)" by (cases e)
  assume "path_ok H l p" "l' \<le> l"
  then obtain h where "l' \<le> h" "h \<le> H" "shaped h n" "i < length (nkeys n)" "path_ok H (Suc h) q"
    unfolding Cons e path_ok.simps by (metis order_trans)
  then show ?thesis unfolding Cons e path_ok.simps by blast
qed simp

lemma push_ok:
  assumes "path_ok H (Suc h) p" "H < max_height" "h \<le> H"
  shows "path_push p e = Some (e # p)"
  using path_ok_length [OF assms(1)] assms(2,3) by (simp add: path_push_def)

lemma upcoming_leaf: "shaped 0 n \<Longrightarrow> upcoming (n, i) = drop i (inorder n)"
  by (cases n) (simp add: upcoming_def is_leaf_def)

lemma upcoming_inner: "inner h n \<Longrightarrow> upcoming (n, i) = rights i n"
  by (simp add: upcoming_def inner_not_leaf)

lemma descend_left_ok:
  assumes "H < max_height"
  shows "shaped h n \<Longrightarrow> min_keys \<le> length (nkeys n) \<Longrightarrow> h \<le> H \<Longrightarrow> path_ok H (Suc h) p \<Longrightarrow>
    \<exists>q. descend_left p n = Some q \<and> path_ok H 0 q \<and>
        concat (map upcoming q) = inorder n @ concat (map upcoming p)"
proof (induction h arbitrary: n p)
  case 0
  then obtain ks where n: "n = Node ks [] (length ks)" by (cases n) auto
  have "ks \<noteq> []" using 0(2) n by (auto simp: min_keys_def max_keys_def)
  then show ?case
    using 0 push_ok [OF 0(4) assms] upcoming_leaf [OF 0(1), of 0] by (auto simp: n)
next
  case (Suc h)
  obtain ks c cs t where n: "n = Node ks (c # cs) t"
    using Suc.prems(1) by (cases n; cases "nchildren n") auto
  have i: "inner h n" using Suc.prems(1) by (simp add: shaped_inner)
  have "nkeys n \<noteq> []" using Suc.prems(2) by (auto simp: min_keys_def max_keys_def)
  then have p': "path_ok H (Suc h) ((n, 0) # p)" using Suc.prems(1,3,4) by auto
  have c: "shaped h c" "min_keys \<le> length (nkeys c)" using Suc.prems(1) n by auto
  have "h \<le> H" using Suc.prems(3) by simp
  from Suc.IH [OF c this p'] obtain q where
    q: "descend_left ((n, 0) # p) c = Some q" "path_ok H 0 q"
      "concat (map upcoming q) = inorder c @ concat (map upcoming ((n, 0) # p))" by blast
  have "nchildren n ! 0 = c" using n by simp
  then have "inorder n = inorder c @ upcoming (n, 0)"
    using inner_at [OF i, of 0] upcoming_inner [OF i, of 0] by simp
  moreover have "descend_left p n = descend_left ((n, 0) # p) c"
    using push_ok [OF Suc.prems(4) assms Suc.prems(3)] n by simp
  ultimately show ?case using q by simp
qed

end
