(* ===== verification/RankTree_Iter.thy ===== *)
theory RankTree_Iter
  imports RankTree_Query
begin

text \<open>
  The iterators of \<open>kevy-ranktree\<close> yield the keys in order: one interface for a stepwise
  producer, and the forward and the backward iterator as its two implementations. Their path
  stacks hold 24 entries, which is enough for every tree whose size is a \<open>usize\<close>.
\<close>

section \<open>The interface of an iterator\<close>

locale yielding =
  fixes step :: "'i \<Rightarrow> ('k option \<times> 'i) option" and yields :: "'i \<Rightarrow> 'k list \<Rightarrow> bool"
  assumes step_end: "yields it [] \<Longrightarrow> step it = Some (None, it)"
    and step_next: "yields it (x # xs) \<Longrightarrow> \<exists>it'. step it = Some (Some x, it') \<and> yields it' xs"
begin

lemma drain_yields: "yields it xs \<Longrightarrow> drain step (Suc (length xs)) it = Some xs"
proof (induction xs arbitrary: it)
  case Nil
  then show ?case using step_end by simp
next
  case (Cons x xs)
  then obtain it' where "step it = Some (Some x, it')" "yields it' xs" using step_next by blast
  then show ?case using Cons.IH by simp
qed

lemma yields_unique: "yields it xs \<Longrightarrow> yields it ys \<Longrightarrow> xs = ys"
proof (induction xs arbitrary: it ys)
  case Nil
  then show ?case using step_end step_next by (cases ys) fastforce+
next
  case (Cons x xs)
  then obtain it' where s: "step it = Some (Some x, it')" "yields it' xs" using step_next by blast
  show ?case
  proof (cases ys)
    case Nil
    then show ?thesis using Cons.prems(2) s step_end by force
  next
    case (Cons y zs)
    then obtain it'' where "step it = Some (Some y, it'')" "yields it'' zs" using Cons.prems step_next by blast
    then show ?thesis using s Cons.IH [of it'] Cons by auto
  qed
qed

end

section \<open>Forward\<close>

definition iter_yields :: "'k iter \<Rightarrow> 'k list \<Rightarrow> bool" where
  "iter_yields it xs \<longleftrightarrow>
     (\<exists>H. H < max_height \<and> path_ok H 0 (it_stack it)) \<and> it_remaining it = length xs \<and>
     take (length xs) (concat (map upcoming (it_stack it))) = xs"

lemma upcoming_end: "shaped h n \<Longrightarrow> length (nkeys n) \<le> i \<Longrightarrow> upcoming (n, i) = []"
  by (cases n) (simp add: upcoming_def)

lemma after_forward:
  assumes "shaped h n" "h \<le> H" "path_ok H (Suc h) p"
    and q_def: "q = (if i + 1 < length (nkeys n) then (n, i + 1) # p else p)"
  shows "path_ok H h q \<and> concat (map upcoming q) = upcoming (n, i + 1) @ concat (map upcoming p)"
  using assms(1-3) upcoming_end [OF assms(1), of "i + 1"] path_ok_mono [OF assms(3), of h]
  by (auto simp: q_def)

lemma forward_step:
  assumes sh: "shaped h n" and i: "i < length (nkeys n)" and H: "h \<le> H" "H < max_height" and p: "path_ok H (Suc h) p"
  shows "\<exists>q. iter_next \<lparr>it_stack = (n, i) # p, it_remaining = Suc r\<rparr>
               = Some (Some (nkeys n ! i), \<lparr>it_stack = q, it_remaining = r\<rparr>) \<and>
             path_ok H 0 q \<and> upcoming (n, i) @ concat (map upcoming p) = nkeys n ! i # concat (map upcoming q)"
proof -
  define p1 where "p1 = (if i + 1 < length (nkeys n) then (n, i + 1) # p else p)"
  have p1: "path_ok H h p1" "concat (map upcoming p1) = upcoming (n, i + 1) @ concat (map upcoming p)"
    using after_forward [OF sh H(1) p p1_def] by auto
  have push: "(if i + 1 < length (nkeys n) then path_push p (n, i + 1) else Some p) = Some p1"
    using push_ok [OF p H(2,1)] by (simp add: p1_def)
  have key: "nth_opt (nkeys n) i = Some (nkeys n ! i)" using i by (simp add: nth_opt_def)
  show ?thesis
  proof (cases h)
    case 0
    then have "is_leaf n" using shaped_leaf [OF sh] by simp
    moreover from this have "upcoming (n, i) = nkeys n ! i # upcoming (n, i + 1)"
      using i by (simp add: upcoming_def Cons_nth_drop_Suc)
    ultimately show ?thesis
      using push p1 key path_ok_mono [OF p1(1), of 0] by (simp add: iter_next_def path_pop_def)
  next
    case (Suc h')
    then have n: "inner h' n" using sh by (simp add: shaped_inner)
    have c: "i + 1 < length (nchildren n)" "shaped h' (nchildren n ! (i + 1))"
      "min_keys \<le> length (nkeys (nchildren n ! (i + 1)))" using inner_child [OF n, of "i + 1"] i by auto
    obtain q where q: "descend_left p1 (nchildren n ! (i + 1)) = Some q" "path_ok H 0 q"
      "concat (map upcoming q) = inorder (nchildren n ! (i + 1)) @ concat (map upcoming p1)"
      using descend_left_ok [OF H(2) c(2,3)] H(1) Suc p1(1) by auto
    have "upcoming (n, i) = nkeys n ! i # inorder (nchildren n ! (i + 1)) @ upcoming (n, i + 1)"
      using inner_two_at [OF n i] upcoming_inner [OF n] by simp
    then show ?thesis
      using push p1(2) key q c(1) inner_not_leaf [OF n] by (simp add: iter_next_def path_pop_def)
  qed
qed

interpretation forward: yielding iter_next iter_yields
proof unfold_locales
  fix it :: "'a iter"
  assume "iter_yields it []"
  then show "iter_next it = Some (None, it)" by (simp add: iter_yields_def iter_next_def)
next
  fix it :: "'a iter" and x xs
  assume y: "iter_yields it (x # xs)"
  then obtain H where H: "H < max_height" "path_ok H 0 (it_stack it)"
    and r: "it_remaining it = Suc (length xs)" and tk: "take (Suc (length xs)) (concat (map upcoming (it_stack it))) = x # xs"
    by (auto simp: iter_yields_def)
  then obtain n i p where st: "it_stack it = (n, i) # p" by (cases "it_stack it") auto
  then obtain h where h: "h \<le> H" "shaped h n" "i < length (nkeys n)" "path_ok H (Suc h) p" using H(2) by auto
  have it: "it = \<lparr>it_stack = (n, i) # p, it_remaining = Suc (length xs)\<rparr>" using st r by simp
  obtain q where q: "iter_next it = Some (Some (nkeys n ! i), \<lparr>it_stack = q, it_remaining = length xs\<rparr>)" "path_ok H 0 q"
    "upcoming (n, i) @ concat (map upcoming p) = nkeys n ! i # concat (map upcoming q)"
    unfolding it using forward_step [OF h(2,3,1) H(1) h(4)] by blast
  then have "x = nkeys n ! i" "take (length xs) (concat (map upcoming q)) = xs" using tk st by auto
  then show "\<exists>it'. iter_next it = Some (Some x, it') \<and> iter_yields it' xs"
    using q H(1) by (auto simp: iter_yields_def)
qed

abbreviation fwd_descend :: "'k node \<Rightarrow> nat \<Rightarrow> 'k path \<Rightarrow> 'k path option" where
  "fwd_descend \<equiv> \<lambda>n i s. if i < length (nkeys n) then path_push s (n, i) else Some s"

lemma path_ok_cons: "shaped h n \<Longrightarrow> i < length (nkeys n) \<Longrightarrow> l \<le> h \<Longrightarrow> h \<le> H \<Longrightarrow> path_ok H (Suc h) p \<Longrightarrow> path_ok H l ((n, i) # p)"
  by auto

lemma descend_forward:
  assumes H: "H < max_height"
  shows "shaped h n \<Longrightarrow> rank < length (inorder n) \<Longrightarrow> h \<le> H \<Longrightarrow> path_ok H (Suc h) s \<Longrightarrow>
    \<exists>m idx s'. descend_to_rank fwd_descend n rank s = Some (m, idx, s') \<and> path_ok H 0 ((m, idx) # s') \<and>
      concat (map upcoming ((m, idx) # s')) = drop rank (inorder n) @ concat (map upcoming s)"
proof (induction h arbitrary: n rank s)
  case 0
  then have "is_leaf n" using shaped_leaf [OF 0(1)] by simp
  moreover have "rank < length (nkeys n)" using 0 by (cases n) auto
  ultimately show ?case
    using upcoming_leaf [OF 0(1), of rank] path_ok_cons [OF 0(1), of rank 0 H s] 0(4) by (simp add: descend_to_rank.simps)
next
  case (Suc h)
  then have n: "inner h n" by (simp add: shaped_inner)
  note nl = inner_not_leaf [OF n]
  from inner_pick [OF n Suc.prems(2)] show ?case
  proof (elim disjE exE conjE)
    fix i r assume p: "pick_child (nchildren n) rank 0 = Some (i, r, True)" "i \<le> length (nkeys n)"
      "r < length (inorder (nchildren n ! i))" "rank = length (lefts i n) + r"
    define s1 where "s1 = (if i < length (nkeys n) then (n, i) # s else s)"
    have push: "fwd_descend n i s = Some s1" using push_ok [OF Suc.prems(4) H Suc.prems(3)] by (simp add: s1_def)
    have up: "concat (map upcoming s1) = upcoming (n, i) @ concat (map upcoming s)"
      using upcoming_end [OF Suc.prems(1), of i] by (auto simp: s1_def)
    have ok: "path_ok H (Suc h) s1"
      using path_ok_cons [OF Suc.prems(1), of i "Suc h" H s] Suc.prems(3,4) path_ok_mono [OF Suc.prems(4), of "Suc h"]
      by (simp add: s1_def)
    have d: "drop rank (inorder n) = drop r (inorder (nchildren n ! i)) @ upcoming (n, i)"
      unfolding inner_at [OF n p(2)] p(4) using p(3) upcoming_inner [OF n, of i] by simp
    have "h \<le> H" using Suc.prems(3) by simp
    from Suc.IH [OF _ p(3) this ok] inner_child [OF n p(2)] show ?thesis
      using nl p(1) push d up by (simp add: descend_to_rank.simps [of _ n])
  next
    fix i assume p: "pick_child (nchildren n) rank 0 = Some (i, 0, False)" "i < length (nkeys n)"
      "rank = length (lefts i n) + length (inorder (nchildren n ! i))"
    have "drop rank (inorder n) = upcoming (n, i)"
      using inner_at [OF n less_imp_le [OF p(2)]] p(3) upcoming_inner [OF n, of i] by simp
    then show ?thesis
      using nl p(1,2) path_ok_cons [OF Suc.prems(1) p(2), of 0 H s] Suc.prems(3,4) by (simp add: descend_to_rank.simps [of _ n])
  qed
qed

lemma push_top:
  assumes "path_ok H 0 (e # p)" "H < max_height"
  shows "path_push p e = Some (e # p)"
  using path_ok_length [OF assms(1)] assms(2) by (simp add: path_push_def)

lemma iter_new_yields:
  assumes "shaped h t" "h < max_height"
  shows "\<exists>it. iter_new_from t rank = Some it \<and> iter_yields it (drop rank (inorder t))"
proof (cases "rank < length (inorder t)")
  case True
  have "path_ok h (Suc h) []" by simp
  from descend_forward [OF assms(2,1) True order_refl this] obtain m idx s where
    d: "descend_to_rank fwd_descend t rank [] = Some (m, idx, s)" "path_ok h 0 ((m, idx) # s)"
      "concat (map upcoming ((m, idx) # s)) = drop rank (inorder t)" by auto
  have "iter_yields \<lparr>it_stack = (m, idx) # s, it_remaining = length (drop rank (inorder t))\<rparr> (drop rank (inorder t))"
    unfolding iter_yields_def using d(2,3) assms(2) by (auto simp del: path_ok.simps)
  then show ?thesis
    using True d(1) push_top [OF d(2) assms(2)] shaped_total [OF assms(1)] by (simp add: iter_new_from_def)
next
  case False
  have "iter_yields \<lparr>it_stack = [], it_remaining = 0\<rparr> []" using assms(2) by (auto simp: iter_yields_def)
  then show ?thesis using False shaped_total [OF assms(1)] by (simp add: iter_new_from_def)
qed

lemma iter_capped_yields: "iter_yields it xs \<Longrightarrow> iter_yields (iter_capped it cap) (take cap xs)"
  by (auto simp: iter_yields_def iter_capped_def min_def) (metis min.absorb2 min.commute nat_le_linear take_take)

section \<open>Backward\<close>

definition rev_yields :: "'k iter \<Rightarrow> 'k list \<Rightarrow> bool" where
  "rev_yields it xs \<longleftrightarrow>
     (\<exists>H. H < max_height \<and> path_ok H 0 (it_stack it)) \<and> it_remaining it = length xs \<and>
     take (length xs) (concat (map preceding (it_stack it))) = xs"

lemma preceding_leaf: "shaped 0 n \<Longrightarrow> preceding (n, i) = rev (take (Suc i) (inorder n))"
  by (cases n) (simp add: preceding_def is_leaf_def)

lemma preceding_inner: "inner h n \<Longrightarrow> preceding (n, i) = rev (lefts (Suc i) n)"
  by (simp add: preceding_def inner_not_leaf)

lemma descend_right_ok:
  assumes H: "H < max_height"
  shows "shaped h n \<Longrightarrow> min_keys \<le> length (nkeys n) \<Longrightarrow> h \<le> H \<Longrightarrow> path_ok H (Suc h) p \<Longrightarrow>
    \<exists>q. descend_right p n = Some q \<and> path_ok H 0 q \<and>
        concat (map preceding q) = rev (inorder n) @ concat (map preceding p)"
proof (induction h arbitrary: n p)
  case 0
  have ne: "nkeys n \<noteq> []" using 0(2) by (auto simp: min_keys_def max_keys_def)
  have "length (inorder n) = length (nkeys n)" using 0(1) by (cases n) auto
  then have "preceding (n, length (nkeys n) - 1) = rev (inorder n)" using preceding_leaf [OF 0(1)] ne by simp
  then show ?case
    using ne 0 push_ok [OF 0(4) H] shaped_leaf [OF 0(1)] path_ok_cons [OF 0(1), of "length (nkeys n) - 1" 0 H p]
    by (simp add: descend_right.simps [of p n])
next
  case (Suc h)
  have ne: "nkeys n \<noteq> []" using Suc.prems(2) by (auto simp: min_keys_def max_keys_def)
  have n: "inner h n" using Suc.prems(1) by (simp add: shaped_inner)
  define l where "l = length (nkeys n)"
  have last: "length (nchildren n) - 1 = l" using n by (simp add: inner_def l_def)
  note c = inner_child [OF n, of l, unfolded l_def, OF order_refl, folded l_def]
  have p': "path_ok H (Suc h) ((n, l - 1) # p)"
    using path_ok_cons [OF Suc.prems(1), of "l - 1" "Suc h" H p] Suc.prems(3,4) ne by (simp add: l_def)
  have "h \<le> H" using Suc.prems(3) by simp
  from Suc.IH [OF _ _ this p'] c obtain q where
    q: "descend_right ((n, l - 1) # p) (nchildren n ! l) = Some q" "path_ok H 0 q"
      "concat (map preceding q) = rev (inorder (nchildren n ! l)) @ concat (map preceding ((n, l - 1) # p))" by blast
  have "rev (inorder n) = rev (inorder (nchildren n ! l)) @ preceding (n, l - 1)"
    using inner_at [OF n, of l] preceding_inner [OF n, of "l - 1"] ne by (simp add: l_def)
  moreover have "descend_right p n = descend_right ((n, l - 1) # p) (nchildren n ! l)"
    using push_ok [OF Suc.prems(4) H Suc.prems(3)] ne inner_not_leaf [OF n] last
    by (simp add: descend_right.simps [of p n] l_def)
  ultimately show ?case using q by simp
qed

lemma backward_step:
  assumes sh: "shaped h n" and i: "i < length (nkeys n)" and H: "h \<le> H" "H < max_height" and p: "path_ok H (Suc h) p"
  shows "\<exists>q. rev_next \<lparr>it_stack = (n, i) # p, it_remaining = Suc r\<rparr>
               = Some (Some (nkeys n ! i), \<lparr>it_stack = q, it_remaining = r\<rparr>) \<and>
             path_ok H 0 q \<and> preceding (n, i) @ concat (map preceding p) = nkeys n ! i # concat (map preceding q)"
proof -
  define p1 where "p1 = (if i > 0 then (n, i - 1) # p else p)"
  have p1: "path_ok H h p1"
    using path_ok_cons [OF sh, of "i - 1" h H p] i H(1) p path_ok_mono [OF p, of h]
    by (cases i) (simp_all add: p1_def del: path_ok.simps)
  have push: "(if i > 0 then path_push p (n, i - 1) else Some p) = Some p1"
    using push_ok [OF p H(2,1)] by (simp add: p1_def)
  have key: "nth_opt (nkeys n) i = Some (nkeys n ! i)" using i by (simp add: nth_opt_def)
  show ?thesis
  proof (cases h)
    case 0
    then have l: "is_leaf n" using shaped_leaf [OF sh] by simp
    then have "preceding (n, i) @ concat (map preceding p) = nkeys n ! i # concat (map preceding p1)"
      using i by (cases i) (simp_all add: preceding_def p1_def take_Suc_conv_app_nth)
    then show ?thesis
      using l push key path_ok_mono [OF p1, of 0] by (simp add: rev_next_def path_pop_def)
  next
    case (Suc h')
    then have n: "inner h' n" using sh by (simp add: shaped_inner)
    have c: "i < length (nchildren n)" "shaped h' (nchildren n ! i)" "min_keys \<le> length (nkeys (nchildren n ! i))"
      using inner_child [OF n, of i] i by auto
    obtain q where q: "descend_right p1 (nchildren n ! i) = Some q" "path_ok H 0 q"
      "concat (map preceding q) = rev (inorder (nchildren n ! i)) @ concat (map preceding p1)"
      using descend_right_ok [OF H(2) c(2,3)] H(1) Suc p1 by auto
    have "preceding (n, i) = nkeys n ! i # rev (inorder (nchildren n ! i)) @ rev (lefts i n)"
      using inner_two_at [OF n i] preceding_inner [OF n] by simp
    moreover have "concat (map preceding p1) = rev (lefts i n) @ concat (map preceding p)"
      using preceding_inner [OF n, of "i - 1"] by (cases i) (simp_all add: p1_def)
    ultimately show ?thesis
      using push key q c(1) inner_not_leaf [OF n] by (simp add: rev_next_def path_pop_def)
  qed
qed

interpretation backward: yielding rev_next rev_yields
proof unfold_locales
  fix it :: "'a iter"
  assume "rev_yields it []"
  then show "rev_next it = Some (None, it)" by (simp add: rev_yields_def rev_next_def)
next
  fix it :: "'a iter" and x xs
  assume y: "rev_yields it (x # xs)"
  then obtain H where H: "H < max_height" "path_ok H 0 (it_stack it)"
    and r: "it_remaining it = Suc (length xs)" and tk: "take (Suc (length xs)) (concat (map preceding (it_stack it))) = x # xs"
    by (auto simp: rev_yields_def)
  then obtain n i p where st: "it_stack it = (n, i) # p" by (cases "it_stack it") auto
  then obtain h where h: "h \<le> H" "shaped h n" "i < length (nkeys n)" "path_ok H (Suc h) p" using H(2) by auto
  have it: "it = \<lparr>it_stack = (n, i) # p, it_remaining = Suc (length xs)\<rparr>" using st r by simp
  obtain q where q: "rev_next it = Some (Some (nkeys n ! i), \<lparr>it_stack = q, it_remaining = length xs\<rparr>)" "path_ok H 0 q"
    "preceding (n, i) @ concat (map preceding p) = nkeys n ! i # concat (map preceding q)"
    unfolding it using backward_step [OF h(2,3,1) H(1) h(4)] by blast
  then have "x = nkeys n ! i" "take (length xs) (concat (map preceding q)) = xs" using tk st by auto
  then show "\<exists>it'. rev_next it = Some (Some x, it') \<and> rev_yields it' xs"
    using q H(1) by (auto simp: rev_yields_def)
qed

abbreviation rev_descend :: "'k node \<Rightarrow> nat \<Rightarrow> 'k path \<Rightarrow> 'k path option" where
  "rev_descend \<equiv> \<lambda>n i s. if i > 0 then path_push s (n, i - 1) else Some s"

lemma descend_backward:
  assumes H: "H < max_height"
  shows "shaped h n \<Longrightarrow> rank < length (inorder n) \<Longrightarrow> h \<le> H \<Longrightarrow> path_ok H (Suc h) s \<Longrightarrow>
    \<exists>m idx s'. descend_to_rank rev_descend n rank s = Some (m, idx, s') \<and> path_ok H 0 ((m, idx) # s') \<and>
      concat (map preceding ((m, idx) # s')) = rev (take (Suc rank) (inorder n)) @ concat (map preceding s)"
proof (induction h arbitrary: n rank s)
  case 0
  then have "is_leaf n" using shaped_leaf [OF 0(1)] by simp
  moreover have "rank < length (nkeys n)" using 0 by (cases n) auto
  ultimately show ?case
    using preceding_leaf [OF 0(1), of rank] path_ok_cons [OF 0(1), of rank 0 H s] 0(4) by (simp add: descend_to_rank.simps)
next
  case (Suc h)
  then have n: "inner h n" by (simp add: shaped_inner)
  note nl = inner_not_leaf [OF n]
  from inner_pick [OF n Suc.prems(2)] show ?case
  proof (elim disjE exE conjE)
    fix i r assume p: "pick_child (nchildren n) rank 0 = Some (i, r, True)" "i \<le> length (nkeys n)"
      "r < length (inorder (nchildren n ! i))" "rank = length (lefts i n) + r"
    define s1 where "s1 = (if i > 0 then (n, i - 1) # s else s)"
    have push: "rev_descend n i s = Some s1" using push_ok [OF Suc.prems(4) H Suc.prems(3)] by (simp add: s1_def)
    have up: "concat (map preceding s1) = rev (lefts i n) @ concat (map preceding s)"
      using preceding_inner [OF n, of "i - 1"] by (cases i) (simp_all add: s1_def)
    have ok: "path_ok H (Suc h) s1"
      using path_ok_cons [OF Suc.prems(1), of "i - 1" "Suc h" H s] Suc.prems(3,4) p(2) path_ok_mono [OF Suc.prems(4), of "Suc h"]
      by (cases i) (simp_all add: s1_def del: path_ok.simps)
    have d: "take (Suc rank) (inorder n) = lefts i n @ take (Suc r) (inorder (nchildren n ! i))"
      unfolding inner_at [OF n p(2)] p(4) using p(3) by simp
    have "h \<le> H" using Suc.prems(3) by simp
    from Suc.IH [OF _ p(3) this ok] inner_child [OF n p(2)] show ?thesis
      using nl p(1) push d up by (simp add: descend_to_rank.simps [of _ n])
  next
    fix i assume p: "pick_child (nchildren n) rank 0 = Some (i, 0, False)" "i < length (nkeys n)"
      "rank = length (lefts i n) + length (inorder (nchildren n ! i))"
    have "preceding (n, i) = rev (take (Suc rank) (inorder n))"
      using inner_two_at [OF n p(2)] p(3) preceding_inner [OF n, of i] by simp
    then show ?thesis
      using nl p(1,2) path_ok_cons [OF Suc.prems(1) p(2), of 0 H s] Suc.prems(3,4) by (simp add: descend_to_rank.simps [of _ n])
  qed
qed

lemma rev_new_yields:
  assumes "shaped h t" "h < max_height"
  shows "\<exists>it. rev_new_through t through = Some it \<and> rev_yields it (rev (take through (inorder t)))"
proof (cases "min through (length (inorder t)) = 0")
  case False
  define rank where "rank = min through (length (inorder t)) - 1"
  have r: "rank < length (inorder t)" "Suc rank = min through (length (inorder t))" 
    using False min.cobounded2 [of through "length (inorder t)"] unfolding rank_def by linarith+
  have tk: "take (Suc rank) (inorder t) = take through (inorder t)" unfolding r(2) by (simp add: min_def)
  have "path_ok h (Suc h) []" by simp
  from descend_backward [OF assms(2,1) r(1) order_refl this] obtain m idx s where
    d: "descend_to_rank rev_descend t rank [] = Some (m, idx, s)" "path_ok h 0 ((m, idx) # s)"
      "concat (map preceding ((m, idx) # s)) = rev (take through (inorder t))" unfolding tk by auto
  have "rev_yields \<lparr>it_stack = (m, idx) # s, it_remaining = length (take through (inorder t))\<rparr> (rev (take through (inorder t)))"
    unfolding rev_yields_def using d(2,3) assms(2) by (auto simp del: path_ok.simps)
  then show ?thesis
    using d(1) push_top [OF d(2) assms(2)] shaped_total [OF assms(1)] r(2) [symmetric]
    by (simp add: rev_new_through_def Let_def min.commute)
next
  case True
  have "rev_yields \<lparr>it_stack = [], it_remaining = 0\<rparr> []" using assms(2) by (auto simp: rev_yields_def)
  then show ?thesis using True shaped_total [OF assms(1)] by (auto simp: rev_new_through_def min_def split: if_splits)
qed

end
