(* ===== verification/RankTree_Laws.thy ===== *)
theory RankTree_Laws
  imports RankTree_Iter
begin

text \<open>
  The contract of the rank tree as an ordered set, runs of insertions and removals against
  it, and the properties of the queries and the iterators on every tree such runs build.
\<close>

section \<open>Ordered sets\<close>

datatype 'k set_op = Ins 'k | Del 'k

fun op_result :: "'k set_op \<Rightarrow> 'k set \<Rightarrow> bool" where
  "op_result (Ins k) S = (k \<notin> S)"
| "op_result (Del k) S = (k \<in> S)"

fun op_effect :: "'k set_op \<Rightarrow> 'k set \<Rightarrow> 'k set" where
  "op_effect (Ins k) S = insert k S"
| "op_effect (Del k) S = S - {k}"

fun spec_run :: "'k set_op list \<Rightarrow> 'k set \<Rightarrow> bool list \<times> 'k set" where
  "spec_run [] S = ([], S)"
| "spec_run (c # ops) S = (let (bs, S') = spec_run ops (op_effect c S) in (op_result c S # bs, S'))"

text \<open>A run of operations on an implementation, with the answers it gives.\<close>

fun exec_op :: "('t \<Rightarrow> 'k \<Rightarrow> ('t \<times> bool) option) \<Rightarrow> ('t \<Rightarrow> 'k \<Rightarrow> ('t \<times> bool) option) \<Rightarrow> 't \<Rightarrow> 'k set_op \<Rightarrow> ('t \<times> bool) option" where
  "exec_op ins del t (Ins k) = ins t k"
| "exec_op ins del t (Del k) = del t k"

fun run_ops :: "('t \<Rightarrow> 'k \<Rightarrow> ('t \<times> bool) option) \<Rightarrow> ('t \<Rightarrow> 'k \<Rightarrow> ('t \<times> bool) option) \<Rightarrow> 'k set_op list \<Rightarrow> 't \<Rightarrow> (bool list \<times> 't) option" where
  "run_ops ins del [] t = Some ([], t)"
| "run_ops ins del (c # ops) t =
     (case exec_op ins del t c of None \<Rightarrow> None
      | Some (t', b) \<Rightarrow> map_option (\<lambda>(bs, t''). (b # bs, t'')) (run_ops ins del ops t'))"

locale ordered_set =
  fixes empty :: 't and ins del :: "'t \<Rightarrow> 'k::linorder \<Rightarrow> ('t \<times> bool) option"
    and keys :: "'t \<Rightarrow> 'k list" and inv :: "'t \<Rightarrow> bool"
  assumes empty: "inv empty" "keys empty = []"
    and keys_ascending: "inv t \<Longrightarrow> ascending (keys t)"
    and ins: "inv t \<Longrightarrow> \<exists>t'. ins t k = Some (t', k \<notin> set (keys t)) \<and> inv t' \<and> set (keys t') = insert k (set (keys t))"
    and del: "inv t \<Longrightarrow> \<exists>t'. del t k = Some (t', k \<in> set (keys t)) \<and> inv t' \<and> set (keys t') = set (keys t) - {k}"
begin

lemma exec_ok:
  "inv t \<Longrightarrow> \<exists>t'. exec_op ins del t c = Some (t', op_result c (set (keys t))) \<and> inv t' \<and> set (keys t') = op_effect c (set (keys t))"
  using ins del by (cases c) simp_all

lemma run_ok:
  "inv t \<Longrightarrow> \<exists>bs t'. run_ops ins del ops t = Some (bs, t') \<and> inv t' \<and> (bs, set (keys t')) = spec_run ops (set (keys t))"
proof (induction ops arbitrary: t)
  case (Cons c ops)
  then obtain t1 where t1: "exec_op ins del t c = Some (t1, op_result c (set (keys t)))" "inv t1" "set (keys t1) = op_effect c (set (keys t))"
    using exec_ok by blast
  obtain bs t' where "run_ops ins del ops t1 = Some (bs, t')" "inv t'" "(bs, set (keys t')) = spec_run ops (set (keys t1))"
    using Cons.IH [OF t1(2)] by blast
  then show ?case using t1 by (auto simp: split: prod.splits dest: sym)
qed simp

lemma keys_sorted: "inv t \<Longrightarrow> keys t = sorted_list_of_set (set (keys t))"
  using keys_ascending [of t] by (metis ascending_distinct sorted_list_of_set.idem_if_sorted_distinct strict_sorted_imp_sorted)

lemma run_empty:
  "\<exists>bs t. run_ops ins del ops empty = Some (bs, t) \<and> inv t \<and> bs = fst (spec_run ops {}) \<and>
          keys t = sorted_list_of_set (snd (spec_run ops {}))"
proof -
  obtain bs t where r: "run_ops ins del ops empty = Some (bs, t)" "inv t" "(bs, set (keys t)) = spec_run ops {}"
    using run_ok [OF empty(1), of ops] empty(2) by auto
  then have "bs = fst (spec_run ops {})" "set (keys t) = snd (spec_run ops {})" by (metis fst_conv, metis snd_conv)
  then show ?thesis using r keys_sorted [OF r(2)] by simp
qed

end

interpretation rank_set: ordered_set leaf tree_insert tree_remove inorder rank_tree_inv
proof unfold_locales
  show "rank_tree_inv leaf" by (rule rank_tree_inv_leaf)
  show "inorder leaf = []" by (simp add: leaf_def)
next
  fix t :: "'a node" and k
  assume t: "rank_tree_inv t"
  show "ascending (inorder t)" using t by (simp add: rank_tree_inv_def)
  show "\<exists>t'. tree_insert t k = Some (t', k \<notin> set (inorder t)) \<and> rank_tree_inv t' \<and> set (inorder t') = insert k (set (inorder t))"
    using tree_insert_ok [OF t, of k] by (metis ins_sorted_set)
  show "\<exists>t'. tree_remove t k = Some (t', k \<in> set (inorder t)) \<and> rank_tree_inv t' \<and> set (inorder t') = set (inorder t) - {k}"
    using tree_remove_ok [OF t, of k] by (metis set_removeAll)
qed

section \<open>The height of a tree\<close>

lemma weave_length_Suc: "length cs = Suc (length ks) \<Longrightarrow> Suc (length (weave cs ks)) = sum_list (map (\<lambda>c. Suc (length c)) cs)"
proof (induction ks arbitrary: cs)
  case Nil
  then show ?case by (cases cs) auto
next
  case (Cons k ks)
  then show ?case by (cases cs) auto
qed

lemma sum_list_bound: "\<forall>c \<in> set cs. m \<le> f c \<Longrightarrow> length cs * m \<le> sum_list (map (f :: 'a \<Rightarrow> nat) cs)"
  by (induction cs) auto

lemma inner_size:
  assumes "inner h n" "\<forall>c \<in> set (nchildren n). m \<le> Suc (length (inorder c))"
  shows "Suc (length (nkeys n)) * m \<le> Suc (length (inorder n))"
  using weave_length_Suc [of "map inorder (nchildren n)" "nkeys n"]
    sum_list_bound [of "nchildren n" m "\<lambda>c. Suc (length (inorder c))"] assms
  by (simp add: inner_def inorder_unfold [of n] comp_def)

lemma shaped_size: "shaped h n \<Longrightarrow> min_keys \<le> length (nkeys n) \<Longrightarrow> 8 ^ Suc h \<le> Suc (length (inorder n))"
proof (induction h arbitrary: n)
  case 0
  then show ?case by (cases n) (auto simp: min_keys_def max_keys_def)
next
  case (Suc h)
  then have n: "inner h n" by (simp add: shaped_inner)
  have "Suc (length (nkeys n)) * 8 ^ Suc h \<le> Suc (length (inorder n))"
    using Suc.IH n by (intro inner_size [OF n]) (auto simp: inner_def)
  moreover have "8 * 8 ^ Suc h \<le> Suc (length (nkeys n)) * (8 :: nat) ^ Suc h"
    using Suc.prems(2) by (intro mult_le_mono1) (simp add: min_keys_def max_keys_def)
  ultimately have "8 * 8 ^ Suc h \<le> Suc (length (inorder n))" by (rule order_trans [rotated])
  then show ?case by simp
qed

lemma root_size:
  assumes "rank_tree_inv t" "0 < height t"
  shows "2 * 8 ^ height t \<le> Suc (tree_len t)"
proof -
  obtain h where h: "height t = Suc h" using assms(2) by (cases "height t") auto
  have sh: "shaped (Suc h) t" and ne: "nkeys t \<noteq> []"
    using assms shaped_leaf [of "height t" t] h by (auto simp: rank_tree_inv_def)
  then have t: "inner h t" by (simp add: shaped_inner)
  have "Suc (length (nkeys t)) * 8 ^ Suc h \<le> Suc (length (inorder t))"
    using t shaped_size by (intro inner_size [OF t]) (auto simp: inner_def)
  moreover have "2 * 8 ^ Suc h \<le> Suc (length (nkeys t)) * (8 :: nat) ^ Suc h"
    using ne by (intro mult_le_mono1) (cases "nkeys t"; simp)
  ultimately have "2 * 8 ^ Suc h \<le> Suc (length (inorder t))" by (rule order_trans [rotated])
  then show ?thesis using h shaped_total [OF sh] by (simp add: tree_len_def)
qed

lemma height_small:
  assumes "rank_tree_inv t" "tree_len t \<le> u64_max"
  shows "height t \<le> 21"
proof (rule ccontr)
  assume "\<not> height t \<le> 21"
  then have "22 \<le> height t" by simp
  then have "(8 :: nat) ^ 22 \<le> 8 ^ height t" by (intro power_increasing) auto
  moreover have "2 * 8 ^ height t \<le> Suc (tree_len t)" using root_size [OF assms(1)] \<open>22 \<le> height t\<close> by simp
  ultimately show False using assms(2) by (simp add: u64_max_def)
qed

section \<open>Properties\<close>

abbreviation tree_run :: "'k::linorder set_op list \<Rightarrow> (bool list \<times> 'k node) option" where
  "tree_run ops \<equiv> run_ops tree_insert tree_remove ops leaf"

abbreviation run_set :: "'k::linorder set_op list \<Rightarrow> 'k set" where
  "run_set ops \<equiv> snd (spec_run ops {})"

lemma finite_op: "finite S \<Longrightarrow> finite (op_effect c S)"
  by (cases c) simp_all

lemma finite_run: "finite S \<Longrightarrow> finite (snd (spec_run ops S))"
  by (induction ops arbitrary: S) (simp_all add: finite_op case_prod_unfold Let_def)

lemma tree_run_obtain:
  obtains bs t where "tree_run ops = Some (bs, t)" "rank_tree_inv t" "bs = fst (spec_run ops {})"
    "inorder t = sorted_list_of_set (run_set ops)" "set (inorder t) = run_set ops"
  using rank_set.run_empty [of ops] finite_run [of "{}" ops] by auto

lemma filter_card: "distinct xs \<Longrightarrow> length (filter P xs) = card {x \<in> set xs. P x}"
  by (metis distinct_card distinct_filter set_filter)

lemma position_card:
  assumes "ascending xs"
  shows "position (\<lambda>x. x = k) xs = (if k \<in> set xs then Some (card {x \<in> set xs. x < k}) else None)"
proof (cases "k \<in> set xs")
  case True
  then obtain ys zs where xs: "xs = ys @ k # zs" "k \<notin> set ys" by (meson split_list_first)
  then have "{x \<in> set xs. x < k} = set ys" using assms by (auto simp: sorted_wrt_append)
  moreover have "distinct ys" using ascending_distinct [OF assms] xs(1) by simp
  ultimately show ?thesis using True position_here [OF xs(2), of zs] xs(1) by (simp add: distinct_card)
next
  case False
  then show ?thesis by (auto simp: position_eq_None)
qed

lemma rank_of_ok: "rank_tree_inv t \<Longrightarrow> rank_of t k = Some (position (\<lambda>x. x = k) (inorder t))"
  using rank_of_from_ok [of "height t" t k 0]
  by (cases "position (\<lambda>x. x = k) (inorder t)") (simp_all add: rank_of_def rank_tree_inv_def)

lemma tree_range_yields:
  assumes "rank_tree_inv t" "height t < max_height"
  shows "\<exists>it. tree_range t lo hi = Some it \<and> iter_yields it (filter (in_bounds lo hi) (inorder t))"
proof -
  have sh: "shaped (height t) t" and asc: "ascending (inorder t)" using assms(1) by (auto simp: rank_tree_inv_def)
  define a where "a = length (takeWhile (\<lambda>x. \<not> above_start lo x) (inorder t))"
  define b where "b = length (takeWhile (below_end hi) (inorder t))"
  have f: "filter (in_bounds lo hi) (inorder t) = take (b - a) (drop a (inorder t))"
    using filter_window [OF partitioned_start [OF asc, of lo] partitioned_end [OF asc, of hi]]
    by (simp add: in_bounds_def [abs_def] a_def b_def)
  obtain it where it: "iter_new_from t a = Some it" "iter_yields it (drop a (inorder t))"
    using iter_new_yields [OF sh assms(2)] by blast
  then show ?thesis
    using bound_ranks_ok [OF assms(1), of lo hi] iter_capped_yields [OF it(2), of "b - a"]
    unfolding f by (simp add: tree_range_def a_def b_def)
qed

text \<open>C10: every sequence of insertions and removals on a new rank tree runs without a panic,
  answers as the same operations on a finite set do, and leaves a well-formed tree whose
  keys in order are that set in ascending order and whose length is its size.\<close>

theorem rank_tree_refines_set:
  "\<exists>bs t. tree_run ops = Some (bs, t) \<and> bs = fst (spec_run ops {}) \<and> rank_tree_inv t \<and>
     inorder t = sorted_list_of_set (run_set ops) \<and> tree_len t = card (run_set ops) \<and>
     (tree_is_empty t \<longleftrightarrow> run_set ops = {})"
proof -
  obtain bs t where r: "tree_run ops = Some (bs, t)" "rank_tree_inv t" "bs = fst (spec_run ops {})"
    "inorder t = sorted_list_of_set (run_set ops)" "set (inorder t) = run_set ops" by (rule tree_run_obtain)
  have "ntotal t = length (inorder t)" using r(2) shaped_total by (auto simp: rank_tree_inv_def)
  then show ?thesis
    using r finite_run [of "{}" ops] by (simp add: tree_len_def tree_is_empty_def card_eq_0_iff)
qed

text \<open>C11: on every tree built by insertions and removals, \<open>select\<close> returns the element of a
  rank, \<open>rank_of\<close> the number of smaller elements of a member and \<open>None\<close> for other keys, and
  \<open>count_in\<close> the number of elements between two bounds; none of them panics.\<close>

theorem rank_tree_queries:
  "\<exists>bs t. tree_run ops = Some (bs, t) \<and>
     (\<forall>r. select t r = Some (nth_opt (sorted_list_of_set (run_set ops)) r)) \<and>
     (\<forall>k. rank_of t k = Some (if k \<in> run_set ops then Some (card {x \<in> run_set ops. x < k}) else None)) \<and>
     (\<forall>lo hi. count_in t lo hi = Some (card {x \<in> run_set ops. in_bounds lo hi x}))"
proof -
  obtain bs t where r: "tree_run ops = Some (bs, t)" "rank_tree_inv t" "bs = fst (spec_run ops {})"
    "inorder t = sorted_list_of_set (run_set ops)" "set (inorder t) = run_set ops" by (rule tree_run_obtain)
  have asc: "ascending (inorder t)" using r(2) by (simp add: rank_tree_inv_def)
  have "rank_of t k = Some (if k \<in> run_set ops then Some (card {x \<in> run_set ops. x < k}) else None)" for k
    using position_card [OF asc, of k] r(5) by (simp add: rank_of_ok [OF r(2)])
  moreover have "count_in t lo hi = Some (card {x \<in> run_set ops. in_bounds lo hi x})" for lo hi
    using filter_card [OF ascending_distinct [OF asc], of "in_bounds lo hi"] r(5) by (simp add: count_in_ok [OF r(2)])
  ultimately show ?thesis using r(1,4) select_ok [OF r(2)] by auto
qed

text \<open>C37: the path stack of the iterators never overflows: a tree whose length fits a
  \<open>usize\<close> has height at most 21, so a path has at most 22 of the 24 entries.\<close>

theorem rank_tree_height:
  assumes "card (run_set ops) \<le> u64_max"
  shows "\<exists>bs t. tree_run ops = Some (bs, t) \<and> height t \<le> 21 \<and> Suc (height t) \<le> max_height"
proof -
  obtain bs t where r: "tree_run ops = Some (bs, t)" "rank_tree_inv t" "bs = fst (spec_run ops {})"
    "inorder t = sorted_list_of_set (run_set ops)" "set (inorder t) = run_set ops" by (rule tree_run_obtain)
  have "ntotal t = length (inorder t)" using r(2) shaped_total by (auto simp: rank_tree_inv_def)
  then have "tree_len t = card (run_set ops)" using r(4) by (simp add: tree_len_def)
  then show ?thesis using height_small [OF r(2)] assms r(1) by (simp add: max_height_def)
qed

theorem rank_tree_height_witness:
  "\<exists>bs t. tree_run [Ins (5::nat), Ins 3, Del 5] = Some (bs, t) \<and> height t \<le> 21 \<and> Suc (height t) \<le> max_height"
  by (rule rank_tree_height) (simp add: u64_max_def)

text \<open>C12: the iterators end and yield everything: called once more than there are elements
  left, \<open>iter_from\<close> yields the elements from a rank on in ascending order, \<open>iter_rev_from\<close>
  the elements before it in descending order and \<open>range\<close> the elements between its bounds in
  ascending order, each then returning \<open>None\<close>.\<close>

theorem rank_tree_iterates:
  assumes "card (run_set ops) \<le> u64_max"
  shows "\<exists>bs t. tree_run ops = Some (bs, t) \<and>
    (let xs = sorted_list_of_set (run_set ops) in
      (\<forall>r. \<exists>it. tree_iter_from t r = Some it \<and> drain iter_next (Suc (length (drop r xs))) it = Some (drop r xs)) \<and>
      (\<forall>r. \<exists>it. tree_iter_rev_from t r = Some it \<and> drain rev_next (Suc (length (take r xs))) it = Some (rev (take r xs))) \<and>
      (\<forall>lo hi. \<exists>it. tree_range t lo hi = Some it \<and>
         drain iter_next (Suc (length (filter (in_bounds lo hi) xs))) it = Some (filter (in_bounds lo hi) xs)))"
proof -
  obtain bs t where r: "tree_run ops = Some (bs, t)" "rank_tree_inv t" "bs = fst (spec_run ops {})"
    "inorder t = sorted_list_of_set (run_set ops)" "set (inorder t) = run_set ops" by (rule tree_run_obtain)
  have sh: "shaped (height t) t" using r(2) by (simp add: rank_tree_inv_def)
  have "tree_len t = card (run_set ops)" using r(4) shaped_total [OF sh] by (simp add: tree_len_def)
  then have h: "height t < max_height" using height_small [OF r(2)] assms by (simp add: max_height_def)
  have "\<exists>it. tree_iter_from t k = Some it \<and> drain iter_next (Suc (length (drop k (inorder t)))) it = Some (drop k (inorder t))" for k
    using iter_new_yields [OF sh h, of k] forward.drain_yields unfolding tree_iter_from_def by blast
  moreover have "\<exists>it. tree_iter_rev_from t k = Some it \<and>
      drain rev_next (Suc (length (take k (inorder t)))) it = Some (rev (take k (inorder t)))" for k
    using rev_new_yields [OF sh h, of k] backward.drain_yields [of _ "rev (take k (inorder t))"]
    unfolding tree_iter_rev_from_def by auto
  moreover have "\<exists>it. tree_range t lo hi = Some it \<and>
      drain iter_next (Suc (length (filter (in_bounds lo hi) (inorder t)))) it = Some (filter (in_bounds lo hi) (inorder t))" for lo hi
    using tree_range_yields [OF r(2) h, of lo hi] forward.drain_yields by blast
  ultimately show ?thesis using r(1) unfolding Let_def r(4) by blast
qed

theorem rank_tree_iterates_witness:
  "\<exists>bs t. tree_run [Ins (5::nat), Ins 3, Ins 9] = Some (bs, t) \<and>
    (\<exists>it. tree_iter_from t 1 = Some it \<and> drain iter_next 3 it = Some [5, 9])"
proof -
  have s: "sorted_list_of_set (run_set [Ins (5::nat), Ins 3, Ins 9]) = [3, 5, 9]" by simp
  have "card (run_set [Ins (5::nat), Ins 3, Ins 9]) \<le> u64_max" by (simp add: u64_max_def)
  from rank_tree_iterates [OF this] obtain bs t where
    t: "tree_run [Ins (5::nat), Ins 3, Ins 9] = Some (bs, t)"
    "\<forall>r. \<exists>it. tree_iter_from t r = Some it \<and> drain iter_next (Suc (length (drop r [3::nat, 5, 9]))) it = Some (drop r [3, 5, 9])"
    unfolding s Let_def by blast
  from t(2) [rule_format, of 1] obtain it where "tree_iter_from t 1 = Some it" "drain iter_next 3 it = Some [5, 9]"
    by (auto simp: numeral_3_eq_3)
  then show ?thesis using t(1) by blast
qed

end
