(* ===== verification/Repl_Wire.thy ===== *)
theory Repl_Wire
  imports Resp_Command Utf8
begin

text \<open>
  The replication wire format of \<open>kevy-replicate\<close>: numbered frames (\<open>wire.rs\<close>), snapshot
  markers, chunks, heartbeats and acknowledgements (\<open>wire_snapshot.rs\<close>), and the handshake
  (\<open>handshake.rs\<close>, \<open>replica.rs\<close>). Debug assertions are not part of the model.
\<close>

section \<open>Numbers and lines\<close>

datatype wire_error =
  Wire_truncated | Bad_envelope | Bad_offset | Negative_offset int | Bad_payload parse_error

function wire_find_crlf :: "bytes \<Rightarrow> nat \<Rightarrow> nat option" where
  "wire_find_crlf buf i =
     (if i + 1 < length buf
      then if buf ! i = 13 \<and> buf ! (i + 1) = 10 then Some i else wire_find_crlf buf (i + 1)
      else None)"
  by pat_completeness auto
termination
  by (relation "measure (\<lambda>(buf, i). length buf - i)") auto

declare wire_find_crlf.simps [simp del]

fun parse_decimal_loop :: "nat \<Rightarrow> bytes \<Rightarrow> nat option" where
  "parse_decimal_loop n [] = Some n"
| "parse_decimal_loop n (b # bs) =
     (if \<not> is_digit b then None
      else case checked_u64 (n * 10) of None \<Rightarrow> None
      | Some m \<Rightarrow> (case checked_u64 (m + digit_val b) of None \<Rightarrow> None | Some k \<Rightarrow> parse_decimal_loop k bs))"

definition parse_decimal :: "bytes \<Rightarrow> nat option" where
  "parse_decimal bs = (if bs = [] then None else parse_decimal_loop 0 bs)"

definition parse_signed_decimal :: "bytes \<Rightarrow> int option" where
  "parse_signed_decimal bs =
     (if bs = [] then None
      else
        (let (neg, digits) =
           (if hd bs = 45 then (True, tl bs) else if hd bs = 43 then (False, tl bs) else (False, bs)) in
         case parse_decimal digits of None \<Rightarrow> None
         | Some n \<Rightarrow>
           if neg then
             if int n > i64_max + 1 then None
             else if int n = i64_max + 1 then Some i64_min
             else Some (- int n)
           else if int n > i64_max then None else Some (int n)))"

fun push_u64_loop :: "nat \<Rightarrow> bytes \<Rightarrow> bytes" where
  "push_u64_loop v tmp = (if v = 0 then tmp else push_u64_loop (v div 10) (digit_byte (v mod 10) # tmp))"

declare push_u64_loop.simps [simp del]

definition push_u64 :: "bytes \<Rightarrow> nat \<Rightarrow> bytes" where
  "push_u64 out n = (if n = 0 then out @ [48] else out @ push_u64_loop n [])"

section \<open>Frames\<close>

definition encode_frame_arg :: "bytes \<Rightarrow> bytes \<Rightarrow> bytes" where
  "encode_frame_arg out arg = (push_u64 (out @ [36]) (length arg) @ crlf) @ arg @ crlf"

definition encode_frame :: "nat \<Rightarrow> bytes list \<Rightarrow> bytes" where
  "encode_frame offset args =
     (let out = ascii ''*2'' @ crlf;
          out = push_u64 (out @ [58]) offset @ crlf;
          out = push_u64 (out @ [42]) (length args) @ crlf
      in foldl encode_frame_arg out args)"

definition parse_envelope_header :: "bytes \<Rightarrow> (wire_error, nat) result" where
  "parse_envelope_header buf =
     (if length buf < 4 then Err Wire_truncated
      else if buf ! 0 \<noteq> 42 then Err Bad_envelope
      else case wire_find_crlf buf 1 of None \<Rightarrow> Err Wire_truncated
      | Some eol \<Rightarrow>
        (case parse_decimal (slice buf 1 eol) of None \<Rightarrow> Err Bad_envelope
         | Some count \<Rightarrow> if count \<noteq> 2 then Err Bad_envelope else Ok (eol + 2)))"

definition parse_offset_line :: "bytes \<Rightarrow> nat \<Rightarrow> (wire_error, nat \<times> nat) result" where
  "parse_offset_line buf start =
     (if start \<ge> length buf then Err Wire_truncated
      else if buf ! start \<noteq> 58 then Err Bad_offset
      else case wire_find_crlf buf (start + 1) of None \<Rightarrow> Err Wire_truncated
      | Some eol \<Rightarrow>
        (case parse_signed_decimal (slice buf (start + 1) eol) of None \<Rightarrow> Err Bad_offset
         | Some v \<Rightarrow> if v < 0 then Err (Negative_offset v) else Ok (nat v, eol + 2)))"

record decoded_frame =
  df_offset :: nat
  df_argv :: argv

definition decode_frame :: "bytes \<Rightarrow> (wire_error, decoded_frame \<times> nat) result" where
  "decode_frame buf =
     (case parse_envelope_header buf of Inl e \<Rightarrow> Err e
      | Inr after_env \<Rightarrow>
        (case parse_offset_line buf after_env of Inl e \<Rightarrow> Err e
         | Inr (offset, after_offset) \<Rightarrow>
           (case parse_command_into (drop after_offset buf) argv_default of
              Inl e \<Rightarrow> Err (Bad_payload e)
            | Inr None \<Rightarrow> Err Wire_truncated
            | Inr (Some (a, n)) \<Rightarrow> Ok (\<lparr>df_offset = offset, df_argv = a\<rparr>, after_offset + n))))"

section \<open>Snapshot and heartbeat lines\<close>

record feed_position =
  fp_generation :: nat
  fp_offset :: nat

definition feed_position_new :: "nat \<Rightarrow> nat \<Rightarrow> feed_position" where
  "feed_position_new g n = \<lparr>fp_generation = g, fp_offset = n\<rparr>"

definition snapshot_chunk_max :: nat where "snapshot_chunk_max = 64 * 1024"
definition snapshot_line_max :: nat where "snapshot_line_max = 256"

datatype snapshot_marker = Begin | End nat | Ping feed_position

definition encode_snapshot_begin :: bytes where
  "encode_snapshot_begin = ascii ''+SNAPSHOT'' @ crlf"

definition encode_snapshot_chunk :: "bytes \<Rightarrow> bytes" where
  "encode_snapshot_chunk bs = (push_u64 [36] (length bs) @ crlf) @ bs @ crlf"

definition encode_ping :: "feed_position \<Rightarrow> bytes" where
  "encode_ping tail = push_u64 (push_u64 (ascii ''+PING '') (fp_generation tail) @ [32]) (fp_offset tail) @ crlf"

definition encode_replconf_ack :: "nat \<Rightarrow> bytes" where
  "encode_replconf_ack offset = push_u64 (ascii ''REPLCONF ACK '') offset @ crlf"

definition encode_snapshot_end :: "nat \<Rightarrow> bytes" where
  "encode_snapshot_end ack_offset = push_u64 (ascii ''+SNAPSHOT_END '') ack_offset @ crlf"

text \<open>\<open>slice::strip_prefix\<close>.\<close>

definition strip_prefix :: "bytes \<Rightarrow> bytes \<Rightarrow> bytes option" where
  "strip_prefix pre bs = (if take (length pre) bs = pre then Some (drop (length pre) bs) else None)"

definition decode_replconf_ack :: "bytes \<Rightarrow> (wire_error, (nat \<times> nat) option) result" where
  "decode_replconf_ack buf =
     (if buf = [] then Err Wire_truncated
      else if buf ! 0 \<noteq> 82 then Ok None
      else case wire_find_crlf buf 0 of
        None \<Rightarrow> if length buf > snapshot_line_max then Err Bad_envelope else Err Wire_truncated
      | Some eol \<Rightarrow>
        (case strip_prefix (ascii ''REPLCONF ACK '') (take eol buf) of None \<Rightarrow> Err Bad_envelope
         | Some rest \<Rightarrow>
           (case parse_decimal rest of None \<Rightarrow> Err Bad_envelope | Some offset \<Rightarrow> Ok (Some (offset, eol + 2)))))"

definition parse_ping :: "bytes \<Rightarrow> feed_position option" where
  "parse_ping rest =
     (case position (\<lambda>b. b = 32) rest of
        Some sp \<Rightarrow>
          (case parse_decimal (take sp rest) of None \<Rightarrow> None
           | Some g \<Rightarrow> map_option (feed_position_new g) (parse_decimal (drop (sp + 1) rest)))
      | None \<Rightarrow> map_option (feed_position_new 0) (parse_decimal rest))"

definition decode_snapshot_marker :: "bytes \<Rightarrow> (wire_error, (snapshot_marker \<times> nat) option) result" where
  "decode_snapshot_marker buf =
     (if buf = [] then Err Wire_truncated
      else if buf ! 0 \<noteq> 43 then Ok None
      else case wire_find_crlf buf 1 of
        None \<Rightarrow> if length buf > snapshot_line_max then Err Bad_envelope else Err Wire_truncated
      | Some eol \<Rightarrow>
        if eol > snapshot_line_max then Err Bad_envelope
        else
          (let line = slice buf 1 eol in
           if line = ascii ''SNAPSHOT'' then Ok (Some (Begin, eol + 2))
           else case strip_prefix (ascii ''SNAPSHOT_END '') line of
             Some rest \<Rightarrow>
               (case parse_decimal rest of None \<Rightarrow> Err Bad_envelope | Some offset \<Rightarrow> Ok (Some (End offset, eol + 2)))
           | None \<Rightarrow>
             (case strip_prefix (ascii ''PING '') line of
                Some rest \<Rightarrow>
                  (case parse_ping rest of None \<Rightarrow> Err Bad_envelope | Some p \<Rightarrow> Ok (Some (Ping p, eol + 2)))
              | None \<Rightarrow> Err Bad_envelope)))"

definition decode_snapshot_chunk :: "bytes \<Rightarrow> (wire_error, bytes \<times> nat) result" where
  "decode_snapshot_chunk buf =
     (if buf = [] then Err Wire_truncated
      else if buf ! 0 \<noteq> 36 then Err Bad_envelope
      else case wire_find_crlf buf 1 of None \<Rightarrow> Err Wire_truncated
      | Some len_eol \<Rightarrow>
        (case parse_decimal (slice buf 1 len_eol) of None \<Rightarrow> Err Bad_envelope
         | Some len \<Rightarrow>
           if len > snapshot_chunk_max then Err Bad_envelope
           else
             (let data_start = len_eol + 2; data_end = data_start + len in
              if length buf < data_end + 2 then Err Wire_truncated
              else if slice buf data_end (data_end + 2) \<noteq> crlf then Err Bad_envelope
              else Ok (slice buf data_start data_end, data_end + 2))))"

section \<open>Numbers\<close>

lemma wire_find_crlf_eq: "wire_find_crlf buf i = find_crlf buf i"
  by (induction buf i rule: wire_find_crlf.induct)
    (subst wire_find_crlf.simps, subst find_crlf_eq, subst find_crlf_tail.simps, simp add: find_crlf_eq)

lemma push_u64_loop_dec: "v \<noteq> 0 \<Longrightarrow> push_u64_loop v tmp = dec_digits v @ tmp"
proof (induction v tmp rule: push_u64_loop.induct)
  case (1 v tmp)
  show ?case
  proof (cases "v div 10 = 0")
    case True
    then have "v < 10" by (simp add: div_eq_0_iff)
    then show ?thesis using 1(2) by (simp add: push_u64_loop.simps [of v] push_u64_loop.simps [of 0] dec_digits.simps [of v])
  next
    case False
    then show ?thesis using 1 by (simp add: push_u64_loop.simps [of v] dec_digits.simps [of v])
  qed
qed

lemma push_u64_dec: "push_u64 out n = out @ dec_digits n"
  by (simp add: push_u64_def push_u64_loop_dec dec_digits.simps [of 0] digit_byte_def)

lemma digits_val_Cons_ge: "foldl (\<lambda>n b. n * 10 + digit_val b) m bs \<ge> m"
proof (induction bs arbitrary: m)
  case (Cons b bs)
  have "m \<le> m * 10 + digit_val b" by simp
  then show ?case using Cons [of "m * 10 + digit_val b"] by (simp add: order_trans)
qed simp

lemma parse_decimal_loop_val:
  "list_all is_digit bs \<Longrightarrow> foldl (\<lambda>n b. n * 10 + digit_val b) m bs \<le> u64_max \<Longrightarrow>
   parse_decimal_loop m bs = Some (foldl (\<lambda>n b. n * 10 + digit_val b) m bs)"
proof (induction bs arbitrary: m)
  case (Cons b bs)
  have "m * 10 + digit_val b \<le> u64_max"
    using Cons.prems(2) digits_val_Cons_ge [of "m * 10 + digit_val b" bs] by simp
  then show ?case using Cons by (simp add: checked_u64_def)
qed simp

lemma parse_decimal_dec [simp]: "n \<le> u64_max \<Longrightarrow> parse_decimal (dec_digits n) = Some n"
  using parse_decimal_loop_val [of "dec_digits n" 0] digits_val_dec [of n]
  by (simp add: parse_decimal_def digits_val_def)

lemma parse_signed_decimal_dec [simp]:
  assumes "int n \<le> i64_max"
  shows "parse_signed_decimal (dec_digits n) = Some (int n)"
proof -
  have "n \<le> u64_max" using assms by (simp add: int_bounds)
  moreover have "hd (dec_digits n) \<noteq> 45" "hd (dec_digits n) \<noteq> 43"
    using hd_dec_digits [of n] by (auto simp: is_digit_def)
  ultimately show ?thesis using assms by (simp add: parse_signed_decimal_def)
qed

section \<open>Frames round trip\<close>

definition frame_head :: "nat \<Rightarrow> bytes" where
  "frame_head offset = [42, 50, 13, 10, 58] @ dec_digits offset @ crlf"

lemma encode_frame_arg_frame: "encode_frame_arg out arg = out @ bulk_frame arg"
  by (simp add: encode_frame_arg_def bulk_frame_def push_u64_dec)

lemma encode_frame_args: "foldl encode_frame_arg out args = out @ concat (map bulk_frame args)"
  by (induction args arbitrary: out) (simp_all add: encode_frame_arg_frame)

lemma encode_frame_command: "encode_frame offset args = frame_head offset @ encode_command [] args"
  by (simp add: encode_frame_def encode_frame_args frame_head_def encode_command_frame push_u64_dec ascii_def)

lemma find_crlf_prefix_None: "find_crlf (bs @ ms) i = Some e \<Longrightarrow> length bs < e + 2 \<Longrightarrow> find_crlf bs i = None"
  using find_crlf_append [of bs i _ ms] find_crlf_bounds [of bs i] by (cases "find_crlf bs i") auto

lemma envelope_two:
  "4 \<le> length bs \<Longrightarrow> take 4 bs = [42, 50, 13, 10] \<Longrightarrow> parse_envelope_header bs = Ok 4"
proof -
  assume a: "4 \<le> length bs" "take 4 bs = [42, 50, 13, 10]"
  then obtain r where r: "bs = [42] @ [50] @ 13 # 10 # r" by (metis append_Cons append_Nil append_take_drop_id)
  have "find_crlf bs 1 = Some 2" unfolding r using find_crlf_line [of "[50]" "[42]" r] by simp
  moreover have "slice bs 1 2 = dec_digits 2"
    by (simp add: r slice_def dec_digits.simps [of 2] digit_byte_def)
  ultimately show ?thesis using r
    by (simp add: parse_envelope_header_def wire_find_crlf_eq u64_max_def)
qed

lemma offset_line:
  assumes "int offset \<le> i64_max"
  shows "find_crlf (frame_head offset @ rest) 5 = Some (5 + length (dec_digits offset))"
    "parse_offset_line (frame_head offset @ rest) 4 = Ok (offset, length (frame_head offset))"
proof -
  have f: "frame_head offset @ rest = [42, 50, 13, 10, 58] @ dec_digits offset @ 13 # 10 # rest"
    by (simp add: frame_head_def)
  have "13 \<notin> set (dec_digits offset)" by (simp add: digits_no_cr)
  then show c: "find_crlf (frame_head offset @ rest) 5 = Some (5 + length (dec_digits offset))"
    unfolding f using find_crlf_line [of "dec_digits offset" "[42, 50, 13, 10, 58]" rest]
    by (simp add: eval_nat_numeral)
  have "slice (frame_head offset @ rest) 5 (5 + length (dec_digits offset)) = dec_digits offset"
    unfolding f using slice_mid [of "[42, 50, 13, 10, 58]" "dec_digits offset" "13 # 10 # rest"]
    by (simp add: eval_nat_numeral)
  then show "parse_offset_line (frame_head offset @ rest) 4 = Ok (offset, length (frame_head offset))"
    using c assms by (simp add: parse_offset_line_def wire_find_crlf_eq, simp add: frame_head_def)
qed

lemma decode_encode_frame:
  assumes "sendable args" "int offset \<le> i64_max"
  shows "decode_frame (encode_frame offset args @ rest)
       = Ok (\<lparr>df_offset = offset, df_argv = argv_from args\<rparr>, length (encode_frame offset args))"
proof -
  have "parse_envelope_header (encode_frame offset args @ rest) = Ok 4"
    by (rule envelope_two) (simp_all add: encode_frame_command frame_head_def)
  then show ?thesis
    using offset_line(2) [OF assms(2), of "encode_command [] args @ rest"] command_encoded [OF assms(1), of rest]
    by (simp add: decode_frame_def encode_frame_command parse_command_into_def)
qed

lemma decode_frame_prefix:
  assumes "sendable args" "int offset \<le> i64_max" "encode_frame offset args = bs @ ms" "ms \<noteq> []"
  shows "decode_frame bs = Err Wire_truncated"
proof (cases "length bs \<le> 4")
  case True
  show ?thesis
  proof (cases "length bs = 4")
    case t: True
    then have "take 4 bs = take 4 (encode_frame offset args)" using assms(3) by simp
    then have "parse_envelope_header bs = Ok 4"
      using t by (intro envelope_two) (simp_all add: encode_frame_command frame_head_def)
    then show ?thesis using t by (simp add: decode_frame_def parse_offset_line_def)
  next
    case False
    then show ?thesis using True by (simp add: decode_frame_def parse_envelope_header_def)
  qed
next
  case False
  define e where "e = 5 + length (dec_digits offset)"
  have bs: "take 4 bs = take 4 (encode_frame offset args)" "bs ! 4 = encode_frame offset args ! 4"
    using False assms(3) by (simp_all add: nth_append)
  have env: "parse_envelope_header bs = Ok 4"
    using False bs(1) by (intro envelope_two) (simp_all add: encode_frame_command frame_head_def)
  have fc: "find_crlf (bs @ ms) 5 = Some e"
    using offset_line(1) [OF assms(2), of "encode_command [] args"] assms(3) by (simp add: encode_frame_command e_def)
  show ?thesis
  proof (cases "length bs < e + 2")
    case True
    then have "find_crlf bs 5 = None" by (rule find_crlf_prefix_None [OF fc])
    then show ?thesis
      using env False bs(2)
      by (simp add: decode_frame_def parse_offset_line_def wire_find_crlf_eq encode_frame_command frame_head_def)
  next
    case big: False
    have hl: "length (frame_head offset) = e + 2" by (simp add: frame_head_def e_def)
    define cs where "cs = drop (e + 2) bs"
    have "take (e + 2) (bs @ ms) = frame_head offset" "drop (e + 2) (bs @ ms) = encode_command [] args"
      using hl unfolding assms(3) [symmetric] by (simp_all add: encode_frame_command)
    then have t: "take (e + 2) bs = frame_head offset" and cs2: "encode_command [] args = cs @ ms"
      using big by (simp_all add: cs_def)
    have cs: "bs = frame_head offset @ cs" using append_take_drop_id [of "e + 2" bs] unfolding t cs_def by simp
    have "parse_command_from cs 0 argv_default = Ok None"
      using command_encoded [OF assms(1), of "[]"] cs2 assms(4) owned_cmd.run_prefix [of cs ms "argv_from args"] by simp
    then show ?thesis
      using env offset_line(2) [OF assms(2), of cs] cs by (simp add: decode_frame_def parse_command_into_def)
  qed
qed

end
