(* ===== verification/Repl_Source.thy ===== *)
theory Repl_Source
  imports Repl_Wire
begin

text \<open>
  The primary's side of \<open>kevy-replicate\<close>: the byte-bounded backlog (\<open>source.rs\<close>), the table
  of replica slots (\<open>slot.rs\<close>) and the change feed (\<open>feed.rs\<close>). A panic is \<open>None\<close>. The two
  contiguous runs of the \<open>VecDeque\<close> are a split of the backlog at an arbitrary place, which
  is a parameter of the read; the random draws behind a fresh generation are a list.
\<close>

section \<open>The backlog\<close>

record frame =
  fr_offset :: nat
  fr_bytes :: bytes

datatype from_offset = Too_old | Future

record replication_source =
  rs_next_offset :: nat
  rs_bytes_in_buf :: nat
  rs_max_bytes :: nat
  rs_buf :: "frame list"

definition source_new :: "nat \<Rightarrow> replication_source option" where
  "source_new max_bytes =
     (if max_bytes = 0 then None
      else Some \<lparr>rs_next_offset = 0, rs_bytes_in_buf = 0, rs_max_bytes = max_bytes, rs_buf = []\<rparr>)"

definition set_next_offset :: "replication_source \<Rightarrow> nat \<Rightarrow> replication_source option" where
  "set_next_offset s n = (if rs_buf s \<noteq> [] then None else Some (s\<lparr>rs_next_offset := n\<rparr>))"

definition oldest_offset :: "replication_source \<Rightarrow> nat option" where
  "oldest_offset s = (case rs_buf s of [] \<Rightarrow> None | f # _ \<Rightarrow> Some (fr_offset f))"

definition newest_offset :: "replication_source \<Rightarrow> nat option" where
  "newest_offset s = (if rs_buf s = [] then None else Some (fr_offset (last (rs_buf s))))"

text \<open>\<open>pop_front\<close> with its byte accounting; going below zero is the overflow panic.\<close>

definition pop_front :: "replication_source \<Rightarrow> replication_source option" where
  "pop_front s =
     (case rs_buf s of [] \<Rightarrow> None
      | f # fs \<Rightarrow>
        if rs_bytes_in_buf s < length (fr_bytes f) then None
        else Some (s\<lparr>rs_bytes_in_buf := rs_bytes_in_buf s - length (fr_bytes f), rs_buf := fs\<rparr>))"

lemma pop_front_shorter: "pop_front s = Some s' \<Longrightarrow> length (rs_buf s') < length (rs_buf s)"
  by (auto simp: pop_front_def split: list.splits if_splits)

function evict :: "nat \<Rightarrow> replication_source \<Rightarrow> replication_source option" where
  "evict frame_len s =
     (if rs_bytes_in_buf s + frame_len > rs_max_bytes s \<and> rs_buf s \<noteq> []
      then (case pop_front s of None \<Rightarrow> None | Some s' \<Rightarrow> evict frame_len s')
      else Some s)"
  by pat_completeness auto
termination
  by (relation "measure (\<lambda>(n, s). length (rs_buf s))") (auto dest: pop_front_shorter)

definition push_mutation :: "replication_source \<Rightarrow> bytes list \<Rightarrow> (replication_source \<times> nat) option" where
  "push_mutation s args =
     (let offset = rs_next_offset s; bs = encode_frame offset args; frame_len = length bs in
      case evict frame_len s of None \<Rightarrow> None
      | Some s' \<Rightarrow>
        (case checked_u64 (rs_next_offset s' + 1) of None \<Rightarrow> None
         | Some n \<Rightarrow>
           Some (s'\<lparr>rs_bytes_in_buf := rs_bytes_in_buf s' + frame_len,
                    rs_buf := rs_buf s' @ [\<lparr>fr_offset = offset, fr_bytes = bs\<rparr>],
                    rs_next_offset := n\<rparr>, offset)))"

function drop_up_to :: "replication_source \<Rightarrow> nat \<Rightarrow> replication_source option" where
  "drop_up_to s watermark =
     (case rs_buf s of [] \<Rightarrow> Some s
      | f # _ \<Rightarrow>
        if fr_offset f \<ge> watermark then Some s
        else (case pop_front s of None \<Rightarrow> None | Some s' \<Rightarrow> drop_up_to s' watermark))"
  by pat_completeness auto
termination
  by (relation "measure (\<lambda>(s, w). length (rs_buf s))") (auto dest: pop_front_shorter)

declare evict.simps [simp del] drop_up_to.simps [simp del]

text \<open>\<open>frames_from\<close> gives the cursor of the iterator; \<open>wrap\<close> is where the deque wraps.\<close>

definition frames_from :: "nat \<Rightarrow> replication_source \<Rightarrow> nat \<Rightarrow> (from_offset, nat) result" where
  "frames_from wrap s start =
     (if start > rs_next_offset s then Err Future
      else if start = rs_next_offset s then Ok (length (rs_buf s))
      else case oldest_offset s of None \<Rightarrow> Err Too_old
      | Some oldest \<Rightarrow>
        if start < oldest then Err Too_old
        else
          (let a = take wrap (rs_buf s); b = drop wrap (rs_buf s);
               i = length (takeWhile (\<lambda>f. fr_offset f < start) a)
           in Ok (if i < length a then i else length a + length (takeWhile (\<lambda>f. fr_offset f < start) b))))"

definition frames_next :: "replication_source \<Rightarrow> nat \<Rightarrow> (frame \<times> nat) option" where
  "frames_next s cursor = map_option (\<lambda>f. (f, cursor + 1)) (nth_opt (rs_buf s) cursor)"

text \<open>An iterator collected by \<open>take(n)\<close>.\<close>

fun frames_take :: "replication_source \<Rightarrow> nat \<Rightarrow> nat \<Rightarrow> frame list" where
  "frames_take s cursor 0 = []"
| "frames_take s cursor (Suc n) =
     (case frames_next s cursor of None \<Rightarrow> [] | Some (f, c) \<Rightarrow> f # frames_take s c n)"

section \<open>The feed\<close>

datatype feed_error = Resync feed_position | Read_future

record feed_source =
  fs_generation :: nat
  fs_source :: replication_source

fun fresh_generation :: "nat list \<Rightarrow> nat \<Rightarrow> nat option" where
  "fresh_generation [] old = None"
| "fresh_generation (h # hs) old =
     (let g = h mod 2 ^ 53 in if g \<noteq> 0 \<and> g \<noteq> old then Some g else fresh_generation hs old)"

definition bump_generation :: "nat list \<Rightarrow> feed_source \<Rightarrow> feed_source option" where
  "bump_generation draws f =
     (case fresh_generation draws (fs_generation f) of None \<Rightarrow> None
      | Some g \<Rightarrow>
        map_option (\<lambda>s. \<lparr>fs_generation = g, fs_source = s\<rparr>) (source_new (rs_max_bytes (fs_source f))))"

definition feed_tail :: "feed_source \<Rightarrow> feed_position" where
  "feed_tail f = feed_position_new (fs_generation f) (rs_next_offset (fs_source f))"

definition feed_read :: "nat \<Rightarrow> feed_source \<Rightarrow> feed_position \<Rightarrow> nat \<Rightarrow> (feed_error, frame list) result" where
  "feed_read wrap f at limit =
     (if fp_generation at \<noteq> fs_generation f then Err (Resync (feed_tail f))
      else case frames_from wrap (fs_source f) (fp_offset at) of
        Inr cursor \<Rightarrow> Ok (frames_take (fs_source f) cursor limit)
      | Inl Too_old \<Rightarrow> Err (Resync (feed_tail f))
      | Inl Future \<Rightarrow> Err Read_future)"

section \<open>Replica slots\<close>

record replica_slot =
  sl_id :: bytes
  sl_last_seen_ns :: nat
  sl_acked_offset :: nat

type_synonym slot_table = "replica_slot list"

definition slot_get :: "slot_table \<Rightarrow> bytes \<Rightarrow> replica_slot option" where
  "slot_get t sid = find (\<lambda>s. sl_id s = sid) t"

text \<open>Updating the slot \<open>iter_mut().find\<close> returns.\<close>

fun update_first :: "('a \<Rightarrow> bool) \<Rightarrow> ('a \<Rightarrow> 'a) \<Rightarrow> 'a list \<Rightarrow> 'a list option" where
  "update_first P f [] = None"
| "update_first P f (x # xs) = (if P x then Some (f x # xs) else map_option ((#) x) (update_first P f xs))"

definition touch_or_insert_unacked :: "slot_table \<Rightarrow> bytes \<Rightarrow> nat \<Rightarrow> slot_table" where
  "touch_or_insert_unacked t sid now_ns =
     (case update_first (\<lambda>s. sl_id s = sid) (\<lambda>s. s\<lparr>sl_last_seen_ns := now_ns\<rparr>) t of
        Some t' \<Rightarrow> t'
      | None \<Rightarrow> t @ [\<lparr>sl_id = sid, sl_last_seen_ns = now_ns, sl_acked_offset = 0\<rparr>])"

definition insert_or_touch :: "slot_table \<Rightarrow> bytes \<Rightarrow> nat \<Rightarrow> nat \<Rightarrow> slot_table" where
  "insert_or_touch t sid acked now_ns =
     (case update_first (\<lambda>s. sl_id s = sid)
         (\<lambda>s. let s' = s\<lparr>sl_last_seen_ns := now_ns\<rparr> in
              if acked > sl_acked_offset s' then s'\<lparr>sl_acked_offset := acked\<rparr> else s') t of
        Some t' \<Rightarrow> t'
      | None \<Rightarrow> t @ [\<lparr>sl_id = sid, sl_last_seen_ns = now_ns, sl_acked_offset = acked\<rparr>])"

text \<open>\<open>Vec::swap_remove\<close>: the last element takes the place of the one removed.\<close>

definition swap_remove :: "nat \<Rightarrow> 'a list \<Rightarrow> 'a list" where
  "swap_remove i xs = butlast (xs[i := last xs])"

definition slot_remove :: "slot_table \<Rightarrow> bytes \<Rightarrow> slot_table \<times> bool" where
  "slot_remove t sid =
     (case position (\<lambda>s. sl_id s = sid) t of Some pos \<Rightarrow> (swap_remove pos t, True) | None \<Rightarrow> (t, False))"

fun expire_from :: "nat \<Rightarrow> nat \<Rightarrow> nat \<Rightarrow> slot_table \<Rightarrow> bytes list \<Rightarrow> slot_table \<times> bytes list" where
  "expire_from 0 now_ns window_ns t dropped = (t, dropped)"
| "expire_from (Suc i) now_ns window_ns t dropped =
     (if sat_add_u64 (sl_last_seen_ns (t ! i)) window_ns \<le> now_ns
      then expire_from i now_ns window_ns (swap_remove i t) (dropped @ [sl_id (t ! i)])
      else expire_from i now_ns window_ns t dropped)"

definition slot_expire :: "slot_table \<Rightarrow> nat \<Rightarrow> nat \<Rightarrow> slot_table \<times> bytes list" where
  "slot_expire t now_ns window_ns = expire_from (length t) now_ns window_ns t []"

definition min_acked_offset :: "slot_table \<Rightarrow> nat option" where
  "min_acked_offset t = (case map sl_acked_offset t of [] \<Rightarrow> None | a # as \<Rightarrow> Some (foldl min a as))"

end
