(* ===== verification/Repl_Log.thy ===== *)
theory Repl_Log
  imports Repl_Source
begin

text \<open>
  The backlog refines the log of all mutations: whatever is pushed, evicted and trimmed, it
  is a suffix of the encoded log with exact byte accounting, and a read answers from the log
  or says that the log is no longer there. The same for the feed and for the slots.
\<close>

section \<open>The backlog is a suffix of the log\<close>

definition log_frame :: "nat \<Rightarrow> bytes list list \<Rightarrow> nat \<Rightarrow> frame" where
  "log_frame base log i = \<lparr>fr_offset = base + i, fr_bytes = encode_frame (base + i) (log ! i)\<rparr>"

text \<open>\<open>base\<close> is the offset of the first mutation of the log.\<close>

definition backs :: "nat \<Rightarrow> bytes list list \<Rightarrow> replication_source \<Rightarrow> bool" where
  "backs base log s \<longleftrightarrow>
     rs_next_offset s = base + length log \<and>
     (\<exists>k \<le> length log. rs_buf s = map (log_frame base log) [k..<length log]) \<and>
     rs_bytes_in_buf s = sum_list (map (length \<circ> fr_bytes) (rs_buf s))"

lemma backs_pop:
  assumes "backs base log s" "rs_buf s = f # fs"
  shows "\<exists>s'. pop_front s = Some s' \<and> backs base log s' \<and> rs_buf s' = fs \<and> rs_max_bytes s' = rs_max_bytes s"
proof -
  obtain k where k: "k \<le> length log" "rs_buf s = map (log_frame base log) [k..<length log]"
    using assms(1) by (auto simp: backs_def)
  then have "k < length log" using assms(2) by (cases "k = length log") auto
  then have "fs = map (log_frame base log) [Suc k..<length log]" using k assms(2) by (simp add: upt_rec [of k])
  then have fs: "\<exists>j \<le> length log. fs = map (log_frame base log) [j..<length log]" using \<open>k < length log\<close> Suc_leI by blast
  have b: "rs_bytes_in_buf s = length (fr_bytes f) + sum_list (map (length \<circ> fr_bytes) fs)"
    "rs_next_offset s = base + length log" using assms by (auto simp: backs_def)
  show ?thesis
    using fs b assms(2) by (simp add: pop_front_def backs_def)
qed

lemma backs_evict:
  "backs base log s \<Longrightarrow>
   \<exists>s'. evict n s = Some s' \<and> backs base log s' \<and> rs_max_bytes s' = rs_max_bytes s \<and>
        (rs_buf s' = [] \<or> rs_bytes_in_buf s' + n \<le> rs_max_bytes s) \<and> (\<exists>xs. rs_buf s = xs @ rs_buf s')"
proof (induction "length (rs_buf s)" arbitrary: s)
  case 0
  then show ?case by (subst evict.simps) simp
next
  case (Suc m)
  show ?case
  proof (cases "rs_bytes_in_buf s + n > rs_max_bytes s")
    case True
    obtain f fs where fs: "rs_buf s = f # fs" using Suc(2) by (cases "rs_buf s") auto
    obtain s1 where s1: "pop_front s = Some s1" "backs base log s1" "rs_buf s1 = fs" "rs_max_bytes s1 = rs_max_bytes s"
      using backs_pop [OF Suc.prems fs] by blast
    have "m = length (rs_buf s1)" using Suc(2) fs s1(3) by simp
    from Suc.hyps(1) [OF this s1(2)] obtain s' xs where
      "evict n s1 = Some s'" "backs base log s'" "rs_max_bytes s' = rs_max_bytes s1"
      "rs_buf s' = [] \<or> rs_bytes_in_buf s' + n \<le> rs_max_bytes s1" "rs_buf s1 = xs @ rs_buf s'" by blast
    moreover from this(5) have "rs_buf s = (f # xs) @ rs_buf s'" using fs s1(3) by simp
    ultimately show ?thesis using True fs s1 by (subst evict.simps) auto
  next
    case False
    then show ?thesis using Suc.prems by (subst evict.simps) auto
  qed
qed

lemma log_frame_snoc: "i < length log \<Longrightarrow> log_frame base (log @ [x]) i = log_frame base log i"
  by (simp add: log_frame_def nth_append)

lemma backs_push:
  assumes "backs base log s" "base + length log < u64_max"
  shows "\<exists>s'. push_mutation s args = Some (s', base + length log) \<and> backs base (log @ [args]) s' \<and>
           rs_max_bytes s' = rs_max_bytes s \<and> (length (rs_buf s') \<le> 1 \<or> rs_bytes_in_buf s' \<le> rs_max_bytes s) \<and>
           last (rs_buf s') = log_frame base (log @ [args]) (length log) \<and> rs_buf s' \<noteq> []"
proof -
  let ?o = "base + length log"
  let ?f = "\<lparr>fr_offset = ?o, fr_bytes = encode_frame ?o args\<rparr>"
  obtain s1 where s1: "evict (length (encode_frame ?o args)) s = Some s1" "backs base log s1" "rs_max_bytes s1 = rs_max_bytes s"
    "rs_buf s1 = [] \<or> rs_bytes_in_buf s1 + length (encode_frame ?o args) \<le> rs_max_bytes s"
    using backs_evict [OF assms(1)] by blast
  then obtain k where k: "k \<le> length log" "rs_buf s1 = map (log_frame base log) [k..<length log]"
    and n: "rs_next_offset s1 = ?o" "rs_next_offset s = ?o" "rs_bytes_in_buf s1 = sum_list (map (length \<circ> fr_bytes) (rs_buf s1))"
    using assms(1) by (auto simp: backs_def)
  have f: "log_frame base (log @ [args]) (length log) = ?f" by (simp add: log_frame_def)
  have "rs_buf s1 @ [?f] = map (log_frame base (log @ [args])) [k..<length (log @ [args])]"
    using k f by (simp add: log_frame_snoc)
  then have "\<exists>j \<le> length (log @ [args]). rs_buf s1 @ [?f] = map (log_frame base (log @ [args])) [j..<length (log @ [args])]"
    using k(1) by (metis length_append trans_le_add1)
  then show ?thesis
    using s1 n f assms(2) by (simp add: push_mutation_def Let_def checked_u64_def backs_def)
qed

lemma backs_drop:
  "backs base log s \<Longrightarrow>
   \<exists>s'. drop_up_to s w = Some s' \<and> backs base log s' \<and> rs_max_bytes s' = rs_max_bytes s \<and>
        rs_buf s' = dropWhile (\<lambda>f. fr_offset f < w) (rs_buf s)"
proof (induction "length (rs_buf s)" arbitrary: s)
  case 0
  then show ?case by (subst drop_up_to.simps) simp
next
  case (Suc m)
  obtain f fs where fs: "rs_buf s = f # fs" using Suc(2) by (cases "rs_buf s") auto
  show ?case
  proof (cases "fr_offset f < w")
    case True
    obtain s1 where s1: "pop_front s = Some s1" "backs base log s1" "rs_buf s1 = fs" "rs_max_bytes s1 = rs_max_bytes s"
      using backs_pop [OF Suc.prems fs] by blast
    have "m = length (rs_buf s1)" using Suc(2) fs s1(3) by simp
    from Suc.hyps(1) [OF this s1(2)] show ?thesis using True fs s1 by (subst drop_up_to.simps) simp
  next
    case False
    then show ?thesis using Suc.prems fs by (subst drop_up_to.simps) simp
  qed
qed

section \<open>Reads\<close>

definition retained :: "nat \<Rightarrow> bytes list list \<Rightarrow> replication_source \<Rightarrow> nat" where
  "retained base log s = base + length log - length (rs_buf s)"

lemma takeWhile_offsets:
  "k \<le> n \<Longrightarrow> takeWhile (\<lambda>f. fr_offset f < o') (map (log_frame base log) [k..<n]) = map (log_frame base log) [k..<min n (max k (o' - base))]"
proof (induction "n - k" arbitrary: k)
  case (Suc m)
  then have k: "k < n" by simp
  show ?case
  proof (cases "base + k < o'")
    case True
    then have "min n (max k (o' - base)) = min n (max (Suc k) (o' - base))" "k < min n (max (Suc k) (o' - base))" using k by auto
    then show ?thesis using Suc(1) [of "Suc k"] Suc(2) k True by (simp add: upt_rec [of k] log_frame_def)
  next
    case False
    then have "min n (max k (o' - base)) = k" using k by auto
    then show ?thesis using k False by (simp add: upt_rec [of k n] log_frame_def)
  qed
qed simp

lemma split_takeWhile:
  "(if length (takeWhile P (take n xs)) < length (take n xs) then length (takeWhile P (take n xs))
    else length (take n xs) + length (takeWhile P (drop n xs))) = length (takeWhile P xs)"
proof (cases "\<forall>x \<in> set (take n xs). P x")
  case True
  then have t: "takeWhile P (take n xs) = take n xs" by (simp add: takeWhile_eq_all_conv)
  have "takeWhile P xs = take n xs @ takeWhile P (drop n xs)"
    using True takeWhile_append2 [of "take n xs" P "drop n xs"] by simp
  then show ?thesis unfolding t by simp
next
  case False
  then obtain x where x: "x \<in> set (take n xs)" "\<not> P x" by blast
  have "takeWhile P xs = takeWhile P (take n xs)"
    using takeWhile_append1 [of x "take n xs" P "drop n xs"] x by simp
  moreover have "length (takeWhile P (take n xs)) < length (take n xs)"
    using False by (metis length_takeWhile_le nat_less_le takeWhile_eq_all_conv takeWhile_eq_take take_all order_refl)
  ultimately show ?thesis by simp
qed

lemma frames_take_drop: "frames_take s c n = take n (drop c (rs_buf s))"
proof (induction n arbitrary: c)
  case (Suc n)
  then show ?case
    by (cases "c < length (rs_buf s)") (simp_all add: frames_next_def nth_opt_def Cons_nth_drop_Suc [symmetric])
qed simp

text \<open>The frames of the log from offset \<open>n\<close> on.\<close>

definition log_from :: "nat \<Rightarrow> bytes list list \<Rightarrow> nat \<Rightarrow> frame list" where
  "log_from base log n = map (log_frame base log) [n - base..<length log]"

lemma backs_buf:
  assumes "backs base log s"
  shows "rs_buf s = log_from base log (retained base log s)" "base \<le> retained base log s"
    "retained base log s \<le> base + length log"
proof -
  obtain k where k: "k \<le> length log" "rs_buf s = map (log_frame base log) [k..<length log]"
    using assms by (auto simp: backs_def)
  then have "retained base log s = base + k" by (simp add: retained_def)
  then show "rs_buf s = log_from base log (retained base log s)" "base \<le> retained base log s"
    "retained base log s \<le> base + length log" using k by (simp_all add: log_from_def)
qed

lemma log_from_drop: "base \<le> a \<Longrightarrow> a \<le> b \<Longrightarrow> drop (b - a) (log_from base log a) = log_from base log b"
  by (simp add: log_from_def drop_map drop_upt)

lemma frames_from_log:
  assumes "backs base log s"
  shows "frames_from wrap s n =
    (if n > base + length log then Err Future
     else if n < retained base log s then Err Too_old
     else Ok (n - retained base log s))"
proof -
  define r where "r = retained base log s"
  have b: "rs_buf s = log_from base log r" "base \<le> r" "r \<le> base + length log"
    using backs_buf [OF assms] by (simp_all add: r_def)
  have next_offset: "rs_next_offset s = base + length log" using assms by (simp add: backs_def)
  have len: "length (rs_buf s) = base + length log - r" using b by (simp add: log_from_def)
  show ?thesis
  proof (cases "n < base + length log \<and> r < base + length log")
    case True
    then have buf: "rs_buf s = map (log_frame base log) [r - base..<length log]" "r - base < length log"
      using b by (auto simp: log_from_def)
    then have old: "oldest_offset s = Some r"
      using b(2) by (simp add: oldest_offset_def upt_rec [of "r - base"] log_frame_def)
    have "length (takeWhile (\<lambda>f. fr_offset f < n) (rs_buf s)) = n - r" if "r \<le> n"
      unfolding buf(1) using that True b(2) buf(2) takeWhile_offsets [of "r - base" "length log" n base log] by auto
    then show ?thesis
      using True old next_offset split_takeWhile [of "\<lambda>f. fr_offset f < n" wrap "rs_buf s"]
      by (simp add: frames_from_def r_def [symmetric] Let_def)
  next
    case False
    then show ?thesis
      using b(2,3) next_offset len by (auto simp: frames_from_def oldest_offset_def r_def [symmetric] split: list.split)
  qed
qed

lemma frames_from_ok:
  assumes "backs base log s" "retained base log s \<le> n" "n \<le> base + length log"
  shows "\<exists>c. frames_from wrap s n = Ok c \<and> drop c (rs_buf s) = log_from base log n"
  using frames_from_log [OF assms(1), of wrap n] assms(2,3) backs_buf [OF assms(1)] log_from_drop by auto

section \<open>Trimming\<close>

lemma dropWhile_offsets:
  "k \<le> n \<Longrightarrow> dropWhile (\<lambda>f. fr_offset f < w) (map (log_frame base log) [k..<n]) = map (log_frame base log) [min n (max k (w - base))..<n]"
proof (induction "n - k" arbitrary: k)
  case (Suc m)
  then have k: "k < n" by simp
  show ?case
  proof (cases "base + k < w")
    case True
    then have "min n (max k (w - base)) = min n (max (Suc k) (w - base))" using k by auto
    then show ?thesis using Suc(1) [of "Suc k"] Suc(2) k True by (simp add: upt_rec [of k] log_frame_def)
  next
    case False
    then have "min n (max k (w - base)) = k" using k by auto
    then show ?thesis using k False by (simp add: upt_rec [of k n] log_frame_def)
  qed
qed simp

lemma retained_drop:
  assumes "backs base log s" "drop_up_to s w = Some s'"
  shows "backs base log s' \<and> retained base log s' = min (base + length log) (max (retained base log s) w)"
proof -
  obtain s2 where s2: "drop_up_to s w = Some s2" "backs base log s2" "rs_buf s2 = dropWhile (\<lambda>f. fr_offset f < w) (rs_buf s)"
    using backs_drop [OF assms(1), of w] by blast
  define r where "r = retained base log s"
  have b: "rs_buf s = map (log_frame base log) [r - base..<length log]" "base \<le> r" "r \<le> base + length log"
    using backs_buf [OF assms(1)] by (simp_all add: r_def log_from_def)
  have "rs_buf s' = map (log_frame base log) [min (length log) (max (r - base) (w - base))..<length log]"
    using s2 assms(2) b dropWhile_offsets [of "r - base" "length log" w base log] by simp
  then show ?thesis using s2 assms(2) b by (auto simp: retained_def r_def [symmetric])
qed

end
