(* ===== verification/Repl_Feed.thy ===== *)
theory Repl_Feed
  imports Repl_Log
begin

text \<open>
  The change feed as a whole: after every sequence of pushes, trims and new generations a
  read returns the log's frames from its position, or says why it cannot, and the backlog
  holds every suffix of the log that fits its budget and was not trimmed.
\<close>

section \<open>Runs of the feed\<close>

datatype feed_op = Push "bytes list" | Trim nat | Bump "nat list"

text \<open>A feed over an empty backlog whose first offset is \<open>base\<close>.\<close>

definition feed_start :: "nat \<Rightarrow> nat \<Rightarrow> nat \<Rightarrow> feed_source option" where
  "feed_start g max_bytes base =
     (case source_new max_bytes of None \<Rightarrow> None
      | Some s \<Rightarrow> map_option (\<lambda>s. \<lparr>fs_generation = g, fs_source = s\<rparr>) (set_next_offset s base))"

fun feed_step :: "feed_source \<Rightarrow> feed_op \<Rightarrow> feed_source option" where
  "feed_step f (Push args) = map_option (\<lambda>(s, _). f\<lparr>fs_source := s\<rparr>) (push_mutation (fs_source f) args)"
| "feed_step f (Trim w) = map_option (\<lambda>s. f\<lparr>fs_source := s\<rparr>) (drop_up_to (fs_source f) w)"
| "feed_step f (Bump draws) = bump_generation draws f"

fun feed_run :: "feed_source \<Rightarrow> feed_op list \<Rightarrow> feed_source option" where
  "feed_run f [] = Some f"
| "feed_run f (op # ops) = (case feed_step f op of None \<Rightarrow> None | Some f' \<Rightarrow> feed_run f' ops)"

text \<open>The specification: the log of the current generation, its first offset and the
  highest watermark it was trimmed to.\<close>

record feed_log =
  fl_base :: nat
  fl_log :: "bytes list list"
  fl_trimmed :: nat

definition log_start :: "nat \<Rightarrow> feed_log" where
  "log_start base = \<lparr>fl_base = base, fl_log = [], fl_trimmed = 0\<rparr>"

fun log_step :: "feed_log \<Rightarrow> feed_op \<Rightarrow> feed_log" where
  "log_step l (Push args) = l\<lparr>fl_log := fl_log l @ [args]\<rparr>"
| "log_step l (Trim w) = l\<lparr>fl_trimmed := max (fl_trimmed l) w\<rparr>"
| "log_step l (Bump draws) = log_start 0"

definition log_next :: "feed_log \<Rightarrow> nat" where
  "log_next l = fl_base l + length (fl_log l)"

definition log_suffix :: "feed_log \<Rightarrow> nat \<Rightarrow> frame list" where
  "log_suffix l n = log_from (fl_base l) (fl_log l) n"

section \<open>Eviction drops no more than it must\<close>

abbreviation frame_bytes :: "frame list \<Rightarrow> nat" where
  "frame_bytes fs \<equiv> sum_list (map (length \<circ> fr_bytes) fs)"

lemma evict_keeps:
  "backs base log s \<Longrightarrow> rs_buf s = xs @ ys \<Longrightarrow> frame_bytes ys + n \<le> rs_max_bytes s \<Longrightarrow> evict n s = Some s' \<Longrightarrow>
   length ys \<le> length (rs_buf s')"
proof (induction xs arbitrary: s)
  case Nil
  then have "\<not> rs_bytes_in_buf s + n > rs_max_bytes s" by (simp add: backs_def comp_def)
  then show ?case using Nil by (simp add: evict.simps)
next
  case (Cons x xs)
  obtain s1 where s1: "pop_front s = Some s1" "backs base log s1" "rs_buf s1 = xs @ ys" "rs_max_bytes s1 = rs_max_bytes s"
    using backs_pop [of base log s x "xs @ ys"] Cons.prems(1,2) by auto
  show ?case
  proof (cases "rs_bytes_in_buf s + n > rs_max_bytes s")
    case True
    then have "evict n s1 = Some s'" using Cons.prems(2,4) s1(1) by (simp add: evict.simps [of n s])
    then show ?thesis using Cons.IH [OF s1(2,3)] Cons.prems(3) s1(4) by simp
  next
    case False
    then show ?thesis using Cons.prems by (simp add: evict.simps)
  qed
qed

lemma retained_le:
  assumes "backs base log s" "n \<le> base + length log"
  shows "retained base log s \<le> n \<longleftrightarrow> base + length log - n \<le> length (rs_buf s)"
  using assms backs_buf(3) [OF assms(1)] by (auto simp: retained_def)

lemma push_keeps:
  assumes b: "backs base log s" and p: "push_mutation s args = Some (s', m)"
    and n: "base \<le> n" "n \<le> base + length log" "retained base log s \<le> n"
    and fit: "frame_bytes (log_from base (log @ [args]) n) \<le> rs_max_bytes s"
  shows "retained base (log @ [args]) s' \<le> n"
proof -
  let ?len = "length (encode_frame (base + length log) args)"
  obtain s1 where s1: "evict ?len s = Some s1" "length (rs_buf s') = Suc (length (rs_buf s1))"
    using p b by (auto simp: push_mutation_def Let_def backs_def split: option.splits)
  have buf: "rs_buf s = log_from base log (retained base log s)" by (rule backs_buf(1) [OF b])
  have suf: "drop (n - retained base log s) (rs_buf s) = log_from base log n"
    using log_from_drop [OF backs_buf(2) [OF b] n(3), of log] unfolding buf by simp
  have "log_from base (log @ [args]) n = log_from base log n @ [log_frame base (log @ [args]) (length log)]"
    using n by (auto simp: log_from_def log_frame_def nth_append)
  then have "frame_bytes (log_from base log n) + ?len \<le> rs_max_bytes s" using fit by (simp add: log_frame_def)
  then have "length (log_from base log n) \<le> length (rs_buf s1)"
    using evict_keeps [OF b _ _ s1(1), of "take (n - retained base log s) (rs_buf s)" "log_from base log n"]
    unfolding suf [symmetric] by simp
  then show ?thesis using s1(2) n by (simp add: retained_def log_from_def)
qed

section \<open>The invariant of a run\<close>

definition feed_ok :: "nat \<Rightarrow> feed_source \<Rightarrow> feed_log \<Rightarrow> bool" where
  "feed_ok max_bytes f l \<longleftrightarrow>
     backs (fl_base l) (fl_log l) (fs_source f) \<and> rs_max_bytes (fs_source f) = max_bytes \<and>
     (length (rs_buf (fs_source f)) \<le> 1 \<or> rs_bytes_in_buf (fs_source f) \<le> max_bytes) \<and>
     (\<forall>n. fl_base l \<le> n \<and> fl_trimmed l \<le> n \<and> n \<le> log_next l \<and> frame_bytes (log_suffix l n) \<le> max_bytes \<longrightarrow>
        retained (fl_base l) (fl_log l) (fs_source f) \<le> n)"

lemma feed_ok_start: "feed_start g m base = Some f \<Longrightarrow> feed_ok m f (log_start base)"
  by (auto simp: feed_start_def source_new_def set_next_offset_def feed_ok_def log_start_def backs_def retained_def
      log_next_def split: if_splits)

lemma frame_bytes_prefix: "frame_bytes (log_from base log n) \<le> frame_bytes (log_from base (log @ [x]) n)"
proof -
  have "log_from base log n = map (log_frame base (log @ [x])) [n - base..<length log]"
    by (auto simp: log_from_def log_frame_def nth_append)
  then show ?thesis unfolding log_from_def [of base "log @ [x]"] by (simp only: length_append_singleton upt_Suc) simp
qed

lemma feed_ok_push:
  assumes ok: "feed_ok m f l" and p: "push_mutation (fs_source f) args = Some (s, k)"
  shows "feed_ok m (f\<lparr>fs_source := s\<rparr>) (l\<lparr>fl_log := fl_log l @ [args]\<rparr>)"
proof -
  have b: "backs (fl_base l) (fl_log l) (fs_source f)" and m: "rs_max_bytes (fs_source f) = m"
    using ok by (simp_all add: feed_ok_def)
  have "fl_base l + length (fl_log l) < u64_max"
    using p b backs_evict [OF b, of "length (encode_frame (rs_next_offset (fs_source f)) args)"]
    by (auto simp: push_mutation_def Let_def backs_def checked_u64_def split: option.splits if_splits)
  from backs_push [OF b this, of args] p have s: "backs (fl_base l) (fl_log l @ [args]) s" "rs_max_bytes s = m"
    "length (rs_buf s) \<le> 1 \<or> rs_bytes_in_buf s \<le> m" "rs_buf s \<noteq> []" using m by auto
  have "retained (fl_base l) (fl_log l @ [args]) s \<le> n"
    if n: "fl_base l \<le> n" "fl_trimmed l \<le> n" "n \<le> fl_base l + Suc (length (fl_log l))"
      "frame_bytes (log_from (fl_base l) (fl_log l @ [args]) n) \<le> m" for n
  proof (cases "n \<le> fl_base l + length (fl_log l)")
    case True
    have "frame_bytes (log_from (fl_base l) (fl_log l) n) \<le> m"
      using frame_bytes_prefix n(4) by (rule order_trans)
    then have "retained (fl_base l) (fl_log l) (fs_source f) \<le> n"
      using ok n True by (simp add: feed_ok_def log_next_def log_suffix_def)
    then show ?thesis using push_keeps [OF b p n(1) True] n(4) m by simp
  next
    case False
    then show ?thesis using n s(4) by (simp add: retained_def)
  qed
  then show ?thesis using s by (simp add: feed_ok_def log_next_def log_suffix_def)
qed

lemma frame_bytes_dropWhile: "frame_bytes (dropWhile P fs) \<le> frame_bytes fs"
  by (induction fs) auto

lemma feed_ok_trim:
  assumes ok: "feed_ok m f l" and d: "drop_up_to (fs_source f) w = Some s"
  shows "feed_ok m (f\<lparr>fs_source := s\<rparr>) (l\<lparr>fl_trimmed := max (fl_trimmed l) w\<rparr>)"
proof -
  have b: "backs (fl_base l) (fl_log l) (fs_source f)" using ok by (simp add: feed_ok_def)
  note r = retained_drop [OF b d]
  from backs_drop [OF b, of w] d have s: "rs_max_bytes s = rs_max_bytes (fs_source f)"
    "rs_buf s = dropWhile (\<lambda>f. fr_offset f < w) (rs_buf (fs_source f))" by auto
  have "rs_bytes_in_buf s \<le> rs_bytes_in_buf (fs_source f)"
    using r b frame_bytes_dropWhile [of "\<lambda>f. fr_offset f < w" "rs_buf (fs_source f)"] s(2) by (simp add: backs_def)
  moreover have "length (rs_buf s) \<le> length (rs_buf (fs_source f))" using s(2) by (simp add: length_dropWhile_le)
  ultimately show ?thesis using ok r s(1) by (auto simp: feed_ok_def log_next_def log_suffix_def)
qed

lemma feed_ok_step: "feed_ok m f l \<Longrightarrow> feed_step f op = Some f' \<Longrightarrow> feed_ok m f' (log_step l op)"
proof (cases op)
  case (Push args)
  then show "feed_ok m f l \<Longrightarrow> feed_step f op = Some f' \<Longrightarrow> ?thesis" using feed_ok_push by auto
next
  case (Trim w)
  then show "feed_ok m f l \<Longrightarrow> feed_step f op = Some f' \<Longrightarrow> ?thesis" using feed_ok_trim by auto
next
  case (Bump draws)
  then show "feed_ok m f l \<Longrightarrow> feed_step f op = Some f' \<Longrightarrow> ?thesis"
    by (auto simp: bump_generation_def source_new_def feed_ok_def log_start_def backs_def retained_def log_next_def
        split: option.splits if_splits)
qed

lemma feed_ok_run: "feed_ok m f l \<Longrightarrow> feed_run f ops = Some f' \<Longrightarrow> feed_ok m f' (foldl log_step l ops)"
  by (induction ops arbitrary: f l) (auto split: option.splits dest: feed_ok_step)

lemma feed_read_log:
  assumes ok: "feed_ok m f l"
  shows "feed_read wrap f at limit =
    (if fp_generation at \<noteq> fs_generation f then Err (Resync (feed_tail f))
     else if fp_offset at > log_next l then Err Read_future
     else if fp_offset at < retained (fl_base l) (fl_log l) (fs_source f) then Err (Resync (feed_tail f))
     else Ok (take limit (log_suffix l (fp_offset at))))"
proof -
  have b: "backs (fl_base l) (fl_log l) (fs_source f)" using ok by (simp add: feed_ok_def)
  show ?thesis
    using frames_from_log [OF b, of wrap "fp_offset at"] frames_from_ok [OF b, of "fp_offset at" wrap]
    by (auto simp: feed_read_def log_next_def log_suffix_def frames_take_drop)
qed

section \<open>The property\<close>

text \<open>
  C9: After every run of pushes, trims and generation bumps on a new feed, its tail is the
  end of the log of the current generation, and for some oldest retained offset every read
  is answered from that log: another generation and an evicted offset ask for a resync, an
  offset past the end is a future one, and any other read returns the log's frames from that
  offset. Every offset that was not trimmed and whose suffix of the log fits the byte budget
  is retained, and the backlog exceeds the budget only when it holds a single frame.
\<close>

theorem feed_refines_log:
  assumes "feed_start g max_bytes base = Some f0" "feed_run f0 ops = Some f"
    and "l = foldl log_step (log_start base) ops"
  shows "feed_tail f = feed_position_new (fs_generation f) (log_next l) \<and>
    (\<exists>oldest. (\<forall>wrap at limit. feed_read wrap f at limit =
        (if fp_generation at \<noteq> fs_generation f then Err (Resync (feed_tail f))
         else if fp_offset at > log_next l then Err Read_future
         else if fp_offset at < oldest then Err (Resync (feed_tail f))
         else Ok (take limit (log_suffix l (fp_offset at))))) \<and>
      (\<forall>n. fl_base l \<le> n \<and> fl_trimmed l \<le> n \<and> n \<le> log_next l \<and> frame_bytes (log_suffix l n) \<le> max_bytes \<longrightarrow> oldest \<le> n)) \<and>
    (length (rs_buf (fs_source f)) \<le> 1 \<or> frame_bytes (rs_buf (fs_source f)) \<le> max_bytes)"
proof -
  have ok: "feed_ok max_bytes f l"
    using feed_ok_run [OF feed_ok_start [OF assms(1)] assms(2)] assms(3) by simp
  then have b: "backs (fl_base l) (fl_log l) (fs_source f)" by (simp add: feed_ok_def)
  then have "feed_tail f = feed_position_new (fs_generation f) (log_next l)"
    "rs_bytes_in_buf (fs_source f) = frame_bytes (rs_buf (fs_source f))"
    by (simp_all add: feed_tail_def log_next_def backs_def)
  then show ?thesis
    using ok by (intro conjI exI [of _ "retained (fl_base l) (fl_log l) (fs_source f)"] allI feed_read_log [OF ok]) (simp_all add: feed_ok_def)
qed

lemma dec_digit: "n < 10 \<Longrightarrow> dec_digits n = [digit_byte n]"
  by (simp add: dec_digits.simps)

theorem feed_refines_log_witness:
  "\<exists>f0 f. feed_start 7 60 5 = Some f0 \<and> feed_run f0 [Push [[65]], Push [[66]], Trim 6] = Some f \<and>
     feed_tail f = feed_position_new 7 7 \<and> feed_read 0 f (feed_position_new 8 6) 4 = Err (Resync (feed_position_new 7 7))"
proof -
  define f0 where "f0 = \<lparr>fs_generation = 7, fs_source = \<lparr>rs_next_offset = 5, rs_bytes_in_buf = 0, rs_max_bytes = 60, rs_buf = []\<rparr>\<rparr>"
  have s: "feed_start 7 60 5 = Some f0" by (simp add: feed_start_def source_new_def set_next_offset_def f0_def)
  obtain f where r: "feed_run f0 [Push [[65]], Push [[66]], Trim 6] = Some f"
    and g: "fs_generation f = 7"
    by (simp add: f0_def push_mutation_def Let_def evict.simps drop_up_to.simps pop_front_def checked_u64_def u64_max_def
        encode_frame_def encode_frame_arg_def push_u64_dec dec_digit)
  have l: "log_next (foldl log_step (log_start 5) [Push [[65]], Push [[66]], Trim 6]) = 7"
    by (simp add: log_next_def log_start_def)
  from feed_refines_log [OF s r refl] have
    "feed_tail f = feed_position_new 7 7" "feed_read 0 f (feed_position_new 8 6) 4 = Err (Resync (feed_tail f))"
    unfolding g l by (auto simp: feed_position_new_def)
  then show ?thesis using s r by auto
qed

end
