(* ===== verification/Repl_Replica.thy ===== *)
theory Repl_Replica
  imports Repl_Wire
begin

text \<open>
  The replica's side of \<open>kevy-replicate\<close>: the handshake (\<open>handshake.rs\<close>, \<open>replica.rs\<close>) and the
  decoder of the replication stream (\<open>replica_decode.rs\<close>). The socket is a list of the
  results its reads return; \<open>Blocked\<close> is a read that has not returned yet. Links without the
  Noise layer are modelled.
\<close>

section \<open>Handshake\<close>

record handshake_req =
  hr_from :: feed_position
  hr_replica_id :: bytes

datatype handshake_error =
  Bad_command | Wrong_arity nat | Bad_from_keyword | Bad_generation | Bad_from_offset | Bad_id_keyword | Bad_replica_id

definition eq_ascii_ci :: "bytes \<Rightarrow> bytes \<Rightarrow> bool" where
  "eq_ascii_ci a b \<longleftrightarrow> length a = length b \<and> list_all (\<lambda>(x, y). ascii_lower x = ascii_lower y) (zip a b)"

text \<open>The private copy of \<open>wire::parse_decimal\<close> in \<open>handshake.rs\<close>.\<close>

definition parse_decimal_u64 :: "bytes \<Rightarrow> nat option" where
  "parse_decimal_u64 bs = (if bs = [] then None else parse_decimal_loop 0 bs)"

definition handshake_parse :: "argv \<Rightarrow> (handshake_error, handshake_req) result" where
  "handshake_parse a =
     (let arg = (\<lambda>i. the (argv_get a i)) in
      if argv_len a \<noteq> 6 then Err (Wrong_arity (argv_len a))
      else if \<not> eq_ascii_ci (arg 0) (ascii ''REPLICATE'') then Err Bad_command
      else if \<not> eq_ascii_ci (arg 1) (ascii ''FROM'') then Err Bad_from_keyword
      else case parse_decimal_u64 (arg 2) of None \<Rightarrow> Err Bad_generation
      | Some g \<Rightarrow>
        (case parse_decimal_u64 (arg 3) of None \<Rightarrow> Err Bad_from_offset
         | Some from_offset \<Rightarrow>
           if \<not> eq_ascii_ci (arg 4) (ascii ''ID'') then Err Bad_id_keyword
           else if arg 5 = [] then Err Bad_replica_id
           else if \<not> utf8_valid (arg 5) then Err Bad_replica_id
           else Ok \<lparr>hr_from = feed_position_new g from_offset, hr_replica_id = arg 5\<rparr>))"

definition encode_ack :: "feed_position \<Rightarrow> bytes" where
  "encode_ack at = push_u64 (push_u64 (ascii ''+ACK '') (fp_generation at) @ [32]) (fp_offset at) @ crlf"

definition encode_replicate_from :: "feed_position \<Rightarrow> bytes \<Rightarrow> bytes" where
  "encode_replicate_from start rid =
     foldl (\<lambda>v arg. v @ (36 # dec_digits (length arg) @ crlf) @ arg @ crlf) (ascii ''*6'' @ crlf)
       [ascii ''REPLICATE'', ascii ''FROM'', dec_digits (fp_generation start), dec_digits (fp_offset start),
        ascii ''ID'', rid]"

section \<open>Events\<close>

datatype replica_error =
  Ack_malformed | Re_truncated | Re_frame wire_error | Offset_gap nat nat
  | Unexpected_in_snapshot | Snapshot_in_progress | Re_io

definition strip_suffix :: "bytes \<Rightarrow> bytes \<Rightarrow> bytes option" where
  "strip_suffix suf bs =
     (if length suf \<le> length bs \<and> drop (length bs - length suf) bs = suf
      then Some (take (length bs - length suf) bs) else None)"

text \<open>\<open>str::split_once\<close> at the first space.\<close>

definition split_once_space :: "bytes \<Rightarrow> (bytes \<times> bytes) option" where
  "split_once_space bs = map_option (\<lambda>i. (take i bs, drop (i + 1) bs)) (position (\<lambda>b. b = 32) bs)"

definition parse_ack_line :: "bytes \<Rightarrow> (replica_error, feed_position) result" where
  "parse_ack_line line =
     (case strip_suffix crlf line of None \<Rightarrow> Err Ack_malformed
      | Some body0 \<Rightarrow>
        (case strip_prefix (ascii ''+ACK '') body0 of None \<Rightarrow> Err Ack_malformed
         | Some body \<Rightarrow>
           if \<not> utf8_valid body then Err Ack_malformed
           else case split_once_space body of None \<Rightarrow> Err Ack_malformed
           | Some (gen_s, off_s) \<Rightarrow>
             (case parse_u64_str gen_s of None \<Rightarrow> Err Ack_malformed
              | Some g \<Rightarrow>
                (case parse_u64_str off_s of None \<Rightarrow> Err Ack_malformed
                 | Some n \<Rightarrow> Ok (feed_position_new g n)))))"

datatype replica_event =
  Ev_frame decoded_frame | Ev_ping feed_position | Ev_snapshot_begin | Ev_snapshot_chunk bytes | Ev_snapshot_end nat

record replica_client =
  rc_buf :: bytes
  rc_cursor :: nat
  rc_expected_offset :: nat
  rc_in_snapshot :: bool

type_synonym event_result = "(replica_error, replica_event) result"

definition client_new :: "nat \<Rightarrow> replica_client" where
  "client_new from_offset =
     \<lparr>rc_buf = [], rc_cursor = 0, rc_expected_offset = from_offset, rc_in_snapshot = False\<rparr>"

definition maybe_compact_buf :: "replica_client \<Rightarrow> replica_client" where
  "maybe_compact_buf c =
     (if rc_cursor c \<ge> 4 * 1024 then c\<lparr>rc_buf := drop (rc_cursor c) (rc_buf c), rc_cursor := 0\<rparr> else c)"

definition advance :: "replica_client \<Rightarrow> nat \<Rightarrow> replica_client" where
  "advance c used = maybe_compact_buf (c\<lparr>rc_cursor := rc_cursor c + used\<rparr>)"

definition try_decode_live_frame :: "replica_client \<Rightarrow> replica_client \<times> event_result option" where
  "try_decode_live_frame c =
     (case decode_frame (drop (rc_cursor c) (rc_buf c)) of
        Inr (f, used) \<Rightarrow>
          (let c' = advance c used in
           if df_offset f \<noteq> rc_expected_offset c'
           then (c', Some (Err (Offset_gap (rc_expected_offset c') (df_offset f))))
           else (c'\<lparr>rc_expected_offset := sat_add_u64 (rc_expected_offset c') 1\<rparr>, Some (Ok (Ev_frame f))))
      | Inl Wire_truncated \<Rightarrow> (c, None)
      | Inl e \<Rightarrow> (c, Some (Err (Re_frame e))))"

definition try_decode_snapshot_marker :: "replica_client \<Rightarrow> replica_client \<times> event_result option" where
  "try_decode_snapshot_marker c =
     (case decode_snapshot_marker (drop (rc_cursor c) (rc_buf c)) of
        Inr (Some (Begin, used)) \<Rightarrow> ((advance c used)\<lparr>rc_in_snapshot := True\<rparr>, Some (Ok Ev_snapshot_begin))
      | Inr (Some (Ping tail, used)) \<Rightarrow> (advance c used, Some (Ok (Ev_ping tail)))
      | Inr (Some (End ack_offset, used)) \<Rightarrow>
          ((advance c used)\<lparr>rc_in_snapshot := False, rc_expected_offset := ack_offset\<rparr>, Some (Ok (Ev_snapshot_end ack_offset)))
      | Inr None \<Rightarrow> (c, Some (Err (Re_frame Bad_envelope)))
      | Inl Wire_truncated \<Rightarrow> (c, None)
      | Inl e \<Rightarrow> (c, Some (Err (Re_frame e))))"

definition try_decode_snapshot_chunk :: "replica_client \<Rightarrow> replica_client \<times> event_result option" where
  "try_decode_snapshot_chunk c =
     (case decode_snapshot_chunk (drop (rc_cursor c) (rc_buf c)) of
        Inr (chunk, used) \<Rightarrow> (advance c used, Some (Ok (Ev_snapshot_chunk chunk)))
      | Inl Wire_truncated \<Rightarrow> (c, None)
      | Inl e \<Rightarrow> (c, Some (Err (Re_frame e))))"

definition try_decode_one_event :: "replica_client \<Rightarrow> replica_client \<times> event_result option" where
  "try_decode_one_event c =
     (if rc_cursor c \<ge> length (rc_buf c) then (c, None)
      else
        (let b = rc_buf c ! rc_cursor c in
         if b = 43 then try_decode_snapshot_marker c
         else if b = 36 \<and> rc_in_snapshot c then try_decode_snapshot_chunk c
         else if b = 42 \<and> rc_in_snapshot c then (c, Some (Err Unexpected_in_snapshot))
         else if b = 42 then try_decode_live_frame c
         else (c, Some (Err (Re_frame Bad_envelope)))))"

datatype read = Got bytes | Eof | Interrupted | Io_error

datatype next_result = Next event_result | Closed_link | Blocked

text \<open>\<open>next_event\<close>: a read of no bytes is the end of the stream.\<close>

fun next_event :: "replica_client \<Rightarrow> read list \<Rightarrow> replica_client \<times> read list \<times> next_result" where
  "next_event c reads =
     (case try_decode_one_event c of
        (c', Some r) \<Rightarrow> (c', reads, Next r)
      | (c', None) \<Rightarrow>
        (case reads of [] \<Rightarrow> (c', [], Blocked)
         | Eof # rs \<Rightarrow>
             if rc_cursor c' < length (rc_buf c') then (c', rs, Next (Err Re_truncated)) else (c', rs, Closed_link)
         | Got bs # rs \<Rightarrow> next_event (c'\<lparr>rc_buf := rc_buf c' @ bs\<rparr>) rs
         | Interrupted # rs \<Rightarrow> next_event c' rs
         | Io_error # rs \<Rightarrow> (c', rs, Next (Err Re_io))))"

declare next_event.simps [simp del]

fun next_frame :: "nat \<Rightarrow> replica_client \<Rightarrow> read list \<Rightarrow> (replica_client \<times> read list \<times> (replica_error, decoded_frame) result option) option" where
  "next_frame 0 c reads = None"
| "next_frame (Suc fuel) c reads =
     (case next_event c reads of
        (c', rs, Next (Inr (Ev_frame f))) \<Rightarrow> Some (c', rs, Some (Ok f))
      | (c', rs, Next (Inr (Ev_ping _))) \<Rightarrow> next_frame fuel c' rs
      | (c', rs, Next (Inr _)) \<Rightarrow> Some (c', rs, Some (Err Snapshot_in_progress))
      | (c', rs, Next (Inl e)) \<Rightarrow> Some (c', rs, Some (Err e))
      | (c', rs, Closed_link) \<Rightarrow> Some (c', rs, None)
      | (c', rs, Blocked) \<Rightarrow> None)"

end
