(* ===== verification/Repl_Pump.thy ===== *)
theory Repl_Pump
  imports Repl_Source Repl_Replica
begin

text \<open>
  The replication links of a shard in \<open>kevy-rt\<close>: one connection's life cycle
  (\<open>replication.rs\<close>), its socket events (\<open>replication_io.rs\<close>), the pump that fills its output
  (\<open>replication_pump.rs\<close>) and the retention watermark (\<open>shard_tick.rs\<close>). Links without the
  Noise layer are modelled. The snapshot serializer is a thread: what its channel returns is
  an argument, as are the clock and the results of socket writes.
\<close>

section \<open>A connection\<close>

datatype replica_state =
  Handshake_pending
| Ack_sent bytes nat nat
| Streaming bytes nat nat
| Snapshot_shipping bytes nat nat bool bytes nat
| Closed "bytes option"

record replica_conn =
  cn_input :: bytes
  cn_output :: bytes
  cn_write_off :: nat
  cn_state :: replica_state

definition conn_new :: replica_conn where
  "conn_new = \<lparr>cn_input = [], cn_output = [], cn_write_off = 0, cn_state = Handshake_pending\<rparr>"

definition drained :: "replica_conn \<Rightarrow> replica_conn" where
  "drained c =
     (let c' = c\<lparr>cn_output := [], cn_write_off := 0\<rparr> in
      case cn_state c of
        Ack_sent rid from_offset g \<Rightarrow> c'\<lparr>cn_state := Streaming rid from_offset g\<rparr>
      | _ \<Rightarrow> c')"

definition pending_out :: "replica_conn \<Rightarrow> nat" where
  "pending_out c = length (cn_output c) - cn_write_off c"

definition close_conn :: "replica_conn \<Rightarrow> replica_conn" where
  "close_conn c =
     (case cn_state c of
        Handshake_pending \<Rightarrow> c\<lparr>cn_state := Closed None\<rparr>
      | Ack_sent rid _ _ \<Rightarrow> c\<lparr>cn_state := Closed (Some rid)\<rparr>
      | Streaming rid _ _ \<Rightarrow> c\<lparr>cn_state := Closed (Some rid)\<rparr>
      | Snapshot_shipping rid _ _ _ _ _ \<Rightarrow> c\<lparr>cn_state := Closed (Some rid)\<rparr>
      | Closed _ \<Rightarrow> c)"

definition advance_handshake :: "replica_conn \<Rightarrow> nat \<Rightarrow> (handshake_error, replica_conn) result" where
  "advance_handshake c feed_gen =
     (if cn_state c \<noteq> Handshake_pending then Ok c
      else case parse_command_into (cn_input c) argv_default of
        Inl _ \<Rightarrow> Err Bad_command
      | Inr None \<Rightarrow> Ok c
      | Inr (Some (a, consumed)) \<Rightarrow>
        (case handshake_parse a of Inl e \<Rightarrow> Err e
         | Inr req \<Rightarrow>
           Ok (c\<lparr>cn_input := drop consumed (cn_input c),
                 cn_output := cn_output c @ encode_ack (feed_position_new feed_gen (fp_offset (hr_from req))),
                 cn_write_off := 0,
                 cn_state := Ack_sent (hr_replica_id req) (fp_offset (hr_from req)) (fp_generation (hr_from req))\<rparr>)))"

section \<open>The pump\<close>

definition pump_byte_budget :: nat where "pump_byte_budget = 256 * 1024"
definition streaming_output_cap :: nat where "streaming_output_cap = 4 * 1024 * 1024"

text \<open>\<open>start_snapshot_ship\<close> on a streaming connection; the flag says that the serializer has
  not delivered yet.\<close>

definition start_snapshot_ship :: "replica_conn \<Rightarrow> nat \<Rightarrow> nat \<Rightarrow> replica_conn" where
  "start_snapshot_ship c g ack_offset =
     (case cn_state c of
        Streaming rid _ _ \<Rightarrow>
          c\<lparr>cn_output := cn_output c @ encode_snapshot_begin,
            cn_state := Snapshot_shipping rid ack_offset g True [] 0\<rparr>
      | _ \<Rightarrow> c)"

fun pump_frames :: "nat \<Rightarrow> frame list \<Rightarrow> nat \<Rightarrow> bytes \<Rightarrow> nat \<Rightarrow> bytes \<times> nat" where
  "pump_frames pending [] bytes_this_pump added new_sent = (added, new_sent)"
| "pump_frames pending (f # fs) bytes_this_pump added new_sent =
     (if bytes_this_pump + length (fr_bytes f) > pump_byte_budget \<or>
         pending + bytes_this_pump + length (fr_bytes f) > streaming_output_cap
      then (added, new_sent)
      else pump_frames pending fs (bytes_this_pump + length (fr_bytes f)) (added @ fr_bytes f) (fr_offset f + 1))"

definition fill_streaming_output :: "nat \<Rightarrow> replication_source \<Rightarrow> replica_conn \<Rightarrow> nat \<Rightarrow> nat \<Rightarrow> replica_conn" where
  "fill_streaming_output wrap src c feed_gen primary_next =
     (case cn_state c of
        Streaming rid sent_offset g \<Rightarrow>
          if g \<noteq> feed_gen then start_snapshot_ship c feed_gen primary_next
          else if sent_offset = primary_next then c
          else if pending_out c \<ge> streaming_output_cap div 2 then c
          else
            (case frames_from wrap src sent_offset of
               Inl _ \<Rightarrow> start_snapshot_ship c feed_gen primary_next
             | Inr cursor \<Rightarrow>
               (let (added, new_sent) = pump_frames (pending_out c) (drop cursor (rs_buf src)) 0 [] sent_offset in
                if added = [] then c
                else c\<lparr>cn_output := cn_output c @ added, cn_state := Streaming rid new_sent g\<rparr>))
      | _ \<Rightarrow> c)"

definition maybe_append_heartbeat :: "bool \<Rightarrow> replica_conn \<Rightarrow> nat \<Rightarrow> nat \<Rightarrow> replica_conn" where
  "maybe_append_heartbeat due c g primary_next =
     (if \<not> due then c
      else c\<lparr>cn_output := cn_output c @ encode_ping (feed_position_new g primary_next)\<rparr>)"

datatype recv = Received bytes | Empty | Disconnected

text \<open>The part of \<open>pump_snapshot_chunks\<close> after the serializer has delivered.\<close>

definition emit_snapshot_chunk :: "replica_conn \<Rightarrow> replica_conn" where
  "emit_snapshot_chunk c =
     (case cn_state c of
        Snapshot_shipping rid ack_offset g serializing snapshot_buf snapshot_off \<Rightarrow>
          (let remaining = drop snapshot_off snapshot_buf in
           if remaining = [] then
             c\<lparr>cn_output := cn_output c @ encode_snapshot_end ack_offset, cn_state := Streaming rid ack_offset g\<rparr>
           else
             (let chunk = take (min (length remaining) snapshot_chunk_max) remaining in
              c\<lparr>cn_output := cn_output c @ encode_snapshot_chunk chunk,
                cn_state := Snapshot_shipping rid ack_offset g serializing snapshot_buf (snapshot_off + length chunk)\<rparr>))
      | _ \<Rightarrow> c)"

definition pump_snapshot_chunks :: "recv \<Rightarrow> replica_conn \<Rightarrow> replica_conn" where
  "pump_snapshot_chunks r c =
     (if pending_out c \<ge> streaming_output_cap div 2 then c
      else case cn_state c of
        Snapshot_shipping rid ack_offset g True snapshot_buf snapshot_off \<Rightarrow>
          (case r of
             Received buf \<Rightarrow>
               emit_snapshot_chunk (c\<lparr>cn_state := Snapshot_shipping rid ack_offset g False buf snapshot_off\<rparr>)
           | Empty \<Rightarrow> c
           | Disconnected \<Rightarrow> close_conn c)
      | _ \<Rightarrow> emit_snapshot_chunk c)"

text \<open>One connection's turn in \<open>pump_replication\<close>.\<close>

definition pump_replication :: "nat \<Rightarrow> bool \<Rightarrow> recv \<Rightarrow> feed_source \<Rightarrow> replica_conn \<Rightarrow> replica_conn" where
  "pump_replication wrap due r f c =
     (let g = fs_generation f; next_offset = rs_next_offset (fs_source f) in
      case cn_state c of
        Streaming _ _ _ \<Rightarrow>
          maybe_append_heartbeat due (fill_streaming_output wrap (fs_source f) c g next_offset) g next_offset
      | Snapshot_shipping _ _ _ _ _ _ \<Rightarrow> pump_snapshot_chunks r c
      | _ \<Rightarrow> c)"

section \<open>Socket events\<close>

datatype write_result = Wrote nat | Would_block | Write_interrupted | Write_error

fun replica_writable :: "write_result list \<Rightarrow> replica_conn \<Rightarrow> (replica_conn \<times> bool) option" where
  "replica_writable ws c =
     (if cn_write_off c \<ge> length (cn_output c) then Some (drained c, True)
      else case ws of [] \<Rightarrow> None
      | Wrote 0 # ws' \<Rightarrow> Some (close_conn c, True)
      | Wrote n # ws' \<Rightarrow> replica_writable ws' (c\<lparr>cn_write_off := cn_write_off c + n\<rparr>)
      | Would_block # ws' \<Rightarrow> Some (c, True)
      | Write_interrupted # ws' \<Rightarrow> replica_writable ws' c
      | Write_error # ws' \<Rightarrow> Some (c, False))"

declare replica_writable.simps [simp del]

definition replica_io_failed :: "replica_conn \<Rightarrow> replica_conn" where
  "replica_io_failed c = close_conn c"

text \<open>One connection's turn in \<open>drain_streaming_outputs\<close>.\<close>

definition drain_streaming_outputs :: "write_result list \<Rightarrow> replica_conn \<Rightarrow> replica_conn option" where
  "drain_streaming_outputs ws c =
     (let live = (case cn_state c of Streaming _ _ _ \<Rightarrow> True | Ack_sent _ _ _ \<Rightarrow> True
                  | Snapshot_shipping _ _ _ _ _ _ \<Rightarrow> True | _ \<Rightarrow> False) in
      if \<not> live \<or> pending_out c = 0 then Some c
      else case replica_writable ws c of None \<Rightarrow> None
      | Some (c', False) \<Rightarrow> Some (replica_io_failed c')
      | Some (c', True) \<Rightarrow>
          Some (case cn_state c' of
            Streaming _ _ _ \<Rightarrow> if pending_out c' \<ge> streaming_output_cap then close_conn c' else c'
          | _ \<Rightarrow> c'))"

definition streaming_input_discard_cap :: nat where "streaming_input_discard_cap = 64 * 1024"
definition handshake_max_input :: nat where "handshake_max_input = 4 * 1024"

lemma replconf_ack_used: "decode_replconf_ack buf = Ok (Some (offset, used)) \<Longrightarrow> 2 \<le> used"
  by (auto simp: decode_replconf_ack_def split: if_splits option.splits)

text \<open>The loop of \<open>parse_replica_acks\<close> over the input; a window search for CRLF is the scan
  from the front.\<close>

function ack_loop :: "bytes \<Rightarrow> nat \<Rightarrow> nat option \<Rightarrow> nat \<times> nat option" where
  "ack_loop input consumed latest =
     (let rest = drop consumed input in
      if rest = [] then (consumed, latest)
      else case decode_replconf_ack rest of
        Inr (Some (offset, used)) \<Rightarrow> ack_loop input (consumed + used) (Some offset)
      | Inr None \<Rightarrow>
          (case wire_find_crlf rest 0 of Some p \<Rightarrow> ack_loop input (consumed + (p + 2)) latest | None \<Rightarrow> (consumed, latest))
      | Inl Bad_envelope \<Rightarrow>
          (case wire_find_crlf rest 0 of Some p \<Rightarrow> ack_loop input (consumed + (p + 2)) latest | None \<Rightarrow> (consumed, latest))
      | Inl _ \<Rightarrow> (consumed, latest))"
  by pat_completeness auto
termination
  by (relation "measure (\<lambda>(input, consumed, latest). length input - consumed)") (auto dest!: replconf_ack_used)

declare ack_loop.simps [simp del]

definition parse_replica_acks :: "slot_table \<Rightarrow> nat \<Rightarrow> replica_conn \<Rightarrow> replica_conn \<times> slot_table" where
  "parse_replica_acks slots now_ns c =
     (let (consumed, latest) = ack_loop (cn_input c) 0 None;
          c' = (if consumed > 0 then c\<lparr>cn_input := drop consumed (cn_input c)\<rparr> else c)
      in case (latest, cn_state c') of
           (Some offset, Streaming rid _ _) \<Rightarrow> (c', insert_or_touch slots rid offset now_ns)
         | _ \<Rightarrow> (c', slots))"

text \<open>\<open>replica_consume\<close>: the flag says whether to go on reading.\<close>

definition replica_consume :: "nat \<Rightarrow> slot_table \<Rightarrow> nat \<Rightarrow> replica_conn \<Rightarrow> bytes \<Rightarrow> replica_conn \<times> slot_table \<times> bool" where
  "replica_consume feed_gen slots now_ns c bs =
     (if bs = [] then (c, slots, True)
      else case cn_state c of
        Handshake_pending \<Rightarrow>
          if length (cn_input c) + length bs > handshake_max_input then (close_conn c, slots, False)
          else
            (let c' = c\<lparr>cn_input := cn_input c @ bs\<rparr> in
             case advance_handshake c' feed_gen of
               Inl _ \<Rightarrow> (close_conn c', slots, False)
             | Inr c'' \<Rightarrow> (c'', slots, cn_state c'' = Handshake_pending))
      | Streaming _ _ _ \<Rightarrow>
          if length (cn_input c) + length bs > streaming_input_discard_cap then (close_conn c, slots, False)
          else (let (c', slots') = parse_replica_acks slots now_ns (c\<lparr>cn_input := cn_input c @ bs\<rparr>) in (c', slots', True))
      | _ \<Rightarrow> (c, slots, True))"

section \<open>The shard's tick\<close>

fun consumer_offset :: "replica_state \<Rightarrow> nat option" where
  "consumer_offset (Ack_sent _ from_offset _) = Some from_offset"
| "consumer_offset (Streaming _ sent_offset _) = Some sent_offset"
| "consumer_offset (Snapshot_shipping _ ack_offset _ _ _ _) = Some ack_offset"
| "consumer_offset _ = None"

definition min_with :: "nat option \<Rightarrow> nat \<Rightarrow> nat option" where
  "min_with w n = Some (case w of None \<Rightarrow> n | Some m \<Rightarrow> min m n)"

definition tick_replication_watermark :: "replica_conn list \<Rightarrow> slot_table \<Rightarrow> replication_source \<Rightarrow> replication_source option" where
  "tick_replication_watermark conns slots src =
     (let w = foldl (\<lambda>w c. case consumer_offset (cn_state c) of None \<Rightarrow> w | Some n \<Rightarrow> min_with w n) None conns;
          w' = (case min_acked_offset slots of None \<Rightarrow> w | Some n \<Rightarrow> min_with w n)
      in case w' of None \<Rightarrow> Some src | Some n \<Rightarrow> drop_up_to src n)"

fun reap_from :: "nat \<Rightarrow> nat \<Rightarrow> replica_conn list \<Rightarrow> slot_table \<Rightarrow> replica_conn list \<times> slot_table" where
  "reap_from 0 now_ns conns slots = (conns, slots)"
| "reap_from (Suc i) now_ns conns slots =
     (case cn_state (conns ! i) of
        Closed rid \<Rightarrow>
          reap_from i now_ns (swap_remove i conns)
            (case rid of Some r \<Rightarrow> touch_or_insert_unacked slots r now_ns | None \<Rightarrow> slots)
      | _ \<Rightarrow> reap_from i now_ns conns slots)"

definition reap_closed_replicas :: "nat \<Rightarrow> replica_conn list \<Rightarrow> slot_table \<Rightarrow> replica_conn list \<times> slot_table" where
  "reap_closed_replicas now_ns conns slots = reap_from (length conns) now_ns conns slots"

text \<open>\<open>tick_replication_slots\<close>: the flag says whether the shard replicates.\<close>

definition tick_replication_slots :: "bool \<Rightarrow> slot_table \<Rightarrow> nat \<Rightarrow> nat \<Rightarrow> slot_table \<times> bytes list" where
  "tick_replication_slots replicating slots now_ns reconnect_window_ms =
     (if \<not> replicating \<or> slots = [] then (slots, []) else slot_expire slots now_ns (reconnect_window_ms * 1000000))"

end
