(* ===== verification/Repl_Slots.thy ===== *)
theory Repl_Slots
  imports Repl_Feed Repl_Pump "HOL-Library.Multiset"
begin

text \<open>
  The slots of the replicas a primary has seen, and the retention watermark they and the
  live connections hold: the table refines a finite map from replica ids, a sweep of closed
  connections keeps exactly the open ones, and trimming takes no frame from a consumer.
\<close>

section \<open>Sweeps with \<open>swap_remove\<close>\<close>

text \<open>A loop from the end of a vector that removes what satisfies a condition.\<close>

fun sweep :: "('a \<Rightarrow> bool) \<Rightarrow> nat \<Rightarrow> 'a list \<Rightarrow> 'a list" where
  "sweep P 0 xs = xs"
| "sweep P (Suc i) xs = sweep P i (if P (xs ! i) then swap_remove i xs else xs)"

lemma mset_swap_remove: "i < length xs \<Longrightarrow> mset (swap_remove i xs) = mset xs - {#xs ! i#}"
proof -
  assume i: "i < length xs"
  then obtain ys y where xs: "xs = ys @ [y]" by (cases xs rule: rev_cases) auto
  show ?thesis
  proof (cases "i = length ys")
    case True
    then show ?thesis by (simp add: swap_remove_def xs)
  next
    case False
    then have "i < length ys" using i xs by simp
    then show ?thesis using nth_mem [of i ys]
      by (simp add: swap_remove_def xs list_update_append nth_append mset_update)
  qed
qed

lemma length_swap_remove: "length (swap_remove i xs) = length xs - 1"
  by (simp add: swap_remove_def)

lemma drop_swap_remove: "i < length xs \<Longrightarrow> set (drop i (swap_remove i xs)) \<subseteq> set (drop (Suc i) xs)"
proof -
  assume i: "i < length xs"
  then obtain ys y where xs: "xs = ys @ [y]" by (cases xs rule: rev_cases) auto
  show ?thesis
  proof (cases "i = length ys")
    case True
    then show ?thesis by (simp add: swap_remove_def xs)
  next
    case False
    then have "i < length ys" using i xs by simp
    then show ?thesis
      by (auto simp: swap_remove_def xs list_update_append Cons_nth_drop_Suc [symmetric])
  qed
qed

lemma sweep_filter:
  "i \<le> length xs \<Longrightarrow> \<forall>x \<in> set (drop i xs). \<not> P x \<Longrightarrow> mset (sweep P i xs) = filter_mset (\<lambda>x. \<not> P x) (mset xs)"
proof (induction i arbitrary: xs)
  case 0
  then show ?case by (simp add: filter_id_conv flip: mset_filter)
next
  case (Suc i)
  then have i: "i < length xs" by simp
  show ?case
  proof (cases "P (xs ! i)")
    case True
    have "mset (sweep P i (swap_remove i xs)) = filter_mset (\<lambda>x. \<not> P x) (mset (swap_remove i xs))"
      by (rule Suc.IH) (use Suc.prems i drop_swap_remove [OF i] in \<open>auto simp: length_swap_remove\<close>)
    then show ?thesis using True i by (simp add: mset_swap_remove)
  next
    case False
    then show ?thesis using Suc i by (simp add: Cons_nth_drop_Suc [symmetric])
  qed
qed

lemma sweep_all: "mset (sweep P (length xs) xs) = filter_mset (\<lambda>x. \<not> P x) (mset xs)"
  by (rule sweep_filter) simp_all

lemma expire_sweep: "fst (expire_from i now w t dropped) = sweep (\<lambda>s. sat_add_u64 (sl_last_seen_ns s) w \<le> now) i t"
  by (induction i arbitrary: t dropped) auto

section \<open>The table refines a map\<close>

datatype slot_op = Ack bytes nat nat | Seen bytes nat | Forget bytes | Expire nat nat

fun slot_step :: "slot_table \<Rightarrow> slot_op \<Rightarrow> slot_table" where
  "slot_step t (Ack sid acked now) = insert_or_touch t sid acked now"
| "slot_step t (Seen sid now) = touch_or_insert_unacked t sid now"
| "slot_step t (Forget sid) = fst (slot_remove t sid)"
| "slot_step t (Expire now w) = fst (slot_expire t now w)"

fun slot_spec :: "(bytes \<rightharpoonup> replica_slot) \<Rightarrow> slot_op \<Rightarrow> (bytes \<rightharpoonup> replica_slot)" where
  "slot_spec m (Ack sid acked now) = m(sid \<mapsto> \<lparr>sl_id = sid, sl_last_seen_ns = now,
     sl_acked_offset = (case m sid of None \<Rightarrow> acked | Some s \<Rightarrow> max (sl_acked_offset s) acked)\<rparr>)"
| "slot_spec m (Seen sid now) = m(sid \<mapsto> \<lparr>sl_id = sid, sl_last_seen_ns = now,
     sl_acked_offset = (case m sid of None \<Rightarrow> 0 | Some s \<Rightarrow> sl_acked_offset s)\<rparr>)"
| "slot_spec m (Forget sid) = m(sid := None)"
| "slot_spec m (Expire now w) =
     (\<lambda>sid. case m sid of None \<Rightarrow> None | Some s \<Rightarrow> if sat_add_u64 (sl_last_seen_ns s) w \<le> now then None else Some s)"

definition slots_ok :: "slot_table \<Rightarrow> bool" where
  "slots_ok t \<longleftrightarrow> distinct (map sl_id t)"

lemma slot_get_id: "slot_get t x = Some s \<Longrightarrow> s \<in> set t \<and> sl_id s = x"
  by (auto simp: slot_get_def find_Some_iff)

lemma slot_get_mem: "slots_ok t \<Longrightarrow> slot_get t x = Some s \<longleftrightarrow> s \<in> set t \<and> sl_id s = x"
proof (induction t)
  case (Cons a t)
  then show ?case using slot_get_id [of t x s] by (auto simp: slots_ok_def slot_get_def)
qed (simp add: slot_get_def)

lemma slot_get_None: "slot_get t x = None \<longleftrightarrow> x \<notin> sl_id ` set t"
  by (auto simp: slot_get_def find_None_iff)

lemma slot_getI: "(\<And>s. slot_get t x = Some s \<longleftrightarrow> m x = Some s) \<Longrightarrow> slot_get t x = m x"
  by (cases "slot_get t x"; cases "m x"; auto)

text \<open>Both kinds of touch update the slot of an id in place or append a new one.\<close>

lemma update_first_None: "update_first (\<lambda>s. sl_id s = sid) f t = None \<longleftrightarrow> slot_get t sid = None"
  by (induction t) (auto simp: slot_get_def)

lemma update_first_Some:
  assumes "update_first (\<lambda>s. sl_id s = sid) f t = Some t'" "\<And>s. sl_id (f s) = sl_id s"
  shows "map sl_id t' = map sl_id t \<and> slot_get t' x = (if x = sid then map_option f (slot_get t sid) else slot_get t x)"
  using assms by (induction t arbitrary: t') (auto simp: slot_get_def split: if_splits)

lemma upsert_get:
  assumes "slots_ok t" "\<And>s. sl_id (f s) = sl_id s" "sl_id new = sid"
    and "t' = (case update_first (\<lambda>s. sl_id s = sid) f t of Some t' \<Rightarrow> t' | None \<Rightarrow> t @ [new])"
  shows "slots_ok t' \<and> slot_get t' = (slot_get t)(sid \<mapsto> (case slot_get t sid of None \<Rightarrow> new | Some s \<Rightarrow> f s))"
proof (cases "update_first (\<lambda>s. sl_id s = sid) f t")
  case None
  then have n: "slot_get t sid = None" "t' = t @ [new]" using assms(4) update_first_None [of sid f t] by simp_all
  then have "sid \<notin> sl_id ` set t" by (simp add: slot_get_None)
  moreover have "slot_get (t @ [new]) x = (if slot_get t x = None \<and> x = sid then Some new else slot_get t x)" for x
    using assms(3) by (induction t) (auto simp: slot_get_def)
  ultimately show ?thesis using n assms(1,3) by (auto simp: slots_ok_def)
next
  case (Some u)
  then obtain s where s: "slot_get t sid = Some s" using update_first_None [of sid f t] by (cases "slot_get t sid") auto
  have "t' = u" using Some assms(4) by simp
  then show ?thesis using update_first_Some [OF Some assms(2)] s assms(1) by (auto simp: slots_ok_def)
qed

lemma slots_ok_mset:
  assumes "mset t' \<subseteq># mset t" "slots_ok t"
  shows "slots_ok t'"
proof -
  obtain ys where "mset t = mset (t' @ ys)"
    using assms(1) by (metis ex_mset mset_append mset_subset_eq_exists_conv)
  then have "mset (map sl_id t) = mset (map sl_id (t' @ ys))" by (metis mset_map)
  then show ?thesis using assms(2) mset_eq_imp_distinct_iff unfolding slots_ok_def by (metis distinct_append map_append)
qed

lemma slot_remove_get:
  assumes "slots_ok t"
  shows "slots_ok (fst (slot_remove t sid)) \<and> slot_get (fst (slot_remove t sid)) = (slot_get t)(sid := None)"
proof (cases "position (\<lambda>s. sl_id s = sid) t")
  case None
  then have "slot_get t sid = None" by (induction t) (auto simp: slot_get_def split: if_splits)
  then show ?thesis using None assms by (auto simp: slot_remove_def)
next
  case (Some i)
  then have i: "i < length t" "sl_id (t ! i) = sid" by (induction t arbitrary: i) (auto split: if_splits)
  have m: "mset (swap_remove i t) = mset t - {#t ! i#}" by (rule mset_swap_remove [OF i(1)])
  then have ok: "slots_ok (swap_remove i t)" using slots_ok_mset [OF _ assms, of "swap_remove i t"] by simp
  have "distinct t" using assms by (auto simp: slots_ok_def distinct_map)
  then have "set (swap_remove i t) = set t - {t ! i}"
    using m by (metis mset_remove1 set_mset_mset set_remove1_eq)
  moreover have "s = t ! i" if "s \<in> set t" "sl_id s = sid" for s
    using assms that i by (auto simp: slots_ok_def distinct_map inj_on_def)
  ultimately have "slot_get (swap_remove i t) x = ((slot_get t)(sid := None)) x" for x
    using i by (intro slot_getI) (auto simp: slot_get_mem [OF ok] slot_get_mem [OF assms])
  then show ?thesis using Some ok by (auto simp: slot_remove_def)
qed

lemma slot_expire_get:
  assumes "slots_ok t"
  shows "slots_ok (fst (slot_expire t now w)) \<and> slot_get (fst (slot_expire t now w)) = slot_spec (slot_get t) (Expire now w)"
proof -
  let ?P = "\<lambda>s. sat_add_u64 (sl_last_seen_ns s) w \<le> now"
  have m: "mset (fst (slot_expire t now w)) = filter_mset (\<lambda>s. \<not> ?P s) (mset t)"
    by (simp add: slot_expire_def expire_sweep sweep_all)
  have ok: "slots_ok (fst (slot_expire t now w))" by (rule slots_ok_mset [OF _ assms]) (simp add: m)
  have "set (fst (slot_expire t now w)) = {s \<in> set t. \<not> ?P s}" using arg_cong [OF m, of set_mset] by simp
  then have "slot_get (fst (slot_expire t now w)) x = slot_spec (slot_get t) (Expire now w) x" for x
  proof (cases "slot_get t x")
    case None
    then have "slot_get (fst (slot_expire t now w)) x = None"
      using \<open>set _ = _\<close> slot_get_None [of t x] slot_get_None [of "fst (slot_expire t now w)" x] by auto
    then show ?thesis using None by simp
  next
    case (Some s)
    then have s: "s \<in> set t" "sl_id s = x" using slot_get_mem [OF assms] by simp_all
    then have "u = s" if "u \<in> set t" "sl_id u = x" for u
      using assms that by (auto simp: slots_ok_def distinct_map inj_on_def)
    then have "x \<notin> sl_id ` set (fst (slot_expire t now w))" if "?P s" using that \<open>set _ = _\<close> by auto
    then have "slot_get (fst (slot_expire t now w)) x = None" if "?P s" using that by (simp add: slot_get_None)
    moreover have "slot_get (fst (slot_expire t now w)) x = Some s" if "\<not> ?P s"
      using that s \<open>set _ = _\<close> slot_get_mem [OF ok, of x s] by simp
    ultimately show ?thesis using Some by simp
  qed
  then show ?thesis using ok by blast
qed

lemma slot_step_ok: "slots_ok t \<Longrightarrow> slots_ok (slot_step t op) \<and> slot_get (slot_step t op) = slot_spec (slot_get t) op"
proof (induction op)
  case (Ack sid acked now)
  let ?f = "\<lambda>s. let s' = s\<lparr>sl_last_seen_ns := now\<rparr> in if acked > sl_acked_offset s' then s'\<lparr>sl_acked_offset := acked\<rparr> else s'"
  let ?new = "\<lparr>sl_id = sid, sl_last_seen_ns = now, sl_acked_offset = acked\<rparr>"
  have "(case slot_get t sid of None \<Rightarrow> ?new | Some s \<Rightarrow> ?f s)
    = \<lparr>sl_id = sid, sl_last_seen_ns = now, sl_acked_offset = (case slot_get t sid of None \<Rightarrow> acked | Some s \<Rightarrow> max (sl_acked_offset s) acked)\<rparr>"
    using slot_get_id [of t sid] by (auto simp: Let_def max_def split: option.split)
  moreover have "slots_ok (insert_or_touch t sid acked now) \<and>
      slot_get (insert_or_touch t sid acked now) = (slot_get t)(sid \<mapsto> (case slot_get t sid of None \<Rightarrow> ?new | Some s \<Rightarrow> ?f s))"
    by (rule upsert_get [OF Ack]) (simp_all add: insert_or_touch_def Let_def)
  ultimately show ?case by simp
next
  case (Seen sid now)
  let ?new = "\<lparr>sl_id = sid, sl_last_seen_ns = now, sl_acked_offset = 0\<rparr>"
  have "(case slot_get t sid of None \<Rightarrow> ?new | Some s \<Rightarrow> s\<lparr>sl_last_seen_ns := now\<rparr>)
    = \<lparr>sl_id = sid, sl_last_seen_ns = now, sl_acked_offset = (case slot_get t sid of None \<Rightarrow> 0 | Some s \<Rightarrow> sl_acked_offset s)\<rparr>"
    using slot_get_id [of t sid] by (auto split: option.split)
  moreover have "slots_ok (touch_or_insert_unacked t sid now) \<and>
      slot_get (touch_or_insert_unacked t sid now) = (slot_get t)(sid \<mapsto> (case slot_get t sid of None \<Rightarrow> ?new | Some s \<Rightarrow> s\<lparr>sl_last_seen_ns := now\<rparr>))"
    by (rule upsert_get [OF Seen]) (simp_all add: touch_or_insert_unacked_def)
  ultimately show ?case by simp
qed (simp_all add: slot_remove_get slot_expire_get del: slot_spec.simps(4))

lemma slots_run: "slots_ok (foldl slot_step [] ops) \<and> slot_get (foldl slot_step [] ops) = foldl slot_spec Map.empty ops"
proof (induction ops rule: rev_induct)
  case Nil
  then show ?case by (simp add: slots_ok_def slot_get_def fun_eq_iff)
next
  case (snoc op ops)
  then show ?case using slot_step_ok [of "foldl slot_step [] ops" op] by simp
qed

lemma foldl_min: "foldl min a as = Min (set (a # as))" for a :: nat
proof (induction as arbitrary: a)
  case (Cons b as)
  then show ?case by (cases "as = []") (simp_all add: Cons min.assoc)
qed simp

lemma slots_ran: "slots_ok t \<Longrightarrow> ran (slot_get t) = set t"
  by (simp add: ran_def slot_get_mem)

lemma min_acked_min:
  assumes "slots_ok t"
  shows "min_acked_offset t = (if slot_get t = Map.empty then None else Some (Min (sl_acked_offset ` ran (slot_get t))))"
proof (cases t)
  case Nil
  then show ?thesis by (simp add: min_acked_offset_def slot_get_def fun_eq_iff)
next
  case (Cons s ss)
  then have "slot_get t \<noteq> Map.empty" using slots_ran [OF assms] by force
  then show ?thesis using slots_ran [OF assms] Cons foldl_min by (simp add: min_acked_offset_def)
qed

lemma take_swap_remove: "i < length xs \<Longrightarrow> take i (swap_remove i xs) = take i xs"
  by (simp add: swap_remove_def butlast_conv_take take_update_cancel)

lemma expire_dropped:
  "i \<le> length t \<Longrightarrow> snd (expire_from i now w t dropped) =
     dropped @ rev (map sl_id (filter (\<lambda>s. sat_add_u64 (sl_last_seen_ns s) w \<le> now) (take i t)))"
  by (induction i arbitrary: t dropped) (auto simp: take_Suc_conv_app_nth take_swap_remove length_swap_remove)

section \<open>Closed connections\<close>

definition is_closed :: "replica_conn \<Rightarrow> bool" where
  "is_closed c = (case cn_state c of Closed _ \<Rightarrow> True | _ \<Rightarrow> False)"

definition note_closed :: "nat \<Rightarrow> slot_table \<Rightarrow> replica_conn \<Rightarrow> slot_table" where
  "note_closed now t c = (case cn_state c of Closed (Some rid) \<Rightarrow> slot_step t (Seen rid now) | _ \<Rightarrow> t)"

lemma reap_sweep: "fst (reap_from i now conns slots) = sweep is_closed i conns"
  by (induction i arbitrary: conns slots) (auto simp: is_closed_def split: replica_state.split)

lemma reap_notes:
  "i \<le> length conns \<Longrightarrow> snd (reap_from i now conns slots) = foldl (note_closed now) slots (rev (take i conns))"
  by (induction i arbitrary: conns slots)
    (auto simp: take_Suc_conv_app_nth take_swap_remove length_swap_remove note_closed_def split: replica_state.split option.split)

section \<open>The watermark\<close>

lemma min_with_le: "min_with w n = Some m \<Longrightarrow> m \<le> n \<and> (\<forall>k. w = Some k \<longrightarrow> m \<le> k)"
  by (auto simp: min_with_def split: option.splits)

definition conn_mark :: "nat option \<Rightarrow> replica_conn \<Rightarrow> nat option" where
  "conn_mark w c = (case consumer_offset (cn_state c) of None \<Rightarrow> w | Some n \<Rightarrow> min_with w n)"

lemma conn_mark_le:
  "conn_mark w c = Some m \<Longrightarrow> (\<forall>k. w = Some k \<longrightarrow> m \<le> k) \<and> (\<forall>n. consumer_offset (cn_state c) = Some n \<longrightarrow> m \<le> n)"
  by (auto simp: conn_mark_def dest: min_with_le split: option.splits)

lemma conn_mark_None: "conn_mark w c = None \<longleftrightarrow> w = None \<and> consumer_offset (cn_state c) = None"
  by (auto simp: conn_mark_def min_with_def split: option.splits)

lemma conn_marks:
  "case foldl conn_mark w conns of
     None \<Rightarrow> w = None \<and> (\<forall>c \<in> set conns. consumer_offset (cn_state c) = None)
   | Some m \<Rightarrow> (\<forall>k. w = Some k \<longrightarrow> m \<le> k) \<and> (\<forall>c \<in> set conns. \<forall>n. consumer_offset (cn_state c) = Some n \<longrightarrow> m \<le> n)"
proof (induction conns arbitrary: w)
  case (Cons c conns)
  from Cons.IH [of "conn_mark w c"] show ?case
    using conn_mark_None [of w c] conn_mark_le [of w c]
    by (cases "conn_mark w c") (fastforce split: option.splits)+
next
  case Nil
  then show ?case by (cases w) auto
qed

lemma min_acked_le: "min_acked_offset t = Some m \<Longrightarrow> s \<in> set t \<Longrightarrow> m \<le> sl_acked_offset s"
  by (auto simp: min_acked_offset_def foldl_min split: list.splits)

lemma tick_drops:
  "tick_replication_watermark conns slots src = Some src \<or>
   (\<exists>w. tick_replication_watermark conns slots src = drop_up_to src w \<and>
     (\<forall>c \<in> set conns. \<forall>n. consumer_offset (cn_state c) = Some n \<longrightarrow> w \<le> n) \<and> (\<forall>s \<in> set slots. w \<le> sl_acked_offset s))"
proof -
  let ?w = "foldl conn_mark None conns"
  have marks: "conn_mark = (\<lambda>w c. case consumer_offset (cn_state c) of None \<Rightarrow> w | Some n \<Rightarrow> min_with w n)"
    by (simp add: fun_eq_iff conn_mark_def)
  have t: "tick_replication_watermark conns slots src =
    (case (case min_acked_offset slots of None \<Rightarrow> ?w | Some n \<Rightarrow> min_with ?w n) of None \<Rightarrow> Some src | Some n \<Rightarrow> drop_up_to src n)"
    unfolding tick_replication_watermark_def Let_def marks [symmetric] by simp
  have slots: "min_acked_offset slots = None \<Longrightarrow> slots = []" by (auto simp: min_acked_offset_def split: list.splits)
  note c = conn_marks [of None conns]
  show ?thesis
  proof (cases "min_acked_offset slots")
    case None
    then show ?thesis using t c slots by (cases ?w) auto
  next
    case (Some a)
    obtain w where w: "min_with ?w a = Some w" by (simp add: min_with_def)
    then have "tick_replication_watermark conns slots src = drop_up_to src w" using t Some by simp
    moreover have "\<forall>s \<in> set slots. w \<le> sl_acked_offset s"
      using min_with_le [OF w] min_acked_le [OF Some] order_trans by blast
    moreover have "\<forall>c \<in> set conns. \<forall>n. consumer_offset (cn_state c) = Some n \<longrightarrow> w \<le> n"
      using min_with_le [OF w] c by (cases ?w) (auto intro: order_trans)
    ultimately show ?thesis by blast
  qed
qed

lemma trimmed_read:
  assumes "feed_ok m f l" "drop_up_to (fs_source f) w = Some src" "w \<le> n"
    "feed_read wrap f (feed_position_new (fs_generation f) n) limit = Ok fs"
  shows "feed_read wrap' (f\<lparr>fs_source := src\<rparr>) (feed_position_new (fs_generation f) n) limit = Ok fs"
proof -
  have b: "backs (fl_base l) (fl_log l) (fs_source f)" using assms(1) by (simp add: feed_ok_def)
  show ?thesis
    using feed_read_log [OF assms(1), of wrap "feed_position_new (fs_generation f) n" limit] assms(3,4)
      feed_read_log [OF feed_ok_trim [OF assms(1,2)], of wrap' "feed_position_new (fs_generation f) n" limit]
      retained_drop [OF b assms(2)]
    by (auto simp: feed_position_new_def log_next_def log_suffix_def split: if_splits)
qed

section \<open>Properties\<close>

text \<open>
  C18: The slot table refines a finite map: after every sequence of acknowledgements, sightings,
  removals and expiries it holds one slot per replica id, a lookup answers as the map does,
  an acknowledgement never moves a slot's offset back, an expiry removes exactly the slots
  that were not seen for the window and reports them, and the table's minimum is the
  smallest acknowledged offset.
\<close>

theorem slots_refine_map:
  "distinct (map sl_id (foldl slot_step [] ops)) \<and>
   slot_get (foldl slot_step [] ops) = foldl slot_spec Map.empty ops \<and>
   min_acked_offset (foldl slot_step [] ops) =
     (if foldl slot_spec Map.empty ops = Map.empty then None
      else Some (Min (sl_acked_offset ` ran (foldl slot_spec Map.empty ops)))) \<and>
   snd (slot_expire t now w) = rev (map sl_id (filter (\<lambda>s. sat_add_u64 (sl_last_seen_ns s) w \<le> now) t))"
  using slots_run [of ops] min_acked_min [of "foldl slot_step [] ops"] expire_dropped [of "length t" t now w "[]"]
  by (simp add: slots_ok_def slot_expire_def)

text \<open>
  A sweep over the connections keeps exactly those that are not closed, and notes the
  closed ones that had told their replica id, last one first, as seen now in the slot table.
\<close>

lemma reap_keeps_open:
  "mset (fst (reap_closed_replicas now conns slots)) = filter_mset (\<lambda>c. \<not> is_closed c) (mset conns) \<and>
   snd (reap_closed_replicas now conns slots) = foldl (note_closed now) slots (rev conns)"
  by (simp add: reap_closed_replicas_def reap_sweep sweep_all reap_notes)

text \<open>
  C17: Trimming to the watermark never fails and never takes a frame from a consumer: whatever
  the feed could answer at the offset of a live connection or at the acknowledged offset of
  a slot, it answers the same after the tick.
\<close>

theorem watermark_keeps_consumers:
  assumes "feed_start g max_bytes base = Some f0" "feed_run f0 ops = Some f"
  shows "\<exists>src. tick_replication_watermark conns slots (fs_source f) = Some src \<and>
    (\<forall>n wrap wrap' limit fs.
       ((\<exists>c \<in> set conns. consumer_offset (cn_state c) = Some n) \<or> (\<exists>s \<in> set slots. sl_acked_offset s = n)) \<and>
       feed_read wrap f (feed_position_new (fs_generation f) n) limit = Ok fs \<longrightarrow>
       feed_read wrap' (f\<lparr>fs_source := src\<rparr>) (feed_position_new (fs_generation f) n) limit = Ok fs)"
proof -
  define l where "l = foldl log_step (log_start base) ops"
  have ok: "feed_ok max_bytes f l" using feed_ok_run [OF feed_ok_start [OF assms(1)] assms(2)] by (simp add: l_def)
  then have b: "backs (fl_base l) (fl_log l) (fs_source f)" by (simp add: feed_ok_def)
  consider "tick_replication_watermark conns slots (fs_source f) = Some (fs_source f)"
    | w where "tick_replication_watermark conns slots (fs_source f) = drop_up_to (fs_source f) w"
      "\<forall>c \<in> set conns. \<forall>n. consumer_offset (cn_state c) = Some n \<longrightarrow> w \<le> n" "\<forall>s \<in> set slots. w \<le> sl_acked_offset s"
    using tick_drops [of conns slots "fs_source f"] by blast
  then show ?thesis
  proof cases
    case 1
    have "feed_read wrap' f at limit = feed_read wrap f at limit" for wrap wrap' at limit
      by (simp add: feed_read_log [OF ok])
    then show ?thesis using 1 by (intro exI [of _ "fs_source f"]) (simp, metis)
  next
    case (2 w)
    obtain src where src: "drop_up_to (fs_source f) w = Some src" using backs_drop [OF b, of w] by blast
    have "w \<le> n" if "(\<exists>c \<in> set conns. consumer_offset (cn_state c) = Some n) \<or> (\<exists>s \<in> set slots. sl_acked_offset s = n)" for n
      using that 2 by auto
    then show ?thesis using 2(1) src trimmed_read [OF ok src] by (intro exI [of _ src]) (simp, blast)
  qed
qed

theorem watermark_keeps_consumers_witness:
  "\<exists>f0 f src. feed_start 7 60 5 = Some f0 \<and> feed_run f0 [Push [[65]], Push [[66]]] = Some f \<and>
     tick_replication_watermark [\<lparr>cn_input = [], cn_output = [], cn_write_off = 0, cn_state = Streaming [97] 6 7\<rparr>] [] (fs_source f) = Some src \<and>
     feed_read 0 (f\<lparr>fs_source := src\<rparr>) (feed_position_new (fs_generation f) 6) 9 = feed_read 0 f (feed_position_new (fs_generation f) 6) 9"
proof -
  define f0 where "f0 = \<lparr>fs_generation = 7, fs_source = \<lparr>rs_next_offset = 5, rs_bytes_in_buf = 0, rs_max_bytes = 60, rs_buf = []\<rparr>\<rparr>"
  have s: "feed_start 7 60 5 = Some f0" by (simp add: feed_start_def source_new_def set_next_offset_def f0_def)
  obtain f where r: "feed_run f0 [Push [[65]], Push [[66]]] = Some f"
    and rd: "isl (feed_read 0 f (feed_position_new (fs_generation f) 6) 9) = False"
    by (simp add: f0_def push_mutation_def Let_def evict.simps pop_front_def checked_u64_def u64_max_def feed_read_def
        frames_from_def oldest_offset_def feed_position_new_def encode_frame_def encode_frame_arg_def push_u64_dec dec_digit)
  show ?thesis
    using watermark_keeps_consumers [OF s r, of "[\<lparr>cn_input = [], cn_output = [], cn_write_off = 0, cn_state = Streaming [97] 6 7\<rparr>]" "[]"] s r rd
    by (cases "feed_read 0 f (feed_position_new (fs_generation f) 6) 9") (simp, fastforce)
qed

end
