(* ===== verification/Repl_Follow.thy ===== *)
theory Repl_Follow
  imports Repl_Replica
begin

text \<open>
  A replica follows the stream: a stream of well-sequenced frames, heartbeats and snapshot
  parts, cut into reads at arbitrary places, gives exactly their events in order.
\<close>

section \<open>Items of the stream\<close>

datatype item = It_frame nat "bytes list" | It_ping feed_position | It_begin | It_chunk bytes | It_end nat

fun encode_item :: "item \<Rightarrow> bytes" where
  "encode_item (It_frame n args) = encode_frame n args"
| "encode_item (It_ping p) = encode_ping p"
| "encode_item It_begin = encode_snapshot_begin"
| "encode_item (It_chunk bs) = encode_snapshot_chunk bs"
| "encode_item (It_end n) = encode_snapshot_end n"

text \<open>What may come next for a replica that expects offset \<open>e\<close>, inside a snapshot or not.\<close>

fun item_ok :: "nat \<Rightarrow> bool \<Rightarrow> item \<Rightarrow> bool" where
  "item_ok e snap (It_frame n args) \<longleftrightarrow> \<not> snap \<and> n = e \<and> sendable args \<and> int n \<le> i64_max"
| "item_ok e snap (It_ping p) \<longleftrightarrow> fp_generation p \<le> u64_max \<and> fp_offset p \<le> u64_max"
| "item_ok e snap It_begin \<longleftrightarrow> True"
| "item_ok e snap (It_chunk bs) \<longleftrightarrow> snap \<and> length bs \<le> snapshot_chunk_max"
| "item_ok e snap (It_end n) \<longleftrightarrow> n \<le> u64_max"

fun item_event :: "item \<Rightarrow> replica_event" where
  "item_event (It_frame n args) = Ev_frame \<lparr>df_offset = n, df_argv = argv_from args\<rparr>"
| "item_event (It_ping p) = Ev_ping p"
| "item_event It_begin = Ev_snapshot_begin"
| "item_event (It_chunk bs) = Ev_snapshot_chunk bs"
| "item_event (It_end n) = Ev_snapshot_end n"

fun after_item :: "nat \<times> bool \<Rightarrow> item \<Rightarrow> nat \<times> bool" where
  "after_item (e, snap) (It_frame n args) = (Suc e, snap)"
| "after_item (e, snap) (It_ping p) = (e, snap)"
| "after_item (e, snap) It_begin = (e, True)"
| "after_item (e, snap) (It_chunk bs) = (e, snap)"
| "after_item (e, snap) (It_end n) = (n, False)"

fun items_ok :: "nat \<times> bool \<Rightarrow> item list \<Rightarrow> bool" where
  "items_ok st [] = True"
| "items_ok st (it # its) \<longleftrightarrow> item_ok (fst st) (snd st) it \<and> items_ok (after_item st it) its"

lemma items_ok_append: "items_ok st (xs @ ys) \<longleftrightarrow> items_ok st xs \<and> items_ok (foldl after_item st xs) ys"
  by (induction xs arbitrary: st) auto

section \<open>Lines\<close>

lemma strip_prefix_append [simp]: "strip_prefix pre (pre @ bs) = Some bs"
  by (simp add: strip_prefix_def)

lemma dec_digits_20: "n \<le> u64_max \<Longrightarrow> length (dec_digits n) \<le> 20"
  using length_dec_digits [of n 20] by (simp add: u64_max_def)

lemma dec_digits_no: "\<not> is_digit b \<Longrightarrow> b \<notin> set (dec_digits n)"
  using dec_digits_mem by blast

text \<open>The bytes between the plus sign and the line end of each marker.\<close>

fun marker_line :: "snapshot_marker \<Rightarrow> bytes" where
  "marker_line Begin = ascii ''SNAPSHOT''"
| "marker_line (End n) = ascii ''SNAPSHOT_END '' @ dec_digits n"
| "marker_line (Ping p) = ascii ''PING '' @ dec_digits (fp_generation p) @ 32 # dec_digits (fp_offset p)"

fun marker_ok :: "snapshot_marker \<Rightarrow> bool" where
  "marker_ok Begin = True"
| "marker_ok (End n) = (n \<le> u64_max)"
| "marker_ok (Ping p) = (fp_generation p \<le> u64_max \<and> fp_offset p \<le> u64_max)"

lemma marker_line_cr: "13 \<notin> set (marker_line m)"
  using dec_digits_no [of 13] by (cases m) (auto simp: ascii_def is_digit_def)

lemma marker_line_short: "marker_ok m \<Longrightarrow> length (marker_line m) \<le> 50"
proof (cases m)
  case (End n)
  then show "marker_ok m \<Longrightarrow> ?thesis" using dec_digits_20 [of n] by simp
next
  case (Ping p)
  then show "marker_ok m \<Longrightarrow> ?thesis" using dec_digits_20 [of "fp_generation p"] dec_digits_20 [of "fp_offset p"] by simp
qed simp

lemma parse_ping_line:
  assumes "fp_generation p \<le> u64_max" "fp_offset p \<le> u64_max"
  shows "parse_ping (dec_digits (fp_generation p) @ 32 # dec_digits (fp_offset p)) = Some p"
proof -
  have "position (\<lambda>b. b = 32) (ds @ 32 # es) = Some (length ds)" if "32 \<notin> set ds" for ds es :: bytes
    using that by (induction ds) auto
  moreover have "32 \<notin> set (dec_digits (fp_generation p))" by (rule dec_digits_no) (simp add: is_digit_def)
  ultimately show ?thesis using assms by (simp add: parse_ping_def feed_position_new_def)
qed

lemma decode_marker_line:
  assumes "marker_ok m"
  shows "decode_snapshot_marker ((43 # marker_line m @ crlf) @ rest) = Ok (Some (m, length (43 # marker_line m @ crlf)))"
proof -
  let ?buf = "(43 # marker_line m @ crlf) @ rest"
  have fc: "find_crlf ?buf 1 = Some (1 + length (marker_line m))"
    using find_crlf_line [OF marker_line_cr, of "[43]" m rest] by simp
  have sl: "slice ?buf 1 (1 + length (marker_line m)) = marker_line m"
    using slice_mid [of "[43]" "marker_line m" "crlf @ rest"] by simp
  have short: "1 + length (marker_line m) \<le> snapshot_line_max"
    using marker_line_short [OF assms] by (simp add: snapshot_line_max_def)
  show ?thesis
  proof (cases m)
    case Begin
    then show ?thesis using fc sl short by (simp add: decode_snapshot_marker_def wire_find_crlf_eq)
  next
    case (End n)
    then have "marker_line m \<noteq> ascii ''SNAPSHOT''" by (simp add: ascii_def)
    then show ?thesis using fc sl short assms End by (simp add: decode_snapshot_marker_def wire_find_crlf_eq Let_def)
  next
    case (Ping p)
    then have "marker_line m \<noteq> ascii ''SNAPSHOT''" "strip_prefix (ascii ''SNAPSHOT_END '') (marker_line m) = None"
      by (simp_all add: ascii_def strip_prefix_def)
    then show ?thesis
      using fc sl short assms Ping parse_ping_line [of p]
      by (simp add: decode_snapshot_marker_def wire_find_crlf_eq Let_def)
  qed
qed

lemma decode_marker_prefix:
  assumes "marker_ok m" "43 # marker_line m @ crlf = bs @ ms" "ms \<noteq> []" "bs \<noteq> []"
  shows "decode_snapshot_marker bs = Err Wire_truncated"
proof -
  have fc: "find_crlf (bs @ ms) 1 = Some (1 + length (marker_line m))"
    using find_crlf_line [OF marker_line_cr, of "[43]" m "[]"] assms(2) by simp
  have l: "length bs + length ms = length (marker_line m) + 3" using arg_cong [OF assms(2), of length] by simp
  then have "length bs < 1 + length (marker_line m) + 2" using assms(3) by (cases ms) auto
  then have "find_crlf bs 1 = None" by (rule find_crlf_prefix_None [OF fc])
  moreover have "bs ! 0 = 43" using assms(2,4) by (cases bs) auto
  moreover have "length bs \<le> snapshot_line_max"
    using l marker_line_short [OF assms(1)] by (simp add: snapshot_line_max_def)
  ultimately show ?thesis using assms(4) by (simp add: decode_snapshot_marker_def wire_find_crlf_eq)
qed

lemma marker_encodings:
  "encode_snapshot_begin = 43 # marker_line Begin @ crlf"
  "encode_snapshot_end n = 43 # marker_line (End n) @ crlf"
  "encode_ping p = 43 # marker_line (Ping p) @ crlf"
  by (simp_all add: encode_snapshot_begin_def encode_snapshot_end_def encode_ping_def push_u64_dec ascii_def)

section \<open>Chunks\<close>

lemma find_crlf_cut: "find_crlf (bs @ ms) i = Some e \<Longrightarrow> e + 2 \<le> length bs \<Longrightarrow> find_crlf bs i = Some e"
  by (auto simp: find_crlf_Some crlf_at_def nth_append)

lemma chunk_encoding: "encode_snapshot_chunk bs = 36 # dec_digits (length bs) @ crlf @ bs @ crlf"
  by (simp add: encode_snapshot_chunk_def push_u64_dec)

lemma chunk_len_line:
  shows "find_crlf (36 # dec_digits n @ 13 # 10 # rest) 1 = Some (1 + length (dec_digits n))"
    "slice (36 # dec_digits n @ 13 # 10 # rest) 1 (1 + length (dec_digits n)) = dec_digits n"
  using find_crlf_line [of "dec_digits n" "[36]" rest] slice_mid [of "[36]" "dec_digits n" "13 # 10 # rest"]
  by (simp_all add: digits_no_cr)

lemma decode_chunk:
  assumes "length bs \<le> snapshot_chunk_max"
  shows "decode_snapshot_chunk (encode_snapshot_chunk bs @ rest) = Ok (bs, length (encode_snapshot_chunk bs))"
proof -
  let ?pre = "36 # dec_digits (length bs) @ crlf"
  let ?buf = "encode_snapshot_chunk bs @ rest"
  have buf: "?buf = 36 # dec_digits (length bs) @ 13 # 10 # bs @ crlf @ rest" by (simp add: chunk_encoding)
  have small: "length bs \<le> u64_max" using assms by (simp add: snapshot_chunk_max_def u64_max_def)
  have s1: "slice ?buf (length ?pre) (length ?pre + length bs) = bs"
    using slice_mid [of ?pre bs "crlf @ rest"] by (simp add: chunk_encoding)
  have s2: "slice ?buf (length ?pre + length bs) (length ?pre + length bs + 2) = crlf"
    using slice_mid [of "?pre @ bs" crlf rest] by (simp add: chunk_encoding)
  show ?thesis
    using chunk_len_line [of "length bs" "bs @ crlf @ rest"] assms small s1 s2 unfolding buf
    by (simp add: decode_snapshot_chunk_def wire_find_crlf_eq Let_def chunk_encoding)
qed

lemma decode_chunk_prefix:
  assumes "length bs \<le> snapshot_chunk_max" "encode_snapshot_chunk bs = xs @ ms" "ms \<noteq> []" "xs \<noteq> []"
  shows "decode_snapshot_chunk xs = Err Wire_truncated"
proof -
  define e where "e = 1 + length (dec_digits (length bs))"
  have fc: "find_crlf (xs @ ms) 1 = Some e"
    using chunk_len_line(1) [of "length bs" "bs @ crlf"] assms(2) by (simp add: chunk_encoding e_def)
  have x0: "xs ! 0 = 36" using assms(2,4) by (cases xs) (auto simp: chunk_encoding)
  have len: "length xs + length ms = e + 2 + length bs + 2"
    using arg_cong [OF assms(2), of length] by (simp add: chunk_encoding e_def)
  show ?thesis
  proof (cases "length xs < e + 2")
    case True
    then have "find_crlf xs 1 = None" by (rule find_crlf_prefix_None [OF fc])
    then show ?thesis using x0 assms(4) by (simp add: decode_snapshot_chunk_def wire_find_crlf_eq)
  next
    case False
    then have "find_crlf xs 1 = Some e"
      using find_crlf_cut [OF fc] by simp
    moreover have "slice xs 1 e = slice (xs @ ms) 1 e" using False by simp
    moreover have "\<dots> = dec_digits (length bs)"
      using chunk_len_line(2) [of "length bs" "bs @ crlf"] assms(2) by (simp add: chunk_encoding e_def)
    moreover have "length xs < e + 2 + length bs + 2" using len assms(3) by (cases ms) auto
    ultimately show ?thesis
      using x0 assms(1,4) by (simp add: decode_snapshot_chunk_def wire_find_crlf_eq Let_def snapshot_chunk_max_def u64_max_def)
  qed
qed

section \<open>One event\<close>

definition client_at :: "replica_client \<Rightarrow> nat \<times> bool \<Rightarrow> bytes \<Rightarrow> bool" where
  "client_at c st u \<longleftrightarrow> rc_cursor c \<le> length (rc_buf c) \<and> rc_expected_offset c = fst st \<and>
     rc_in_snapshot c = snd st \<and> drop (rc_cursor c) (rc_buf c) = u"

lemma advance_fields [simp]:
  "rc_expected_offset (advance c n) = rc_expected_offset c" "rc_in_snapshot (advance c n) = rc_in_snapshot c"
  by (simp_all add: advance_def maybe_compact_buf_def)

lemma advance_at: "client_at c st (xs @ rest) \<Longrightarrow> client_at (advance c (length xs)) st rest"
proof -
  assume a: "client_at c st (xs @ rest)"
  then have "length (rc_buf c) - rc_cursor c = length xs + length rest"
    by (metis client_at_def length_append length_drop)
  moreover have "drop (rc_cursor c) (rc_buf c) = xs @ rest" using a by (simp add: client_at_def)
  then have "drop (length xs) (drop (rc_cursor c) (rc_buf c)) = rest" unfolding \<open>drop (rc_cursor c) (rc_buf c) = xs @ rest\<close> by simp
  then have "drop (rc_cursor c + length xs) (rc_buf c) = rest" by (simp add: add.commute)
  ultimately show ?thesis using a by (auto simp: client_at_def advance_def maybe_compact_buf_def)
qed

lemma head_at: "client_at c st (b # bs) \<Longrightarrow> rc_cursor c < length (rc_buf c) \<and> rc_buf c ! rc_cursor c = b"
proof -
  assume "client_at c st (b # bs)"
  then have d: "drop (rc_cursor c) (rc_buf c) = b # bs" by (simp add: client_at_def)
  then have l: "rc_cursor c < length (rc_buf c)" by (metis drop_all list.distinct(1) not_le)
  then show ?thesis using d hd_drop_conv_nth [OF l] by simp
qed

lemma encode_item_head:
  "\<exists>bs. encode_item it = (case it of It_frame _ _ \<Rightarrow> 42 | It_chunk _ \<Rightarrow> 36 | _ \<Rightarrow> 43) # bs"
  by (cases it) (simp_all add: encode_frame_command frame_head_def marker_encodings chunk_encoding)

lemma marker_event:
  assumes "client_at c st (encode_item it @ rest)" "item_ok (fst st) (snd st) it" "encode_item it = 43 # marker_line m @ crlf" "marker_ok m"
  shows "try_decode_one_event c = try_decode_snapshot_marker c \<and>
    decode_snapshot_marker (drop (rc_cursor c) (rc_buf c)) = Ok (Some (m, length (encode_item it)))"
  using assms head_at [of c st 43] decode_marker_line [OF assms(4), of rest]
  by (auto simp: try_decode_one_event_def client_at_def Let_def)

lemma decode_one:
  assumes c: "client_at c st (encode_item it @ rest)" and ok: "item_ok (fst st) (snd st) it"
  shows "\<exists>c'. try_decode_one_event c = (c', Some (Ok (item_event it))) \<and> client_at c' (after_item st it) rest"
proof -
  obtain e snap where st: "st = (e, snap)" by (cases st)
  note adv = advance_at [OF c]
  have u: "drop (rc_cursor c) (rc_buf c) = encode_item it @ rest" using c by (simp add: client_at_def)
  show ?thesis
  proof (cases it)
    case (It_frame n args)
    then obtain bs where "encode_item it @ rest = 42 # bs" using encode_item_head [of it] by auto
    then have "try_decode_one_event c = try_decode_live_frame c"
      using c ok st It_frame head_at [of c st 42 bs] by (simp add: try_decode_one_event_def client_at_def)
    moreover have "n < u64_max" using ok It_frame by (simp add: int_bounds)
    ultimately show ?thesis
      using decode_encode_frame [of args n rest] ok st It_frame u adv
      by (simp add: try_decode_live_frame_def Let_def client_at_def sat_add_u64_def)
  next
    case (It_ping p)
    then show ?thesis
      using marker_event [OF c ok, of "Ping p"] ok st adv
      by (simp add: try_decode_snapshot_marker_def marker_encodings client_at_def)
  next
    case It_begin
    then show ?thesis
      using marker_event [OF c ok, of Begin] st adv
      by (simp add: try_decode_snapshot_marker_def marker_encodings client_at_def)
  next
    case (It_chunk bs)
    then obtain ds where "encode_item it @ rest = 36 # ds" using encode_item_head [of it] by auto
    then have "try_decode_one_event c = try_decode_snapshot_chunk c"
      using c ok st It_chunk head_at [of c st 36 ds] by (simp add: try_decode_one_event_def client_at_def)
    then show ?thesis
      using decode_chunk [of bs rest] ok st It_chunk u adv by (simp add: try_decode_snapshot_chunk_def client_at_def)
  next
    case (It_end n)
    then show ?thesis
      using marker_event [OF c ok, of "End n"] ok st adv
      by (simp add: try_decode_snapshot_marker_def marker_encodings client_at_def)
  qed
qed

lemma decode_part:
  assumes c: "client_at c st u" and ok: "item_ok (fst st) (snd st) it" and part: "encode_item it = u @ ms" "ms \<noteq> []"
  shows "try_decode_one_event c = (c, None)"
proof (cases u)
  case Nil
  then show ?thesis using c by (auto simp: client_at_def try_decode_one_event_def)
next
  case (Cons b bs)
  obtain ds where "encode_item it = (case it of It_frame _ _ \<Rightarrow> 42 | It_chunk _ \<Rightarrow> 36 | _ \<Rightarrow> 43) # ds"
    using encode_item_head [of it] by blast
  then have b: "b = (case it of It_frame _ _ \<Rightarrow> 42 | It_chunk _ \<Rightarrow> 36 | _ \<Rightarrow> 43)" using part(1) Cons by auto
  note h = head_at [OF c [unfolded Cons]]
  have u: "drop (rc_cursor c) (rc_buf c) = u" "rc_in_snapshot c = snd st" using c by (simp_all add: client_at_def)
  have m: "try_decode_snapshot_marker c = (c, None)" if "encode_item it = 43 # marker_line m @ crlf" "marker_ok m" for m
    using decode_marker_prefix [OF that(2), of u ms] that(1) part Cons u(1) by (simp add: try_decode_snapshot_marker_def)
  show ?thesis
  proof (cases it)
    case (It_frame n args)
    then show ?thesis
      using decode_frame_prefix [of args n u ms] ok part b h u
      by (simp add: try_decode_one_event_def try_decode_live_frame_def)
  next
    case (It_chunk xs)
    then show ?thesis
      using decode_chunk_prefix [of xs u ms] ok part b h u Cons
      by (simp add: try_decode_one_event_def try_decode_snapshot_chunk_def)
  next
    case (It_ping p)
    then show ?thesis using m [of "Ping p"] ok b h by (simp add: try_decode_one_event_def marker_encodings)
  next
    case It_begin
    then show ?thesis using m [of Begin] b h by (simp add: try_decode_one_event_def marker_encodings)
  next
    case (It_end n)
    then show ?thesis using m [of "End n"] ok b h by (simp add: try_decode_one_event_def marker_encodings)
  qed
qed

section \<open>The stream\<close>

lemma append_split_ge: "x @ t = e @ r \<Longrightarrow> length e \<le> length x \<Longrightarrow> \<exists>l. x = e @ l \<and> l @ t = r"
  by (auto simp: append_eq_append_conv2)

lemma append_split_lt: "x @ t = e @ r \<Longrightarrow> length x < length e \<Longrightarrow> \<exists>m. e = x @ m \<and> m \<noteq> []"
  by (auto simp: append_eq_append_conv2)

lemma next_event_item:
  "client_at c st u \<Longrightarrow> item_ok (fst st) (snd st) it \<Longrightarrow> u @ concat chunks = encode_item it @ later \<Longrightarrow>
   \<exists>c' rest u'. next_event c (map Got chunks) = (c', map Got rest, Next (Ok (item_event it))) \<and>
     client_at c' (after_item st it) u' \<and> u' @ concat rest = later"
proof (induction chunks arbitrary: c u)
  case Nil
  then obtain c' where "try_decode_one_event c = (c', Some (Ok (item_event it)))" "client_at c' (after_item st it) later"
    using decode_one [of c st it later] by auto
  then show ?case by (intro exI [of _ c'] exI [of _ "[]"] exI [of _ later]) (simp add: next_event.simps [of c])
next
  case (Cons ch chunks)
  show ?case
  proof (cases "length (encode_item it) \<le> length u")
    case True
    then obtain r where r: "u = encode_item it @ r"
      using append_split_ge [of u "concat (ch # chunks)" "encode_item it" later] Cons.prems(3) by auto
    then obtain c' where "try_decode_one_event c = (c', Some (Ok (item_event it)))" "client_at c' (after_item st it) r"
      using decode_one [of c st it r] Cons.prems by auto
    then show ?thesis
      using Cons.prems(3) r
      by (intro exI [of _ c'] exI [of _ "ch # chunks"] exI [of _ r]) (simp add: next_event.simps [of c])
  next
    case False
    then obtain ms where ms: "encode_item it = u @ ms" "ms \<noteq> []"
      using append_split_lt [of u "concat (ch # chunks)" "encode_item it" later] Cons.prems(3) by auto
    have "try_decode_one_event c = (c, None)" by (rule decode_part [OF Cons.prems(1,2) ms])
    then have "next_event c (map Got (ch # chunks)) = next_event (c\<lparr>rc_buf := rc_buf c @ ch\<rparr>) (map Got chunks)"
      by (simp add: next_event.simps [of c])
    moreover have "client_at (c\<lparr>rc_buf := rc_buf c @ ch\<rparr>) st (u @ ch)" using Cons.prems(1) by (auto simp: client_at_def)
    ultimately show ?thesis using Cons.IH [of _ "u @ ch"] Cons.prems(2,3) by simp
  qed
qed

lemma next_event_idle:
  "client_at c st u \<Longrightarrow> u @ concat chunks = [] \<Longrightarrow> \<exists>c'. next_event c (map Got chunks) = (c', [], Blocked)"
proof (induction chunks arbitrary: c)
  case Nil
  then show ?case by (auto simp: next_event.simps [of c] try_decode_one_event_def client_at_def)
next
  case (Cons ch chunks)
  then have "next_event c (map Got (ch # chunks)) = next_event c (map Got chunks)"
    by (auto simp: next_event.simps [of c] try_decode_one_event_def client_at_def)
  then show ?case using Cons by simp
qed

text \<open>A replica that takes events until the stream has no more for it, or an error ends it.\<close>

fun follow :: "nat \<Rightarrow> replica_client \<Rightarrow> read list \<Rightarrow> event_result list option" where
  "follow 0 c reads = None"
| "follow (Suc fuel) c reads =
     (case next_event c reads of
        (c', rs, Next (Inr e)) \<Rightarrow> map_option ((#) (Ok e)) (follow fuel c' rs)
      | (c', rs, Next (Inl e)) \<Rightarrow> Some [Err e]
      | _ \<Rightarrow> Some [])"

lemma follow_items:
  "client_at c st u \<Longrightarrow> items_ok st items \<Longrightarrow> u @ concat chunks = concat (map encode_item items) \<Longrightarrow>
   follow (Suc (length items)) c (map Got chunks) = Some (map (Ok \<circ> item_event) items)"
proof (induction items arbitrary: c st u chunks)
  case Nil
  then show ?case using next_event_idle [of c st u chunks] by auto
next
  case (Cons it items)
  have ok: "item_ok (fst st) (snd st) it" "items_ok (after_item st it) items" using Cons.prems(2) by auto
  obtain c' rest u' where n: "next_event c (map Got chunks) = (c', map Got rest, Next (Ok (item_event it)))"
    "client_at c' (after_item st it) u'" "u' @ concat rest = concat (map encode_item items)"
    using next_event_item [OF Cons.prems(1) ok(1), of chunks "concat (map encode_item items)"] Cons.prems(3) by auto
  from Cons.IH [OF n(2) ok(2) n(3)] n(1) show ?case by simp
qed

lemma client_new_at: "client_at (client_new e) (e, False) []"
  by (simp add: client_at_def client_new_def)

text \<open>A stream that ends inside an item gives the events of the items before it.\<close>

lemma next_event_part:
  "client_at c st u \<Longrightarrow> item_ok (fst st) (snd st) it \<Longrightarrow> encode_item it = (u @ concat chunks) @ ms \<Longrightarrow> ms \<noteq> [] \<Longrightarrow>
   \<exists>c'. next_event c (map Got chunks) = (c', [], Blocked)"
proof (induction chunks arbitrary: c u)
  case Nil
  then show ?case using decode_part [of c st u it ms] by (simp add: next_event.simps [of c])
next
  case (Cons ch chunks)
  have "try_decode_one_event c = (c, None)"
    by (rule decode_part [OF Cons.prems(1,2), of "ch @ concat chunks @ ms"]) (use Cons.prems in auto)
  then have "next_event c (map Got (ch # chunks)) = next_event (c\<lparr>rc_buf := rc_buf c @ ch\<rparr>) (map Got chunks)"
    by (simp add: next_event.simps [of c])
  moreover have "client_at (c\<lparr>rc_buf := rc_buf c @ ch\<rparr>) st (u @ ch)" using Cons.prems(1) by (auto simp: client_at_def)
  ultimately show ?case using Cons.IH [of _ "u @ ch"] Cons.prems by simp
qed

lemma follow_prefix:
  "client_at c st u \<Longrightarrow> items_ok st items \<Longrightarrow> (u @ concat chunks) @ tail = concat (map encode_item items) \<Longrightarrow>
   \<exists>k \<le> length items. follow (Suc (length items)) c (map Got chunks) = Some (map (Ok \<circ> item_event) (take k items))"
proof (induction items arbitrary: c st u chunks)
  case Nil
  then show ?case using next_event_idle [of c st u chunks] by auto
next
  case (Cons it items)
  have ok: "item_ok (fst st) (snd st) it" "items_ok (after_item st it) items" using Cons.prems(2) by auto
  show ?case
  proof (cases "length (encode_item it) \<le> length (u @ concat chunks)")
    case True
    then obtain later where l: "u @ concat chunks = encode_item it @ later"
      using append_split_ge [of "u @ concat chunks" tail "encode_item it" "concat (map encode_item items)"] Cons.prems(3)
      by auto
    then obtain c' rest u' where n: "next_event c (map Got chunks) = (c', map Got rest, Next (Ok (item_event it)))"
      "client_at c' (after_item st it) u'" "u' @ concat rest = later"
      using next_event_item [OF Cons.prems(1) ok(1)] by blast
    have "(u' @ concat rest) @ tail = concat (map encode_item items)"
      using Cons.prems(3) unfolding l n(3) by simp
    from Cons.IH [OF n(2) ok(2) this] obtain k where "k \<le> length items"
      "follow (Suc (length items)) c' (map Got rest) = Some (map (Ok \<circ> item_event) (take k items))" by blast
    then show ?thesis using n(1) by (intro exI [of _ "Suc k"]) simp
  next
    case False
    then obtain ms where "encode_item it = (u @ concat chunks) @ ms" "ms \<noteq> []"
      using append_split_lt [of "u @ concat chunks" tail "encode_item it" "concat (map encode_item items)"] Cons.prems(3)
      by auto
    then obtain c' where "next_event c (map Got chunks) = (c', [], Blocked)"
      using next_event_part [OF Cons.prems(1) ok(1)] by blast
    then show ?thesis by (intro exI [of _ 0]) simp
  qed
qed

end
