(* ===== verification/Repl_Link.thy ===== *)
theory Repl_Link
  imports Repl_Log Repl_Follow Repl_Pump
begin

text \<open>
  A primary and a replica joined by a link: the pump of \<open>kevy-rt\<close> writes a well-sequenced
  stream whatever is pushed, trimmed, flushed and acknowledged meanwhile, the replica decodes
  it without an error, and a link whose frames fit the pump's budget catches up.
\<close>

section \<open>What the pump appends\<close>

definition log_items :: "nat \<Rightarrow> bytes list list \<Rightarrow> nat \<Rightarrow> nat \<Rightarrow> item list" where
  "log_items base log k j = map (\<lambda>i. It_frame (base + i) (log ! i)) [k..<k + j]"

lemma log_items_bytes:
  "k + j \<le> length log \<Longrightarrow> concat (map encode_item (log_items base log k j)) = concat (map fr_bytes (take j (map (log_frame base log) [k..<length log])))"
  by (simp add: log_items_def take_map comp_def log_frame_def)

lemma log_items_ok:
  "k + j \<le> length log \<Longrightarrow> list_all sendable log \<Longrightarrow> int (base + length log) \<le> i64_max + 1 \<Longrightarrow>
   items_ok (base + k, False) (log_items base log k j) \<and> foldl after_item (base + k, False) (log_items base log k j) = (base + k + j, False)"
proof (induction j arbitrary: k)
  case (Suc j)
  have "log_items base log k (Suc j) = It_frame (base + k) (log ! k) # log_items base log (Suc k) j"
    by (simp add: log_items_def upt_conv_Cons del: upt_Suc)
  moreover have "sendable (log ! k)" using Suc.prems by (simp add: list_all_length)
  ultimately show ?case using Suc.IH [of "Suc k"] Suc.prems by simp
qed (simp add: log_items_def)

lemma pump_frames_prefix:
  "\<exists>j \<le> length fs. pump_frames pending fs b added sent =
     (added @ concat (map fr_bytes (take j fs)), if j = 0 then sent else fr_offset (fs ! (j - 1)) + 1)"
proof (induction fs arbitrary: b added sent)
  case (Cons f fs)
  show ?case
  proof (cases "b + length (fr_bytes f) > pump_byte_budget \<or> pending + b + length (fr_bytes f) > streaming_output_cap")
    case True
    then show ?thesis by (intro exI [of _ 0]) auto
  next
    case False
    obtain j where "j \<le> length fs" "pump_frames pending fs (b + length (fr_bytes f)) (added @ fr_bytes f) (fr_offset f + 1) =
      ((added @ fr_bytes f) @ concat (map fr_bytes (take j fs)), if j = 0 then fr_offset f + 1 else fr_offset (fs ! (j - 1)) + 1)"
      using Cons.IH by blast
    then show ?thesis using False by (intro exI [of _ "Suc j"]) (cases j; auto)
  qed
qed simp

lemma pump_log:
  assumes "base \<le> sent" "sent \<le> base + length log"
  shows "\<exists>j. sent - base + j \<le> length log \<and>
    pump_frames pending (log_from base log sent) 0 [] sent =
      (concat (map encode_item (log_items base log (sent - base) j)), sent + j)"
proof -
  define k where "k = sent - base"
  have k: "sent = base + k" "k \<le> length log" using assms by (auto simp: k_def)
  have fs: "log_from base log sent = map (log_frame base log) [k..<length log]" by (simp add: log_from_def k_def)
  obtain j where j: "j \<le> length log - k" "pump_frames pending (log_from base log sent) 0 [] sent =
     (concat (map fr_bytes (take j (log_from base log sent))), if j = 0 then sent else fr_offset (log_from base log sent ! (j - 1)) + 1)"
    using pump_frames_prefix [of "log_from base log sent" pending 0 "[]" sent] by (auto simp: fs)
  moreover have "(if j = 0 then sent else fr_offset (log_from base log sent ! (j - 1)) + 1) = sent + j"
    unfolding fs using j(1) k by (cases j) (auto simp: log_frame_def)
  ultimately have "pump_frames pending (log_from base log sent) 0 [] sent =
      (concat (map encode_item (log_items base log k j)), sent + j)"
    using log_items_bytes [of k j log base] k(2) unfolding fs by simp
  then show ?thesis using j(1) k(2) unfolding k_def [symmetric] by (intro exI [of _ j]) simp
qed

lemma log_items_nil: "concat (map encode_item (log_items base log k j)) = [] \<longleftrightarrow> j = 0"
  by (cases j) (auto simp: log_items_def upt_conv_Cons encode_frame_command frame_head_def)

section \<open>Links\<close>

text \<open>
  The bytes delivered to the replica, the log of the current generation with its first
  offset, everything ever pushed, and the items appended to the output, each with the
  generation it belongs to, are recorded beside the code's own state.
\<close>

record link =
  lk_feed :: feed_source
  lk_conn :: replica_conn
  lk_delivered :: bytes
  lk_base :: nat
  lk_log :: "bytes list list"
  lk_pushed :: "(nat \<times> nat \<times> bytes list) set"
  lk_items :: "(nat \<times> item) list"

text \<open>Frames are of the generation the replica holds; only a snapshot changes that.\<close>

fun fenced :: "nat \<Rightarrow> (nat \<times> item) list \<Rightarrow> nat option" where
  "fenced g [] = Some g"
| "fenced g ((h, It_frame n args) # its) = (if h = g then fenced g its else None)"
| "fenced g ((h, It_end n) # its) = fenced h its"
| "fenced g (_ # its) = fenced g its"

lemma fenced_append: "fenced g (xs @ ys) = (case fenced g xs of None \<Rightarrow> None | Some h \<Rightarrow> fenced h ys)"
  by (induction g xs rule: fenced.induct) auto

text \<open>The items by which a turn of the pump has extended the output.\<close>

definition pump_items :: "bool \<Rightarrow> feed_source \<Rightarrow> nat \<Rightarrow> bytes list list \<Rightarrow> replica_conn \<Rightarrow> replica_conn \<Rightarrow> (nat \<times> item) list" where
  "pump_items due f base log c c' =
     (let g = fs_generation f;
          ping = (if due then [(g, It_ping (feed_tail f))] else []) in
      case (cn_state c, cn_state c') of
        (Streaming _ sent _, Streaming _ sent' _) \<Rightarrow> map (Pair g) (log_items base log (sent - base) (sent' - sent)) @ ping
      | (Streaming _ _ _, Snapshot_shipping _ _ _ _ _ _) \<Rightarrow> [(g, It_begin)] @ ping
      | (Snapshot_shipping _ _ _ _ _ _, Streaming _ ack h) \<Rightarrow> [(h, It_end ack)]
      | (Snapshot_shipping _ _ _ _ _ n, Snapshot_shipping _ _ _ _ buf n') \<Rightarrow>
          if n' = n then [] else [(g, It_chunk (slice buf n n'))]
      | _ \<Rightarrow> [])"

inductive link_step :: "link \<Rightarrow> link \<Rightarrow> bool" where
  push: "push_mutation (fs_source (lk_feed L)) args = Some (src, n) \<Longrightarrow> sendable args \<Longrightarrow>
    int (rs_next_offset (fs_source (lk_feed L))) \<le> i64_max \<Longrightarrow>
    link_step L (L\<lparr>lk_feed := (lk_feed L)\<lparr>fs_source := src\<rparr>, lk_log := lk_log L @ [args],
      lk_pushed := insert (fs_generation (lk_feed L), n, args) (lk_pushed L)\<rparr>)"
| trim: "drop_up_to (fs_source (lk_feed L)) w = Some src \<Longrightarrow>
    link_step L (L\<lparr>lk_feed := (lk_feed L)\<lparr>fs_source := src\<rparr>\<rparr>)"
| bump: "bump_generation draws (lk_feed L) = Some f \<Longrightarrow> link_step L (L\<lparr>lk_feed := f, lk_base := 0, lk_log := []\<rparr>)"
| pump: "c = pump_replication wrap due r (lk_feed L) (lk_conn L) \<Longrightarrow>
    link_step L (L\<lparr>lk_conn := c,
      lk_items := lk_items L @ pump_items due (lk_feed L) (lk_base L) (lk_log L) (lk_conn L) c\<rparr>)"
| flush: "0 < n \<Longrightarrow> n \<le> pending_out (lk_conn L) \<Longrightarrow> replica_writable [Wrote n, Would_block] (lk_conn L) = Some (c, True) \<Longrightarrow>
    link_step L (L\<lparr>lk_conn := c,
      lk_delivered := lk_delivered L @ take n (drop (cn_write_off (lk_conn L)) (cn_output (lk_conn L)))\<rparr>)"
| acks: "replica_consume (fs_generation (lk_feed L)) slots now (lk_conn L) bs = (c, slots', go) \<Longrightarrow>
    link_step L (L\<lparr>lk_conn := c\<rparr>)"
| closing: "link_step L (L\<lparr>lk_conn := close_conn (lk_conn L)\<rparr>)"

text \<open>A link that has just become live: the replica \<open>rid\<close> asked for offset \<open>e\<close> and claimed
  generation \<open>g\<close>.\<close>

definition link_start :: "bytes \<Rightarrow> nat \<Rightarrow> nat \<Rightarrow> link \<Rightarrow> bool" where
  "link_start rid e g L \<longleftrightarrow>
     backs (lk_base L) (lk_log L) (fs_source (lk_feed L)) \<and> list_all sendable (lk_log L) \<and>
     int (lk_base L + length (lk_log L)) \<le> i64_max + 1 \<and> fs_generation (lk_feed L) \<le> u64_max \<and>
     0 < rs_max_bytes (fs_source (lk_feed L)) \<and>
     (\<forall>i < length (lk_log L). (fs_generation (lk_feed L), lk_base L + i, lk_log L ! i) \<in> lk_pushed L) \<and>
     cn_output (lk_conn L) = [] \<and> cn_write_off (lk_conn L) = 0 \<and> cn_state (lk_conn L) = Streaming rid e g \<and>
     lk_delivered L = [] \<and> lk_items L = []"

inductive link_reachable :: "link \<Rightarrow> link \<Rightarrow> bool" for L0 where
  reach_start: "link_reachable L0 L0"
| reach_step: "link_reachable L0 L \<Longrightarrow> link_step L L' \<Longrightarrow> link_reachable L0 L'"

section \<open>The invariant\<close>

definition feed_inv :: "link \<Rightarrow> bool" where
  "feed_inv L \<longleftrightarrow>
     backs (lk_base L) (lk_log L) (fs_source (lk_feed L)) \<and> list_all sendable (lk_log L) \<and>
     int (lk_base L + length (lk_log L)) \<le> i64_max + 1 \<and> fs_generation (lk_feed L) \<le> u64_max \<and>
     0 < rs_max_bytes (fs_source (lk_feed L)) \<and>
     (\<forall>i < length (lk_log L). (fs_generation (lk_feed L), lk_base L + i, lk_log L ! i) \<in> lk_pushed L)"

fun state_inv :: "nat \<Rightarrow> nat \<Rightarrow> (nat \<times> item) list \<Rightarrow> replica_state \<Rightarrow> bool" where
  "state_inv e g its (Streaming _ sent h) \<longleftrightarrow>
     foldl after_item (e, False) (map snd its) = (sent, False) \<and> fenced g its = Some h"
| "state_inv e g its (Snapshot_shipping _ ack _ _ _ _) \<longleftrightarrow>
     snd (foldl after_item (e, False) (map snd its)) \<and> ack \<le> u64_max \<and> fenced g its \<noteq> None"
| "state_inv e g its (Closed _) \<longleftrightarrow> fenced g its \<noteq> None"
| "state_inv e g its _ \<longleftrightarrow> False"

definition wire_inv :: "nat \<Rightarrow> nat \<Rightarrow> link \<Rightarrow> bool" where
  "wire_inv e g L \<longleftrightarrow>
     cn_write_off (lk_conn L) \<le> length (cn_output (lk_conn L)) \<and>
     lk_delivered L @ drop (cn_write_off (lk_conn L)) (cn_output (lk_conn L)) = concat (map (encode_item \<circ> snd) (lk_items L)) \<and>
     items_ok (e, False) (map snd (lk_items L)) \<and> state_inv e g (lk_items L) (cn_state (lk_conn L)) \<and>
     (\<forall>h n args. (h, It_frame n args) \<in> set (lk_items L) \<longrightarrow> (h, n, args) \<in> lk_pushed L)"

lemma link_start_inv: "link_start rid e g L \<Longrightarrow> feed_inv L \<and> wire_inv e g L"
  by (simp add: link_start_def feed_inv_def wire_inv_def)

lemma feed_inv_push:
  assumes "feed_inv L" "push_mutation (fs_source (lk_feed L)) args = Some (src, n)" "sendable args"
    "int (rs_next_offset (fs_source (lk_feed L))) \<le> i64_max"
  shows "feed_inv (L\<lparr>lk_feed := (lk_feed L)\<lparr>fs_source := src\<rparr>, lk_log := lk_log L @ [args],
      lk_pushed := insert (fs_generation (lk_feed L), n, args) (lk_pushed L)\<rparr>)"
proof -
  have b: "backs (lk_base L) (lk_log L) (fs_source (lk_feed L))" using assms(1) by (simp add: feed_inv_def)
  have next_offset: "rs_next_offset (fs_source (lk_feed L)) = lk_base L + length (lk_log L)" using b by (simp add: backs_def)
  then have "lk_base L + length (lk_log L) < u64_max" using assms(4) by (simp add: int_bounds)
  from backs_push [OF b this, of args] assms(2) have
    p: "n = lk_base L + length (lk_log L)" "backs (lk_base L) (lk_log L @ [args]) src"
      "rs_max_bytes src = rs_max_bytes (fs_source (lk_feed L))" by auto
  then show ?thesis
    using assms next_offset by (auto simp: feed_inv_def nth_append less_Suc_eq)
qed

lemma feed_inv_trim:
  assumes "feed_inv L" "drop_up_to (fs_source (lk_feed L)) w = Some src"
  shows "feed_inv (L\<lparr>lk_feed := (lk_feed L)\<lparr>fs_source := src\<rparr>\<rparr>)"
  using assms backs_drop [of "lk_base L" "lk_log L" "fs_source (lk_feed L)" w] by (auto simp: feed_inv_def)

lemma fresh_generation_range:
  "fresh_generation draws old = Some g \<Longrightarrow> 0 < g \<and> g < 2 ^ 53 \<and> g \<noteq> old"
  by (induction draws) (auto simp: Let_def split: if_splits)

lemma feed_inv_bump:
  assumes "feed_inv L" "bump_generation draws (lk_feed L) = Some f"
  shows "feed_inv (L\<lparr>lk_feed := f, lk_base := 0, lk_log := []\<rparr>)"
proof -
  obtain g s where g: "fresh_generation draws (fs_generation (lk_feed L)) = Some g"
    "source_new (rs_max_bytes (fs_source (lk_feed L))) = Some s" "f = \<lparr>fs_generation = g, fs_source = s\<rparr>"
    using assms(2) by (auto simp: bump_generation_def split: option.splits)
  have "g \<le> u64_max" using fresh_generation_range [OF g(1)] by (simp add: u64_max_def)
  then show ?thesis using g(2,3) by (auto simp: feed_inv_def backs_def source_new_def int_bounds split: if_splits)
qed

subsection \<open>A turn of the pump\<close>

definition extends :: "nat \<Rightarrow> nat \<Rightarrow> (nat \<times> nat \<times> bytes list) set \<Rightarrow> (nat \<times> item) list \<Rightarrow> replica_conn \<Rightarrow> replica_conn \<Rightarrow> (nat \<times> item) list \<Rightarrow> bool" where
  "extends e g pushed old c c' its \<longleftrightarrow>
     cn_output c' = cn_output c @ concat (map (encode_item \<circ> snd) its) \<and> cn_write_off c' = cn_write_off c \<and>
     items_ok (foldl after_item (e, False) (map snd old)) (map snd its) \<and>
     state_inv e g (old @ its) (cn_state c') \<and>
     (\<forall>h n args. (h, It_frame n args) \<in> set its \<longrightarrow> (h, n, args) \<in> pushed)"

lemma wire_inv_extend:
  assumes "wire_inv e g L" "extends e g (lk_pushed L) (lk_items L) (lk_conn L) c its"
  shows "wire_inv e g (L\<lparr>lk_conn := c, lk_items := lk_items L @ its\<rparr>)"
  using assms by (auto simp: wire_inv_def extends_def items_ok_append simp del: map_map)

lemma ship_extends:
  assumes "state_inv e g old (Streaming rid sent h)" "cn_state c = Streaming rid sent h" "ack \<le> u64_max"
  shows "extends e g pushed old c (start_snapshot_ship c x ack) [(y, It_begin)]"
  using assms by (auto simp: extends_def start_snapshot_ship_def fenced_append)

lemma log_items_fenced: "fenced g (map (Pair g) (log_items base log k j)) = Some g"
proof -
  have "fenced g (map (Pair g) (map (\<lambda>i. It_frame (base + i) (log ! i)) xs)) = Some g" for xs
    by (induction xs) auto
  then show ?thesis by (simp add: log_items_def)
qed

lemma frames_extend:
  assumes f: "feed_inv L" and st: "state_inv e g old (Streaming rid sent h)" "cn_state c = Streaming rid sent h"
    and h: "h = fs_generation (lk_feed L)" and j: "lk_base L \<le> sent" "sent - lk_base L + j \<le> length (lk_log L)"
  defines "its \<equiv> log_items (lk_base L) (lk_log L) (sent - lk_base L) j"
  shows "extends e g (lk_pushed L) old c
    (c\<lparr>cn_output := cn_output c @ concat (map encode_item its), cn_state := Streaming rid (sent + j) h\<rparr>)
    (map (Pair (fs_generation (lk_feed L))) its)"
proof -
  have "items_ok (sent, False) its \<and> foldl after_item (sent, False) its = (sent + j, False)"
    using log_items_ok [OF j(2), of "lk_base L"] f j(1) by (simp add: its_def feed_inv_def)
  moreover have "(fs_generation (lk_feed L), n, args) \<in> lk_pushed L" if "It_frame n args \<in> set its" for n args
    using that f j by (auto simp: its_def log_items_def feed_inv_def)
  ultimately show ?thesis
    using st h log_items_fenced by (auto simp: extends_def fenced_append its_def comp_def)
qed

lemma after_quiet [simp]: "after_item st (It_ping p) = st" "after_item st (It_chunk bs) = st"
  by (cases st; simp)+

lemma extends_ping:
  assumes "extends e g pushed old c c' its" "fp_generation p \<le> u64_max" "fp_offset p \<le> u64_max"
    "\<nexists>rid. cn_state c' = Closed rid" "cn_state c' \<noteq> Handshake_pending"
  shows "extends e g pushed old c (c'\<lparr>cn_output := cn_output c' @ encode_ping p\<rparr>) (its @ [(y, It_ping p)])"
proof -
  have "foldl after_item (foldl after_item (e, False) (map snd old)) (map snd its) = foldl after_item (e, False) (map snd (old @ its))"
    by simp
  then show ?thesis
    using assms by (cases "cn_state c'") (auto simp: extends_def items_ok_append fenced_append split: option.splits prod.splits)
qed

lemma feed_next: "feed_inv L \<Longrightarrow> rs_next_offset (fs_source (lk_feed L)) = lk_base L + length (lk_log L)"
  by (simp add: feed_inv_def backs_def)

lemma feed_next_u64: "feed_inv L \<Longrightarrow> rs_next_offset (fs_source (lk_feed L)) \<le> u64_max"
  using feed_next [of L] by (simp add: feed_inv_def int_bounds)

text \<open>What \<open>fill_streaming_output\<close> does to a streaming connection.\<close>

lemma fill_cases:
  assumes f: "feed_inv L" and st: "cn_state c = Streaming rid sent h"
  defines "n \<equiv> rs_next_offset (fs_source (lk_feed L))" and "G \<equiv> fs_generation (lk_feed L)"
  shows "fill_streaming_output wrap (fs_source (lk_feed L)) c G n = start_snapshot_ship c G n \<or>
    (\<exists>j. fill_streaming_output wrap (fs_source (lk_feed L)) c G n =
       c\<lparr>cn_output := cn_output c @ concat (map encode_item (log_items (lk_base L) (lk_log L) (sent - lk_base L) j)),
         cn_state := Streaming rid (sent + j) h\<rparr> \<and>
       (j = 0 \<or> h = G \<and> lk_base L \<le> sent \<and> sent - lk_base L + j \<le> length (lk_log L)))"
proof -
  have b: "backs (lk_base L) (lk_log L) (fs_source (lk_feed L))" using f by (simp add: feed_inv_def)
  have keep: "c = c\<lparr>cn_output := cn_output c @ concat (map encode_item (log_items (lk_base L) (lk_log L) (sent - lk_base L) 0)),
         cn_state := Streaming rid (sent + 0) h\<rparr>" using st by (simp add: log_items_def)
  consider "h \<noteq> G" | "h = G" "sent = n \<or> pending_out c \<ge> streaming_output_cap div 2"
    | x where "h = G" "sent \<noteq> n" "\<not> pending_out c \<ge> streaming_output_cap div 2" "frames_from wrap (fs_source (lk_feed L)) sent = Err x"
    | cur where "h = G" "sent \<noteq> n" "\<not> pending_out c \<ge> streaming_output_cap div 2" "frames_from wrap (fs_source (lk_feed L)) sent = Ok cur"
    by (cases "frames_from wrap (fs_source (lk_feed L)) sent") auto
  then show ?thesis
  proof cases
    case 1
    then show ?thesis using st by (simp add: fill_streaming_output_def)
  next
    case 2
    then have "fill_streaming_output wrap (fs_source (lk_feed L)) c G n = c" using st by (auto simp: fill_streaming_output_def)
    then show ?thesis using keep by metis
  next
    case 3
    then show ?thesis using st by (simp add: fill_streaming_output_def)
  next
    case 4
    have r: "retained (lk_base L) (lk_log L) (fs_source (lk_feed L)) \<le> sent" "sent \<le> lk_base L + length (lk_log L)"
      using 4(4) frames_from_log [OF b, of wrap sent] by (auto split: if_splits)
    then have base: "lk_base L \<le> sent" using backs_buf(2) [OF b] by simp
    have d: "drop cur (rs_buf (fs_source (lk_feed L))) = log_from (lk_base L) (lk_log L) sent"
      using frames_from_ok [OF b r, of wrap] 4(4) by simp
    obtain j where j: "sent - lk_base L + j \<le> length (lk_log L)"
      "pump_frames (pending_out c) (log_from (lk_base L) (lk_log L) sent) 0 [] sent =
        (concat (map encode_item (log_items (lk_base L) (lk_log L) (sent - lk_base L) j)), sent + j)"
      using pump_log [OF base r(2)] by blast
    show ?thesis
    proof (cases "j = 0")
      case True
      then have "fill_streaming_output wrap (fs_source (lk_feed L)) c G n = c"
        using 4 st d j(2) by (simp add: fill_streaming_output_def log_items_def)
      then show ?thesis using keep by metis
    next
      case False
      then have "fill_streaming_output wrap (fs_source (lk_feed L)) c G n =
          c\<lparr>cn_output := cn_output c @ concat (map encode_item (log_items (lk_base L) (lk_log L) (sent - lk_base L) j)),
            cn_state := Streaming rid (sent + j) h\<rparr>"
        using 4 st d j(2) log_items_nil [of "lk_base L" "lk_log L" "sent - lk_base L" j] by (simp add: fill_streaming_output_def)
      then show ?thesis using 4(1) base j(1) by blast
    qed
  qed
qed

lemma keep_extends: "state_inv e g old (cn_state c) \<Longrightarrow> extends e g pushed old c c []"
  by (simp add: extends_def)

lemma streaming_extends:
  assumes f: "feed_inv L" and st: "cn_state c = Streaming rid sent h" "state_inv e g old (Streaming rid sent h)"
    and c'_def: "c' = pump_replication wrap due r (lk_feed L) c"
  shows "extends e g (lk_pushed L) old c c' (pump_items due (lk_feed L) (lk_base L) (lk_log L) c c')"
proof -
  let ?G = "fs_generation (lk_feed L)" and ?n = "rs_next_offset (fs_source (lk_feed L))"
  define d where "d = fill_streaming_output wrap (fs_source (lk_feed L)) c ?G ?n"
  have c': "c' = maybe_append_heartbeat due d ?G ?n" using st by (simp add: c'_def d_def pump_replication_def Let_def)
  have beat: "extends e g (lk_pushed L) old c c' (its @ (if due then [(?G, It_ping (feed_tail (lk_feed L)))] else []))"
    if "extends e g (lk_pushed L) old c d its" "\<nexists>rid. cn_state d = Closed rid" "cn_state d \<noteq> Handshake_pending" for its
    using extends_ping [OF that(1) _ _ that(2,3), of "feed_tail (lk_feed L)" ?G] that(1) f feed_next_u64 [OF f]
    by (simp add: c' maybe_append_heartbeat_def feed_tail_def feed_position_new_def feed_inv_def)
  have s': "cn_state c' = cn_state d" by (simp add: c' maybe_append_heartbeat_def)
  from fill_cases [OF f st(1), of wrap] consider
      (ship) "fill_streaming_output wrap (fs_source (lk_feed L)) c ?G ?n = start_snapshot_ship c ?G ?n"
    | (frames) j where "fill_streaming_output wrap (fs_source (lk_feed L)) c ?G ?n =
       c\<lparr>cn_output := cn_output c @ concat (map encode_item (log_items (lk_base L) (lk_log L) (sent - lk_base L) j)),
         cn_state := Streaming rid (sent + j) h\<rparr>"
      "j = 0 \<or> h = ?G \<and> lk_base L \<le> sent \<and> sent - lk_base L + j \<le> length (lk_log L)"
    by blast
  then show ?thesis
  proof cases
    case ship
    then have "extends e g (lk_pushed L) old c d [(?G, It_begin)]"
      using ship_extends [OF st(2,1) feed_next_u64 [OF f]] by (simp add: d_def)
    then show ?thesis
      using beat [of "[(?G, It_begin)]"] ship st s'
      by (simp add: d_def start_snapshot_ship_def pump_items_def Let_def)
  next
    case (frames j)
    note fr = frames(1) and j = frames(2)
    have "extends e g (lk_pushed L) old c d (map (Pair ?G) (log_items (lk_base L) (lk_log L) (sent - lk_base L) j))"
    proof (cases "j = 0")
      case True
      then show ?thesis using fr st by (simp add: d_def log_items_def extends_def)
    next
      case False
      with j have j: "h = ?G" "lk_base L \<le> sent" "sent - lk_base L + j \<le> length (lk_log L)" by blast+
      show ?thesis using frames_extend [OF f st(2,1) j] fr by (simp add: d_def)
    qed
    from beat [OF this] show ?thesis
      using fr st s' by (simp add: d_def pump_items_def Let_def)
  qed
qed

lemma slice_take: "slice xs n (n + length (take m (drop n xs))) = take m (drop n xs)"
  by (simp add: slice_def min_def)

lemma emit_extends:
  assumes st: "cn_state c = Snapshot_shipping rid ack h ser buf n" "state_inv e g old (cn_state c)"
    and b: "cn_state b = Snapshot_shipping rid' ack' h' ser' buf' n" "cn_output b = cn_output c" "cn_write_off b = cn_write_off c"
  shows "extends e g pushed old b (emit_snapshot_chunk c) (pump_items due f base log b (emit_snapshot_chunk c))"
proof (cases "drop n buf = []")
  case True
  then show ?thesis
    using assms by (auto simp: emit_snapshot_chunk_def extends_def pump_items_def fenced_append split: option.splits)
      (metis after_item.simps(5) surj_pair)
next
  case False
  define chunk where "chunk = take (min (length (drop n buf)) snapshot_chunk_max) (drop n buf)"
  have ne: "chunk \<noteq> []" "length chunk \<le> snapshot_chunk_max"
    using False by (auto simp: chunk_def snapshot_chunk_max_def)
  have c': "emit_snapshot_chunk c = c\<lparr>cn_output := cn_output c @ encode_snapshot_chunk chunk,
      cn_state := Snapshot_shipping rid ack h ser buf (n + length chunk)\<rparr>"
    using False st(1) by (simp add: emit_snapshot_chunk_def chunk_def Let_def)
  have "slice buf n (n + length chunk) = chunk" unfolding chunk_def by (rule slice_take)
  then have "pump_items due f base log b (emit_snapshot_chunk c) = [(fs_generation f, It_chunk chunk)]"
    using ne(1) b(1) by (simp add: c' pump_items_def)
  then show ?thesis using st b ne by (auto simp: c' extends_def fenced_append)
qed

lemma snapshot_extends:
  assumes st: "cn_state c = Snapshot_shipping rid ack h ser buf n" "state_inv e g old (cn_state c)"
    and c'_def: "c' = pump_replication wrap due r f c"
  shows "extends e g pushed old c c' (pump_items due f base log c c')"
proof -
  have stay: "extends e g pushed old c c (pump_items due f base log c c)"
    using st by (simp add: pump_items_def extends_def)
  have c': "c' = pump_snapshot_chunks r c" using st by (simp add: c'_def pump_replication_def)
  show ?thesis
  proof (cases "pending_out c \<ge> streaming_output_cap div 2")
    case True
    then show ?thesis using stay by (simp add: c' pump_snapshot_chunks_def)
  next
    case False
    show ?thesis
    proof (cases ser)
      case w: True
      show ?thesis
      proof (cases r)
        case (Received bs)
        let ?d = "c\<lparr>cn_state := Snapshot_shipping rid ack h False bs n\<rparr>"
        have "c' = emit_snapshot_chunk ?d" using False w Received st by (simp add: c' pump_snapshot_chunks_def)
        moreover have "state_inv e g old (cn_state ?d)" using st by simp
        ultimately show ?thesis using emit_extends [of ?d rid ack h False bs n e g old c] st by simp
      next
        case Empty
        then show ?thesis using stay False w st by (simp add: c' pump_snapshot_chunks_def)
      next
        case Disconnected
        then show ?thesis
          using False w st by (auto simp: c' pump_snapshot_chunks_def close_conn_def extends_def pump_items_def)
      qed
    next
      case d: False
      then have "c' = emit_snapshot_chunk c" using False st by (simp add: c' pump_snapshot_chunks_def)
      then show ?thesis using emit_extends [OF st st(1)] by simp
    qed
  qed
qed

lemma pump_extends:
  assumes "feed_inv L" "state_inv e g old (cn_state c)" "c' = pump_replication wrap due r (lk_feed L) c"
  shows "extends e g (lk_pushed L) old c c' (pump_items due (lk_feed L) (lk_base L) (lk_log L) c c')"
proof (cases "cn_state c")
  case (Streaming rid sent h)
  then show ?thesis using streaming_extends [OF assms(1) Streaming _ assms(3)] assms(2) by simp
next
  case (Snapshot_shipping rid ack h ser buf n)
  then show ?thesis using snapshot_extends [OF Snapshot_shipping assms(2,3)] by simp
next
  case (Closed rid)
  then show ?thesis using assms by (simp add: pump_replication_def pump_items_def keep_extends)
qed (use assms in simp_all)

subsection \<open>Writes, acknowledgements and closing\<close>

lemma close_keeps:
  "cn_output (close_conn c) = cn_output c" "cn_write_off (close_conn c) = cn_write_off c"
  "state_inv e g its (cn_state c) \<Longrightarrow> state_inv e g its (cn_state (close_conn c))"
  by (cases "cn_state c"; auto simp: close_conn_def)+

lemma flush_keeps:
  assumes "0 < n" "n \<le> pending_out c" "replica_writable [Wrote n, Would_block] c = Some (c', True)"
    "cn_write_off c \<le> length (cn_output c)" "state_inv e g its (cn_state c)"
  shows "take n (drop (cn_write_off c) (cn_output c)) @ drop (cn_write_off c') (cn_output c') = drop (cn_write_off c) (cn_output c) \<and>
    cn_write_off c' \<le> length (cn_output c') \<and> state_inv e g its (cn_state c')"
proof -
  obtain m where m: "n = Suc m" using assms(1) by (cases n) auto
  let ?d = "c\<lparr>cn_write_off := cn_write_off c + n\<rparr>"
  have "\<not> length (cn_output c) \<le> cn_write_off c" using assms(1,2) by (auto simp: pending_out_def)
  then have w: "replica_writable [Would_block] ?d = Some (c', True)"
    using assms(3) m by (simp add: replica_writable.simps [of _ c])
  show ?thesis
  proof (cases "length (cn_output c) \<le> cn_write_off c + n")
    case True
    then have c': "c' = drained ?d" using w by (simp add: replica_writable.simps [of _ ?d])
    have "take n (drop (cn_write_off c) (cn_output c)) = drop (cn_write_off c) (cn_output c)" using True by simp
    then show ?thesis using assms(5) by (cases "cn_state c") (auto simp: c' drained_def)
  next
    case False
    then have "c' = ?d" using w by (simp add: replica_writable.simps [of _ ?d])
    then show ?thesis using False assms(5) by (simp, metis append_take_drop_id drop_drop add.commute)
  qed
qed

lemma acks_keeps:
  assumes "replica_consume G slots now c bs = (c', slots', go)" "state_inv e g its (cn_state c)"
  shows "cn_output c' = cn_output c \<and> cn_write_off c' = cn_write_off c \<and> state_inv e g its (cn_state c')"
  using assms close_keeps(1,2) [of c] close_keeps(3) [of e g its c]
  by (cases "cn_state c") (auto simp: replica_consume_def parse_replica_acks_def Let_def split: if_splits prod.splits option.splits)

lemma link_step_inv:
  assumes "link_step L L'" "feed_inv L" "wire_inv e g L"
  shows "feed_inv L' \<and> wire_inv e g L'"
  using assms(1)
proof cases
  case (push args src n)
  then show ?thesis using feed_inv_push [OF assms(2)] assms(3) by (auto simp: wire_inv_def)
next
  case (trim w src)
  then show ?thesis using feed_inv_trim [OF assms(2)] assms(3) by (simp add: wire_inv_def)
next
  case (bump draws f)
  then show ?thesis using feed_inv_bump [OF assms(2)] assms(3) by (simp add: wire_inv_def)
next
  case (pump c wrap due r)
  have "state_inv e g (lk_items L) (cn_state (lk_conn L))" using assms(3) by (simp add: wire_inv_def)
  from wire_inv_extend [OF assms(3) pump_extends [OF assms(2) this pump(2)]] show ?thesis
    using pump assms(2) by (simp add: feed_inv_def)
next
  case (flush n c)
  then show ?thesis
    using flush_keeps [OF flush(2,3,4), of e g "lk_items L"] assms by (simp add: wire_inv_def feed_inv_def)
next
  case (acks slots now bs c slots' go)
  then show ?thesis
    using acks_keeps [OF acks(2), of e g "lk_items L"] assms by (simp add: wire_inv_def feed_inv_def)
next
  case closing
  then show ?thesis using close_keeps(1,2) [of "lk_conn L"] close_keeps(3) [of e g "lk_items L" "lk_conn L"] assms by (simp add: wire_inv_def feed_inv_def)
qed

lemma link_reachable_inv:
  "link_reachable L0 L \<Longrightarrow> link_start rid e g L0 \<Longrightarrow> feed_inv L \<and> wire_inv e g L"
  by (induction rule: link_reachable.induct) (use link_start_inv link_step_inv in blast)+

end
