(* ===== verification/Repl_Live.thy ===== *)
theory Repl_Live
  imports Repl_Link Repl_Feed
begin

text \<open>
  What a replication link achieves: every event a replica decodes is one the primary wrote
  (safety), a link whose frames fit the pump's budget delivers the whole log, a link that
  lost its place is resynchronised by a snapshot, and a frame larger than the budget stops
  the link.
\<close>

section \<open>Turns of the event loop\<close>

text \<open>The socket takes everything that is pending.\<close>

definition flush_all :: "replica_conn \<Rightarrow> replica_conn" where
  "flush_all c =
     (case replica_writable (if pending_out c = 0 then [] else [Wrote (pending_out c)]) c of
        Some (c', _) \<Rightarrow> c' | None \<Rightarrow> c)"

text \<open>Turns of pump and flush, one for each result of the serializer's channel; the bytes
  written and the connection at the end.\<close>

fun serve :: "nat \<Rightarrow> feed_source \<Rightarrow> recv list \<Rightarrow> replica_conn \<Rightarrow> bytes \<times> replica_conn" where
  "serve wrap f [] c = ([], c)"
| "serve wrap f (r # rs) c =
     (let c1 = pump_replication wrap False r f c;
          (out, c2) = serve wrap f rs (flush_all c1)
      in (drop (cn_write_off c1) (cn_output c1) @ out, c2))"

lemma serve_append:
  "serve wrap f (xs @ ys) c =
     (let (out, c1) = serve wrap f xs c; (out', c2) = serve wrap f ys c1 in (out @ out', c2))"
  by (induction xs arbitrary: c) (auto simp: Let_def split: prod.splits)

lemma flush_all_live:
  assumes "cn_write_off c \<le> length (cn_output c)" "\<nexists>rid n g. cn_state c = Ack_sent rid n g"
  shows "flush_all c = c\<lparr>cn_output := [], cn_write_off := 0\<rparr>"
proof -
  have d: "drained (c\<lparr>cn_write_off := k\<rparr>) = c\<lparr>cn_output := [], cn_write_off := 0\<rparr>" for k
    using assms(2) by (cases "cn_state c") (auto simp: drained_def)
  show ?thesis
  proof (cases "pending_out c")
    case 0
    then show ?thesis using d [of "cn_write_off c"] by (simp add: flush_all_def pending_out_def replica_writable.simps)
  next
    case (Suc n)
    then have "\<not> length (cn_output c) \<le> cn_write_off c" "length (cn_output c) \<le> cn_write_off c + Suc n"
      by (simp_all add: pending_out_def)
    then show ?thesis using d Suc by (simp add: flush_all_def replica_writable.simps)
  qed
qed

definition idle :: "replica_conn \<Rightarrow> bool" where
  "idle c \<longleftrightarrow> cn_output c = [] \<and> cn_write_off c = 0"

lemma serve_turn:
  assumes "idle c" "pump_replication wrap False r f c = c\<lparr>cn_output := out, cn_state := st\<rparr>"
    "\<nexists>rid n g. st = Ack_sent rid n g" "serve wrap f rs (c\<lparr>cn_state := st\<rparr>) = (out', c')"
  shows "serve wrap f (r # rs) c = (out @ out', c')"
proof -
  have "flush_all (c\<lparr>cn_output := out, cn_state := st\<rparr>) = c\<lparr>cn_state := st\<rparr>"
    using assms(1,3) flush_all_live [of "c\<lparr>cn_output := out, cn_state := st\<rparr>"] by (simp add: idle_def)
  then show ?thesis using assms by (simp add: idle_def)
qed

section \<open>Catching up\<close>

lemma pump_frames_first:
  assumes "length (fr_bytes f) \<le> pump_byte_budget" "fr_bytes f \<noteq> []"
  shows "fst (pump_frames 0 (f # fs) 0 [] sent) \<noteq> []"
proof -
  obtain j where j: "pump_frames 0 fs (length (fr_bytes f)) (fr_bytes f) (fr_offset f + 1) =
      (fr_bytes f @ concat (map fr_bytes (take j fs)), if j = 0 then fr_offset f + 1 else fr_offset (fs ! (j - 1)) + 1)"
    using pump_frames_prefix by blast
  then show ?thesis using assms by (simp add: pump_byte_budget_def streaming_output_cap_def)
qed

lemma log_items_append: "log_items base log k (i + j) = log_items base log k i @ log_items base log (k + i) j"
  by (simp add: log_items_def upt_add_eq_append [of k "k + i" j] flip: add.assoc)

lemma pump_log_turn:
  assumes b: "backs base log (fs_source f)" and st: "cn_state c = Streaming rid n (fs_generation f)" "idle c"
    and n: "retained base log (fs_source f) \<le> n" "n < base + length log"
    and fit: "\<forall>i < length log. length (encode_frame (base + i) (log ! i)) \<le> pump_byte_budget"
  shows "\<exists>j. 0 < j \<and> n + j \<le> base + length log \<and> pump_replication wrap False r f c =
    c\<lparr>cn_output := concat (map encode_item (log_items base log (n - base) j)), cn_state := Streaming rid (n + j) (fs_generation f)\<rparr>"
proof -
  have base: "base \<le> n" using backs_buf(2) [OF b] n(1) by simp
  obtain cur where cur: "frames_from wrap (fs_source f) n = Ok cur" "drop cur (rs_buf (fs_source f)) = log_from base log n"
    using frames_from_ok [OF b n(1), of wrap] n(2) by auto
  have next_offset: "rs_next_offset (fs_source f) = base + length log" using b by (simp add: backs_def)
  obtain j where j: "n - base + j \<le> length log" "pump_frames 0 (log_from base log n) 0 [] n =
      (concat (map encode_item (log_items base log (n - base) j)), n + j)"
    using pump_log [OF base, of log 0] n(2) by auto
  let ?out = "concat (map encode_item (log_items base log (n - base) j))"
  let ?f = "log_frame base log (n - base)"
  have lf: "log_from base log n = ?f # log_from base log (Suc n)"
    using n(2) base by (simp add: log_from_def upt_rec [of "n - base"] Suc_diff_le)
  have "fr_bytes ?f \<noteq> []" by (simp add: log_frame_def encode_frame_command frame_head_def)
  moreover have "length (fr_bytes ?f) \<le> pump_byte_budget"
    using fit [rule_format, of "n - base"] n(2) base by (simp add: log_frame_def)
  ultimately have "fst (pump_frames 0 (log_from base log n) 0 [] n) \<noteq> []"
    unfolding lf by (rule pump_frames_first [rotated])
  then have out: "?out \<noteq> []" using j(2) by simp
  then have "0 < j" unfolding log_items_nil by simp
  moreover have "n + j \<le> base + length log" using j(1) base by simp
  moreover have "pending_out c = 0" "cn_output c = []" using st(2) by (simp_all add: idle_def pending_out_def)
  then have "fill_streaming_output wrap (fs_source f) c (fs_generation f) (base + length log) =
      c\<lparr>cn_output := ?out, cn_state := Streaming rid (n + j) (fs_generation f)\<rparr>"
    using out n(2) cur j(2) by (simp add: fill_streaming_output_def st(1) streaming_output_cap_def del: concat_eq_Nil_conv)
  then have "pump_replication wrap False r f c = c\<lparr>cn_output := ?out, cn_state := Streaming rid (n + j) (fs_generation f)\<rparr>"
    using next_offset by (simp add: pump_replication_def st(1) maybe_append_heartbeat_def)
  ultimately show ?thesis by blast
qed

lemma pump_caught_up:
  assumes "cn_state c = Streaming rid (rs_next_offset (fs_source f)) (fs_generation f)"
  shows "pump_replication wrap False r f c = c"
  using assms by (simp add: pump_replication_def fill_streaming_output_def maybe_append_heartbeat_def Let_def)

lemma serve_log:
  assumes b: "backs base log (fs_source f)"
    and fit: "\<forall>i < length log. length (encode_frame (base + i) (log ! i)) \<le> pump_byte_budget"
  shows "cn_state c = Streaming rid n (fs_generation f) \<Longrightarrow> idle c \<Longrightarrow> retained base log (fs_source f) \<le> n \<Longrightarrow>
    n \<le> base + length log \<Longrightarrow> base + length log - n \<le> length rs \<Longrightarrow>
    serve wrap f rs c = (concat (map encode_item (log_items base log (n - base) (base + length log - n))),
      c\<lparr>cn_state := Streaming rid (base + length log) (fs_generation f)\<rparr>)"
proof (induction rs arbitrary: c n)
  case Nil
  then show ?case by (simp add: log_items_def)
next
  case (Cons r rs)
  let ?N = "base + length log"
  show ?case
  proof (cases "n < ?N")
    case True
    obtain j where j: "0 < j" "n + j \<le> ?N" "pump_replication wrap False r f c =
        c\<lparr>cn_output := concat (map encode_item (log_items base log (n - base) j)), cn_state := Streaming rid (n + j) (fs_generation f)\<rparr>"
      using pump_log_turn [OF b Cons.prems(1,2,3) True fit] by blast
    let ?c = "c\<lparr>cn_state := Streaming rid (n + j) (fs_generation f)\<rparr>"
    have "serve wrap f rs ?c = (concat (map encode_item (log_items base log (n + j - base) (?N - (n + j)))),
        ?c\<lparr>cn_state := Streaming rid ?N (fs_generation f)\<rparr>)"
      by (rule Cons.IH) (use Cons.prems j in \<open>auto simp: idle_def\<close>)
    from serve_turn [OF Cons.prems(2) j(3) _ this] show ?thesis
      using j(2) log_items_append [of base log "n - base" j "?N - (n + j)"] backs_buf(2) [OF b] Cons.prems(3) by simp
  next
    case False
    then have n: "n = ?N" using Cons.prems(4) by simp
    have "pump_replication wrap False r f c = c\<lparr>cn_output := [], cn_state := Streaming rid n (fs_generation f)\<rparr>"
      using pump_caught_up [of c rid f wrap r] Cons.prems(1,2) n b by (simp add: backs_def idle_def)
    moreover have "serve wrap f rs (c\<lparr>cn_state := Streaming rid n (fs_generation f)\<rparr>) =
        (concat (map encode_item (log_items base log (n - base) (?N - n))), c\<lparr>cn_state := Streaming rid ?N (fs_generation f)\<rparr>)"
      using Cons.IH [of "c\<lparr>cn_state := Streaming rid n (fs_generation f)\<rparr>" n] Cons.prems n by (simp add: idle_def)
    ultimately show ?thesis using serve_turn [OF Cons.prems(2)] by fastforce
  qed
qed

section \<open>Resynchronising\<close>

text \<open>The chunks a snapshot is cut into.\<close>

function chunks_of :: "bytes \<Rightarrow> bytes list" where
  "chunks_of buf = (if buf = [] then [] else take snapshot_chunk_max buf # chunks_of (drop snapshot_chunk_max buf))"
  by pat_completeness auto
termination
  by (relation "measure length") (auto simp: snapshot_chunk_max_def)

declare chunks_of.simps [simp del]

lemma concat_chunks_of: "concat (chunks_of buf) = buf"
  by (induction buf rule: chunks_of.induct) (subst chunks_of.simps, simp)

lemma chunks_of_short: "list_all (\<lambda>ch. length ch \<le> snapshot_chunk_max) (chunks_of buf)"
  by (induction buf rule: chunks_of.induct) (subst chunks_of.simps, simp)

lemma serve_chunks:
  "cn_state c = Snapshot_shipping rid ack g False buf k \<Longrightarrow> idle c \<Longrightarrow> k \<le> length buf \<Longrightarrow> chs = chunks_of (drop k buf) \<Longrightarrow>
   serve wrap f (replicate (Suc (length chs)) Empty) c =
     (concat (map encode_item (map It_chunk chs @ [It_end ack])), c\<lparr>cn_state := Streaming rid ack g\<rparr>)"
proof (induction chs arbitrary: c k)
  case Nil
  then have "drop k buf = []" by (simp add: chunks_of.simps [of "drop k buf"] split: if_splits)
  then have "pump_replication wrap False Empty f c =
      c\<lparr>cn_output := encode_snapshot_end ack, cn_state := Streaming rid ack g\<rparr>"
    using Nil by (simp add: pump_replication_def pump_snapshot_chunks_def emit_snapshot_chunk_def idle_def pending_out_def
        streaming_output_cap_def)
  then show ?case using serve_turn [OF Nil.prems(2), of wrap Empty f _ _ "[]"] by simp
next
  case (Cons ch chs)
  have ne: "drop k buf \<noteq> []" and ch: "ch = take snapshot_chunk_max (drop k buf)"
    and chs: "chs = chunks_of (drop snapshot_chunk_max (drop k buf))"
    using Cons.prems(4) by (simp_all add: chunks_of.simps [of "drop k buf"] split: if_splits)
  have k: "k + length ch \<le> length buf" "drop (k + length ch) buf = drop snapshot_chunk_max (drop k buf)"
    using Cons.prems(3) by (auto simp: ch min_def add.commute)
  have rest: "chs = chunks_of (drop (k + length ch) buf)" unfolding k(2) by (rule chs)
  let ?st = "Snapshot_shipping rid ack g False buf (k + length ch)"
  have "take (min (length (drop k buf)) snapshot_chunk_max) (drop k buf) = ch" by (simp add: ch min_def)
  then have p: "pump_replication wrap False Empty f c = c\<lparr>cn_output := encode_snapshot_chunk ch, cn_state := ?st\<rparr>"
    using Cons.prems(1,2) ne by (simp add: pump_replication_def pump_snapshot_chunks_def emit_snapshot_chunk_def
        idle_def pending_out_def streaming_output_cap_def Let_def)
  have "serve wrap f (replicate (Suc (length chs)) Empty) (c\<lparr>cn_state := ?st\<rparr>) =
      (concat (map encode_item (map It_chunk chs @ [It_end ack])), (c\<lparr>cn_state := ?st\<rparr>)\<lparr>cn_state := Streaming rid ack g\<rparr>)"
    by (rule Cons.IH) (use Cons.prems(2) k(1) rest in \<open>simp_all add: idle_def\<close>)
  from serve_turn [OF Cons.prems(2) p _ this] show ?case by simp
qed

lemma pump_received:
  assumes "cn_state c = Snapshot_shipping rid ack g True buf0 k" "idle c"
  shows "pump_replication wrap False (Received buf) f c =
    pump_replication wrap False Empty f (c\<lparr>cn_state := Snapshot_shipping rid ack g False buf k\<rparr>)"
  using assms by (simp add: pump_replication_def pump_snapshot_chunks_def idle_def pending_out_def streaming_output_cap_def)

lemma serve_snapshot:
  assumes "cn_state c = Snapshot_shipping rid ack g True [] 0" "idle c"
  shows "serve wrap f (Received buf # replicate (length (chunks_of buf)) Empty) c =
    (concat (map encode_item (map It_chunk (chunks_of buf) @ [It_end ack])), c\<lparr>cn_state := Streaming rid ack g\<rparr>)"
  using serve_chunks [of "c\<lparr>cn_state := Snapshot_shipping rid ack g False buf 0\<rparr>" rid ack g buf 0 "chunks_of buf" wrap f]
    pump_received [OF assms] assms(2) by (simp add: idle_def)

lemma fill_lost:
  assumes "cn_state c = Streaming rid n h" "idle c" "feed_read w f (feed_position_new h n) k = Err x"
    "backs base log (fs_source f)"
  shows "pump_replication wrap False r f c =
    c\<lparr>cn_output := encode_snapshot_begin, cn_state := Snapshot_shipping rid (rs_next_offset (fs_source f)) (fs_generation f) True [] 0\<rparr>"
proof -
  have "h \<noteq> fs_generation f \<or> n \<noteq> rs_next_offset (fs_source f) \<and> (\<exists>e. frames_from wrap (fs_source f) n = Err e)"
    using assms(3) frames_from_log [OF assms(4), of w n] frames_from_log [OF assms(4), of wrap n] assms(4) backs_buf(3) [OF assms(4)]
    by (auto simp: feed_read_def feed_position_new_def backs_def split: if_splits)
  then show ?thesis
    using assms(1,2) by (auto simp: pump_replication_def fill_streaming_output_def maybe_append_heartbeat_def Let_def
        start_snapshot_ship_def idle_def pending_out_def streaming_output_cap_def)
qed

lemma serve_resync:
  assumes "cn_state c = Streaming rid n h" "idle c" "feed_read w f (feed_position_new h n) k = Err x"
    "backs base log (fs_source f)"
  shows "serve wrap f (r # Received buf # replicate (length (chunks_of buf)) Empty) c =
    (concat (map encode_item (It_begin # map It_chunk (chunks_of buf) @ [It_end (rs_next_offset (fs_source f))])),
     c\<lparr>cn_state := Streaming rid (rs_next_offset (fs_source f)) (fs_generation f)\<rparr>)"
proof -
  let ?c = "c\<lparr>cn_state := Snapshot_shipping rid (rs_next_offset (fs_source f)) (fs_generation f) True [] 0\<rparr>"
  have "serve wrap f (Received buf # replicate (length (chunks_of buf)) Empty) ?c =
    (concat (map encode_item (map It_chunk (chunks_of buf) @ [It_end (rs_next_offset (fs_source f))])),
     ?c\<lparr>cn_state := Streaming rid (rs_next_offset (fs_source f)) (fs_generation f)\<rparr>)"
    by (rule serve_snapshot) (use assms(2) in \<open>simp_all add: idle_def\<close>)
  from serve_turn [OF assms(2) fill_lost [OF assms] _ this] show ?thesis by simp
qed

section \<open>Stalling\<close>

lemma pump_frames_big: "length (fr_bytes f) > pump_byte_budget \<Longrightarrow> pump_frames pending (f # fs) 0 [] sent = ([], sent)"
  by simp

lemma pump_stalls:
  assumes b: "backs base log (fs_source f)" and st: "cn_state c = Streaming rid n (fs_generation f)"
    and n: "retained base log (fs_source f) \<le> n" "n < base + length log"
    and big: "length (encode_frame n (log ! (n - base))) > pump_byte_budget"
  shows "pump_replication wrap False r f c = c"
proof -
  have base: "base \<le> n" using backs_buf(2) [OF b] n(1) by simp
  obtain cur where cur: "frames_from wrap (fs_source f) n = Ok cur" "drop cur (rs_buf (fs_source f)) = log_from base log n"
    using frames_from_ok [OF b n(1), of wrap] n(2) by auto
  have "log_from base log n = log_frame base log (n - base) # log_from base log (Suc n)"
    using n(2) base by (simp add: log_from_def upt_rec [of "n - base"] Suc_diff_le)
  then have "pump_frames (pending_out c) (log_from base log n) 0 [] n = ([], n)"
    using big base by (simp add: log_frame_def)
  then show ?thesis
    using st cur by (simp add: pump_replication_def fill_streaming_output_def maybe_append_heartbeat_def Let_def)
qed

lemma serve_stalls:
  assumes "backs base log (fs_source f)" "cn_state c = Streaming rid n (fs_generation f)" "idle c"
    "retained base log (fs_source f) \<le> n" "n < base + length log"
    "length (encode_frame n (log ! (n - base))) > pump_byte_budget"
  shows "serve wrap f rs c = ([], c)"
proof (induction rs)
  case (Cons r rs)
  have "pump_replication wrap False r f c = c\<lparr>cn_output := [], cn_state := cn_state c\<rparr>"
    using pump_stalls [OF assms(1,2,4,5,6)] assms(3) by (simp add: idle_def)
  moreover have "\<nexists>rid n g. cn_state c = Ack_sent rid n g" using assms(2) by simp
  ultimately show ?case using serve_turn [OF assms(3), where out = "[]" and st = "cn_state c" and out' = "[]" and c' = c] Cons by (simp del: serve.simps)
qed simp

section \<open>Properties\<close>

text \<open>
  C4: Safety of a replication link. A replica that asked for offset \<open>e\<close> and claimed generation
  \<open>g\<close> reads any part of what the primary has sent it, in any pieces, while the primary pushes,
  trims, starts new generations, pumps, flushes, takes acknowledgements and closes in any
  order. The replica decodes it without an error. Its events are consecutive from \<open>e\<close>, a
  snapshot apart; every frame is a mutation that was pushed under that offset; and it is of
  the generation the replica holds, \<open>g\<close> until a snapshot gives it another.
\<close>

theorem replica_follows_primary:
  assumes "link_reachable L0 L" "link_start rid e g L0" "concat chunks @ unread = lk_delivered L"
  shows "\<exists>items fuel. follow fuel (client_new e) (map Got chunks) = Some (map (Ok \<circ> item_event \<circ> snd) items) \<and>
    items_ok (e, False) (map snd items) \<and> fenced g items \<noteq> None \<and>
    (\<forall>h n args. (h, It_frame n args) \<in> set items \<longrightarrow> (h, n, args) \<in> lk_pushed L)"
proof -
  have w: "wire_inv e g L" using link_reachable_inv [OF assms(1,2)] by simp
  let ?its = "lk_items L" and ?rest = "unread @ drop (cn_write_off (lk_conn L)) (cn_output (lk_conn L))"
  have ok: "items_ok (e, False) (map snd ?its)" and g: "fenced g ?its \<noteq> None"
    using w by (cases "cn_state (lk_conn L)"; auto simp: wire_inv_def)+
  have "([] @ concat chunks) @ ?rest = concat (map encode_item (map snd ?its))"
    using w unfolding wire_inv_def assms(3) [symmetric] by simp
  from follow_prefix [OF client_new_at ok this] obtain k where
    k: "follow (Suc (length ?its)) (client_new e) (map Got chunks) = Some (map (Ok \<circ> item_event) (take k (map snd ?its)))"
    by auto
  have split: "take k ?its @ drop k ?its = ?its" by simp
  have "items_ok (e, False) (map snd (take k ?its))" "fenced g (take k ?its) \<noteq> None"
    using ok g items_ok_append [of "(e, False)" "map snd (take k ?its)" "map snd (drop k ?its)"]
      fenced_append [of g "take k ?its" "drop k ?its"]
    by (auto simp flip: map_append split: option.splits)
  moreover have "\<forall>h n args. (h, It_frame n args) \<in> set (take k ?its) \<longrightarrow> (h, n, args) \<in> lk_pushed L"
    using w set_take_subset [of k ?its] unfolding wire_inv_def by blast
  ultimately show ?thesis using k
    by (intro exI [of _ "take k ?its"] exI [of _ "Suc (length ?its)"]) (simp add: take_map comp_assoc del: follow.simps)
qed

theorem replica_follows_primary_witness:
  "\<exists>L0 L (items :: (nat \<times> item) list) fuel. link_reachable L0 L \<and> link_start [97] 0 7 L0 \<and> lk_delivered L = encode_frame 0 [[65]] \<and>
     follow fuel (client_new 0) (map Got [encode_frame 0 [[65]]]) = Some (map (Ok \<circ> item_event \<circ> snd) items)"
proof -
  define fb where "fb = encode_frame 0 [[65]]"
  have len: "length fb = 19" by (simp add: fb_def encode_frame_def encode_frame_arg_def push_u64_dec dec_digit)
  define f where "f = \<lparr>fs_generation = 7, fs_source = \<lparr>rs_next_offset = 1, rs_bytes_in_buf = 19, rs_max_bytes = 60,
    rs_buf = [\<lparr>fr_offset = 0, fr_bytes = fb\<rparr>]\<rparr>\<rparr>"
  define c where "c = \<lparr>cn_input = [], cn_output = [], cn_write_off = 0, cn_state = Streaming [97] 0 7\<rparr>"
  define L0 where "L0 = \<lparr>lk_feed = f, lk_conn = c, lk_delivered = [], lk_base = 0, lk_log = [[[65]]],
    lk_pushed = {(7, 0, [[65]])}, lk_items = []\<rparr>"
  have start: "link_start [97] 0 7 L0"
    by (auto simp: link_start_def L0_def f_def c_def backs_def log_frame_def fb_def [symmetric] len sendable_def int_bounds
        max_multibulk_len_def max_bulk_len_def)
  define c1 where "c1 = c\<lparr>cn_output := fb, cn_state := Streaming [97] 1 7\<rparr>"
  have pump: "pump_replication 0 False Empty f c = c1"
    using len by (auto simp: pump_replication_def Let_def fill_streaming_output_def maybe_append_heartbeat_def f_def c_def c1_def
        pending_out_def streaming_output_cap_def pump_byte_budget_def frames_from_def oldest_offset_def)
  define c2 where "c2 = c1\<lparr>cn_output := []\<rparr>"
  have "fb \<noteq> []" using len by auto
  then have wr: "replica_writable [Wrote 19, Would_block] c1 = Some (c2, True)"
    using len by (simp add: replica_writable.simps c1_def c2_def c_def drained_def)
  have n: "19 \<le> pending_out c1" using len by (simp add: c1_def c_def pending_out_def)
  define L1 where "L1 = L0\<lparr>lk_conn := c1, lk_items := lk_items L0 @ pump_items False (lk_feed L0) (lk_base L0) (lk_log L0) (lk_conn L0) c1\<rparr>"
  have "link_step L0 L1" unfolding L1_def by (rule link_step.pump [of _ 0 False Empty]) (simp add: L0_def pump)
  moreover have "link_step L1 (L1\<lparr>lk_conn := c2, lk_delivered := lk_delivered L1 @ take 19 (drop (cn_write_off (lk_conn L1)) (cn_output (lk_conn L1)))\<rparr>)"
    by (rule link_step.flush) (use n wr in \<open>simp_all add: L1_def\<close>)
  moreover have "lk_delivered L1 @ take 19 (drop (cn_write_off (lk_conn L1)) (cn_output (lk_conn L1))) = fb"
    using len by (simp add: L1_def L0_def c1_def c_def)
  ultimately have reach: "link_reachable L0 (L1\<lparr>lk_conn := c2, lk_delivered := fb\<rparr>)"
    by (metis link_reachable.reach_start link_reachable.reach_step)
  from replica_follows_primary [OF reach start, of "[fb]" "[]"] obtain items :: "(nat \<times> item) list" and fuel where
    "follow fuel (client_new 0) (map Got [fb]) = Some (map (Ok \<circ> item_event \<circ> snd) items)" by auto
  then show ?thesis
    unfolding fb_def [symmetric]
    by (intro exI [of _ L0] exI [of _ "L1\<lparr>lk_conn := c2, lk_delivered := fb\<rparr>"] exI [of _ items] exI [of _ fuel] conjI reach start) simp_all
qed

text \<open>
  C8: Liveness of a link. A replica whose position the feed can still serve is sent the rest of
  the log in as many turns of pump and flush as frames are missing, provided that each frame
  fits the pump's byte budget: the link is then at the end of the log, and the replica has
  decoded exactly the missing mutations, in order, however the bytes were cut.
\<close>

theorem link_catches_up:
  assumes "feed_start g max_bytes base = Some f0" "feed_run f0 ops = Some f" "l = foldl log_step (log_start base) ops"
    and "list_all sendable (fl_log l)" "int (log_next l) \<le> i64_max + 1"
    and "\<forall>i < length (fl_log l). length (encode_frame (fl_base l + i) (fl_log l ! i)) \<le> pump_byte_budget"
    and "cn_state c = Streaming rid n (fs_generation f)" "idle c"
    and "feed_read 0 f (feed_position_new (fs_generation f) n) 0 = Ok []"
    and "log_next l - n \<le> length turns" "concat chunks = fst (serve wrap f turns c)"
  shows "cn_state (snd (serve wrap f turns c)) = Streaming rid (log_next l) (fs_generation f) \<and>
    follow (Suc (log_next l - n)) (client_new n) (map Got chunks) =
      Some (map (\<lambda>i. Ok (Ev_frame \<lparr>df_offset = fl_base l + i, df_argv = argv_from (fl_log l ! i)\<rparr>)) [n - fl_base l..<length (fl_log l)])"
proof -
  have ok: "feed_ok max_bytes f l"
    using feed_ok_run [OF feed_ok_start [OF assms(1)] assms(2)] assms(3) by simp
  then have b: "backs (fl_base l) (fl_log l) (fs_source f)" by (simp add: feed_ok_def)
  have n: "retained (fl_base l) (fl_log l) (fs_source f) \<le> n" "n \<le> fl_base l + length (fl_log l)" "fl_base l \<le> n"
    using feed_read_log [OF ok, of 0 "feed_position_new (fs_generation f) n" 0] assms(9) backs_buf(2) [OF b]
    by (auto simp: feed_position_new_def log_next_def split: if_splits)
  let ?k = "n - fl_base l" and ?j = "log_next l - n"
  let ?items = "log_items (fl_base l) (fl_log l) ?k ?j"
  have serve: "serve wrap f turns c = (concat (map encode_item ?items), c\<lparr>cn_state := Streaming rid (log_next l) (fs_generation f)\<rparr>)"
    using serve_log [OF b assms(6,7,8) n(1,2)] assms(10) by (simp add: log_next_def)
  have kj: "?k + ?j = length (fl_log l)" "fl_base l + ?k = n" using n by (simp_all add: log_next_def)
  then have "items_ok (n, False) ?items" using log_items_ok [of ?k ?j "fl_log l" "fl_base l"] assms(4,5) by (simp add: log_next_def)
  moreover have "concat chunks = concat (map encode_item ?items)" using assms(11) serve by simp
  ultimately have "follow (Suc (length ?items)) (client_new n) (map Got chunks) = Some (map (Ok \<circ> item_event) ?items)"
    by (intro follow_items [OF client_new_at]) simp_all
  moreover have "length (fl_log l) - ?k = ?j" using kj(1) by simp
  ultimately show ?thesis
    using serve kj(1) unfolding log_items_def by (simp add: comp_def del: follow.simps)
qed

text \<open>A feed with one mutation, for the concrete instances.\<close>

lemma one_push:
  assumes "base < u64_max" "0 < m"
  shows "\<exists>f0 f. feed_start g m base = Some f0 \<and> feed_run f0 [Push args] = Some f \<and> fs_generation f = g \<and>
    feed_read 0 f (feed_position_new g base) 0 = Ok []"
  using assms
  by (simp add: feed_start_def source_new_def set_next_offset_def push_mutation_def Let_def evict.simps checked_u64_def
      feed_read_def feed_position_new_def frames_from_def oldest_offset_def)

definition conn_at :: "nat \<Rightarrow> nat \<Rightarrow> replica_conn" where
  "conn_at n g = \<lparr>cn_input = [], cn_output = [], cn_write_off = 0, cn_state = Streaming [97] n g\<rparr>"

theorem link_catches_up_witness:
  "\<exists>f out c. serve 0 f [Empty] (conn_at 5 7) = (out, c) \<and> cn_state c = Streaming [97] 6 7 \<and>
     follow 2 (client_new 5) (map Got [out]) = Some [Ok (Ev_frame \<lparr>df_offset = 5, df_argv = argv_from [[65]]\<rparr>)]"
proof -
  obtain f0 f where f: "feed_start 7 60 5 = Some f0" "feed_run f0 [Push [[65]]] = Some f" "fs_generation f = 7"
    "feed_read 0 f (feed_position_new 7 5) 0 = Ok []"
    using one_push [of 5 60 7 "[[65]]"] by (auto simp: u64_max_def)
  define l where "l = foldl log_step (log_start 5) [Push [[65]]]"
  have l: "fl_base l = 5" "fl_log l = [[[65]]]" "log_next l = 6" by (simp_all add: l_def log_start_def log_next_def)
  obtain out c where s: "serve 0 f [Empty] (conn_at 5 7) = (out, c)" by (cases "serve 0 f [Empty] (conn_at 5 7)")
  have "cn_state (snd (serve 0 f [Empty] (conn_at 5 7))) = Streaming [97] (log_next l) (fs_generation f) \<and>
    follow (Suc (log_next l - 5)) (client_new 5) (map Got [out]) =
      Some (map (\<lambda>i. Ok (Ev_frame \<lparr>df_offset = fl_base l + i, df_argv = argv_from (fl_log l ! i)\<rparr>)) [5 - fl_base l..<length (fl_log l)])"
    by (rule link_catches_up [OF f(1,2) l_def])
      (use f(3,4) s in \<open>simp_all add: l conn_at_def idle_def sendable_def int_bounds max_multibulk_len_def max_bulk_len_def
        encode_frame_def encode_frame_arg_def push_u64_dec dec_digit pump_byte_budget_def\<close>)
  then show ?thesis using s f(3) by (intro exI [of _ f] exI [of _ out] exI [of _ c]) (simp add: l numeral_2_eq_2 del: follow.simps)
qed

text \<open>
  C15: A replica whose position the feed can no longer serve, because the generation changed or
  the frames are gone, is resynchronised: the next turns of pump and flush send a snapshot
  marker, the serializer's bytes in chunks that concatenate to them, and the end marker with
  the end of the log; the replica decodes exactly that, and the link streams on from there in
  the feed's generation.
\<close>

theorem lost_link_resyncs:
  assumes "feed_start g max_bytes base = Some f0" "feed_run f0 ops = Some f" "l = foldl log_step (log_start base) ops"
    and "log_next l \<le> u64_max" "cn_state c = Streaming rid n h" "idle c"
    and "feed_read 0 f (feed_position_new h n) 0 = Err e"
    and "turns = r # Received buf # replicate (length (chunks_of buf)) Empty" "concat chunks = fst (serve wrap f turns c)"
  shows "cn_state (snd (serve wrap f turns c)) = Streaming rid (log_next l) (fs_generation f) \<and>
    concat (chunks_of buf) = buf \<and>
    follow (Suc (length turns)) (client_new n) (map Got chunks) =
      Some (map Ok ([Ev_snapshot_begin] @ map Ev_snapshot_chunk (chunks_of buf) @ [Ev_snapshot_end (log_next l)]))"
proof -
  have "feed_ok max_bytes f l"
    using feed_ok_run [OF feed_ok_start [OF assms(1)] assms(2)] assms(3) by simp
  then have b: "backs (fl_base l) (fl_log l) (fs_source f)" by (simp add: feed_ok_def)
  then have next_offset: "rs_next_offset (fs_source f) = log_next l" by (simp add: backs_def log_next_def)
  let ?items = "It_begin # map It_chunk (chunks_of buf) @ [It_end (log_next l)]"
  have serve: "serve wrap f turns c = (concat (map encode_item ?items), c\<lparr>cn_state := Streaming rid (log_next l) (fs_generation f)\<rparr>)"
    using serve_resync [OF assms(5,6,7) b] assms(8) next_offset by simp
  have ch: "items_ok (n, True) (map It_chunk chs @ [It_end (log_next l)])" if "list_all (\<lambda>ch. length ch \<le> snapshot_chunk_max) chs" for chs
    using that assms(4) by (induction chs) auto
  then have "items_ok (n, False) ?items" using chunks_of_short [of buf] by simp
  moreover have "[] @ concat chunks = concat (map encode_item ?items)" using assms(9) serve by simp
  ultimately have "follow (Suc (length ?items)) (client_new n) (map Got chunks) = Some (map (Ok \<circ> item_event) ?items)"
    by (intro follow_items [OF client_new_at]) simp_all
  then show ?thesis using serve assms(8) by (simp add: concat_chunks_of comp_def del: follow.simps)
qed

theorem lost_link_resyncs_witness:
  "\<exists>f out c. serve 0 f [Empty, Received [1, 2], Empty] (conn_at 5 8) = (out, c) \<and> cn_state c = Streaming [97] 6 7 \<and>
     follow 4 (client_new 5) (map Got [out]) = Some [Ok Ev_snapshot_begin, Ok (Ev_snapshot_chunk [1, 2]), Ok (Ev_snapshot_end 6)]"
proof -
  obtain f0 f where f: "feed_start 7 60 5 = Some f0" "feed_run f0 [Push [[65]]] = Some f" "fs_generation f = 7"
    using one_push [of 5 60 7 "[[65]]"] by (auto simp: u64_max_def)
  define l where "l = foldl log_step (log_start 5) [Push [[65]]]"
  have l: "log_next l = 6" by (simp add: l_def log_start_def log_next_def)
  have ch: "chunks_of [1, 2] = [[1, 2]]" by (simp add: chunks_of.simps snapshot_chunk_max_def)
  obtain out c where s: "serve 0 f [Empty, Received [1, 2], Empty] (conn_at 5 8) = (out, c)"
    by (cases "serve 0 f [Empty, Received [1, 2], Empty] (conn_at 5 8)")
  have e: "feed_read 0 f (feed_position_new 8 5) 0 = Err (Resync (feed_tail f))"
    using f(3) by (simp add: feed_read_def feed_position_new_def)
  have "cn_state (snd (serve 0 f [Empty, Received [1, 2], Empty] (conn_at 5 8))) = Streaming [97] (log_next l) (fs_generation f) \<and>
    concat (chunks_of [1, 2]) = [1, 2] \<and>
    follow (Suc (length [Empty, Received [1, 2], Empty])) (client_new 5) (map Got [out]) =
      Some (map Ok ([Ev_snapshot_begin] @ map Ev_snapshot_chunk (chunks_of [1, 2]) @ [Ev_snapshot_end (log_next l)]))"
    by (rule lost_link_resyncs [OF f(1,2) l_def _ _ _ e])
      (use s in \<open>simp_all add: l ch conn_at_def idle_def u64_max_def del: serve.simps\<close>)
  then show ?thesis
    using s f(3) by (intro exI [of _ f] exI [of _ out] exI [of _ c]) (simp add: l ch eval_nat_numeral del: follow.simps serve.simps)
qed

text \<open>
  C22: A frame larger than the pump's byte budget stops its link for good: as long as the
  backlog keeps the frame, no number of turns sends anything more to a replica waiting for
  it, although the feed can serve the frame.
\<close>

theorem oversized_frame_stalls:
  assumes "feed_start g max_bytes base = Some f0" "feed_run f0 ops = Some f" "l = foldl log_step (log_start base) ops"
    and "cn_state c = Streaming rid n (fs_generation f)" "idle c"
    and "feed_read 0 f (feed_position_new (fs_generation f) n) 0 = Ok []" "n < log_next l"
    and "length (encode_frame n (fl_log l ! (n - fl_base l))) > pump_byte_budget"
  shows "serve wrap f turns c = ([], c)"
proof -
  have ok: "feed_ok max_bytes f l"
    using feed_ok_run [OF feed_ok_start [OF assms(1)] assms(2)] assms(3) by simp
  then have b: "backs (fl_base l) (fl_log l) (fs_source f)" by (simp add: feed_ok_def)
  have "retained (fl_base l) (fl_log l) (fs_source f) \<le> n"
    using feed_read_log [OF ok, of 0 "feed_position_new (fs_generation f) n" 0] assms(6,7)
    by (auto simp: feed_position_new_def split: if_splits)
  then show ?thesis using serve_stalls [OF b assms(4,5)] assms(7,8) by (simp add: log_next_def)
qed

theorem oversized_frame_stalls_witness:
  "\<exists>f. feed_tail f = feed_position_new 7 6 \<and> serve 0 f (replicate 1000 Empty) (conn_at 5 7) = ([], conn_at 5 7)"
proof -
  define args :: "bytes list" where "args = [replicate 262144 0]"
  obtain f0 f where f: "feed_start 7 1000000 5 = Some f0" "feed_run f0 [Push args] = Some f" "fs_generation f = 7"
    "feed_read 0 f (feed_position_new 7 5) 0 = Ok []"
    using one_push [of 5 1000000 7 args] by (auto simp: u64_max_def)
  define l where "l = foldl log_step (log_start 5) [Push args]"
  have l: "fl_base l = 5" "fl_log l = [args]" "log_next l = 6" by (simp_all add: l_def log_start_def log_next_def)
  have "length (encode_frame 5 args) > pump_byte_budget"
    by (simp add: args_def encode_frame_def encode_frame_arg_def push_u64_dec pump_byte_budget_def)
  then have "serve 0 f (replicate 1000 Empty) (conn_at 5 7) = ([], conn_at 5 7)"
    by (intro oversized_frame_stalls [OF f(1,2) l_def, of _ "[97]" 5]) (use f(3,4) in \<open>simp_all add: l conn_at_def idle_def\<close>)
  moreover have "feed_ok 1000000 f l" using feed_ok_run [OF feed_ok_start [OF f(1)] f(2)] by (simp add: l_def)
  then have "feed_tail f = feed_position_new 7 6"
    using f(3) l by (simp add: feed_ok_def backs_def feed_tail_def)
  ultimately show ?thesis by blast
qed

end
