(* ===== verification/Repl_Conn.thy ===== *)
theory Repl_Conn
  imports Repl_Slots Repl_Live
begin

text \<open>
  A connection between a replica and its primary from the first byte: the handshake is read
  in any pieces and acknowledged with a line the replica reads back, acknowledgements reach
  the replica's slot, and every socket event, turn of the pump and flush keeps the
  connection well-formed.
\<close>

section \<open>The handshake\<close>

definition replicate_args :: "feed_position \<Rightarrow> bytes \<Rightarrow> bytes list" where
  "replicate_args start rid = [ascii ''REPLICATE'', ascii ''FROM'', dec_digits (fp_generation start),
     dec_digits (fp_offset start), ascii ''ID'', rid]"

lemma length_replicate_args: "length (replicate_args start rid) = 6"
  by (simp add: replicate_args_def)

lemma encode_replicate_command: "encode_replicate_from start rid = encode_command [] (replicate_args start rid)"
proof -
  have "foldl (\<lambda>v arg. v @ (36 # dec_digits (length arg) @ crlf) @ arg @ crlf) v args = v @ concat (map bulk_frame args)"
    for v :: bytes and args
    by (induction args arbitrary: v) (simp_all add: bulk_frame_def)
  moreover have "dec_digits 6 = ascii ''6''" by (simp add: dec_digit digit_byte_def ascii_def)
  ultimately show ?thesis
    unfolding encode_command_frame length_replicate_args
    by (simp add: encode_replicate_from_def replicate_args_def ascii_def)
qed

lemma eq_ascii_ci_refl [simp]: "eq_ascii_ci a a"
  by (simp add: eq_ascii_ci_def list_all_length)

lemma parse_decimal_u64_eq: "parse_decimal_u64 = parse_decimal"
  by (simp add: fun_eq_iff parse_decimal_u64_def parse_decimal_def)

lemma handshake_parse_args:
  assumes "fp_generation start \<le> u64_max" "fp_offset start \<le> u64_max" "rid \<noteq> []" "utf8_valid rid" "length rid < 4096"
  shows "handshake_parse (argv_from (replicate_args start rid)) = Ok \<lparr>hr_from = start, hr_replica_id = rid\<rparr>"
proof -
  let ?a = "argv_from (replicate_args start rid)"
  have "sum_list (map length (replicate_args start rid)) < 4294967296"
    using dec_digits_20 [OF assms(1)] dec_digits_20 [OF assms(2)] assms(5) by (simp add: replicate_args_def)
  then have l: "owned.vlist ?a = replicate_args start rid"
    using argv_list_from argv_list_view by metis
  have "argv_len ?a = 6" using owned.vlist_length [of ?a] unfolding l length_replicate_args by simp
  moreover have "argv_get ?a i = nth_opt (replicate_args start rid) i" for i using owned.vget_vlist [of ?a i] by (simp add: l)
  ultimately show ?thesis
    using assms by (simp add: handshake_parse_def nth_opt_def replicate_args_def parse_decimal_u64_eq feed_position_new_def)
qed

lemma utf8_ascii: "list_all (\<lambda>b. b < 0x80) bs \<Longrightarrow> utf8_valid bs"
  by (induction bs) simp_all

lemma dec_digits_ascii: "list_all (\<lambda>b. b < 0x80) (dec_digits n)"
proof -
  have "b < 0x80" if "is_digit b" for b :: u8
    using that by (simp add: is_digit_def word_le_nat_alt word_less_nat_alt)
  then show ?thesis using dec_digits_mem by (auto simp: list_all_iff)
qed

lemma parse_ack_encoded:
  assumes "fp_generation p \<le> u64_max" "fp_offset p \<le> u64_max"
  shows "parse_ack_line (encode_ack p) = Ok p"
proof -
  let ?body = "dec_digits (fp_generation p) @ 32 # dec_digits (fp_offset p)"
  have line: "encode_ack p = ascii ''+ACK '' @ ?body @ crlf" by (simp add: encode_ack_def push_u64_dec)
  have "strip_suffix crlf (xs @ crlf) = Some xs" for xs by (simp add: strip_suffix_def)
  from this [of "ascii ''+ACK '' @ ?body"] have suf: "strip_suffix crlf (encode_ack p) = Some (ascii ''+ACK '' @ ?body)"
    by (simp add: line)
  have "list_all (\<lambda>b. b < 0x80) ?body" using dec_digits_ascii by simp
  then have utf: "utf8_valid ?body" by (rule utf8_ascii)
  have "position (\<lambda>b. b = 32) (ds @ 32 # es) = Some (length ds)" if "32 \<notin> set ds" for ds es :: bytes
    using that by (induction ds) auto
  moreover have "32 \<notin> set (dec_digits (fp_generation p))" by (rule dec_digits_no) (simp add: is_digit_def)
  ultimately have "split_once_space ?body = Some (dec_digits (fp_generation p), dec_digits (fp_offset p))"
    by (simp add: split_once_space_def)
  then show ?thesis using suf utf assms by (simp add: parse_ack_line_def feed_position_new_def)
qed

text \<open>The primary reads what the socket gives it, piece by piece.\<close>

definition consume_step :: "nat \<Rightarrow> nat \<Rightarrow> replica_conn \<times> slot_table \<Rightarrow> bytes \<Rightarrow> replica_conn \<times> slot_table" where
  "consume_step feed_gen now st bs =
     (case replica_consume feed_gen (snd st) now (fst st) bs of (c, slots, _) \<Rightarrow> (c, slots))"

lemma consume_partial:
  assumes "cn_state c = Handshake_pending" "cn_input c = u" "sendable args" "encode_command [] args = (u @ bs) @ ms" "ms \<noteq> []"
    "length (encode_command [] args) \<le> handshake_max_input"
  shows "consume_step g now (c, slots) bs = (c\<lparr>cn_input := u @ bs\<rparr>, slots)"
proof (cases "bs = []")
  case True
  then show ?thesis using assms(2) by (simp add: consume_step_def replica_consume_def)
next
  case False
  have "parse_command_from (u @ bs) 0 argv_default = Ok None"
    using command_encoded [OF assms(3), of "[]"] assms(4,5) owned_cmd.run_prefix [of "u @ bs" ms "argv_from args"] by simp
  moreover have "length u + length bs \<le> handshake_max_input" using assms(6) unfolding assms(4) by simp
  ultimately show ?thesis
    using False assms(1,2) by (simp add: consume_step_def replica_consume_def advance_handshake_def parse_command_into_def)
qed

lemma consume_complete:
  assumes "cn_state c = Handshake_pending" "cn_input c = u" "cn_output c = []"
    "u @ bs = encode_command [] (replicate_args start rid)" "bs \<noteq> []" "sendable (replicate_args start rid)"
    "length (encode_command [] (replicate_args start rid)) \<le> handshake_max_input"
    "handshake_parse (argv_from (replicate_args start rid)) = Ok \<lparr>hr_from = start, hr_replica_id = rid\<rparr>"
  shows "consume_step g now (c, slots) bs =
    (c\<lparr>cn_input := [], cn_output := encode_ack (feed_position_new g (fp_offset start)), cn_write_off := 0,
       cn_state := Ack_sent rid (fp_offset start) (fp_generation start)\<rparr>, slots)"
proof -
  have "parse_command_from (u @ bs) 0 argv_default = Ok (Some (argv_from (replicate_args start rid), length (u @ bs)))"
    using command_encoded [OF assms(6), of "[]"] unfolding assms(4) by simp
  moreover have "length u + length bs \<le> handshake_max_input" using assms(7) unfolding assms(4) [symmetric] by simp
  ultimately show ?thesis
    using assms(1,2,3,5,8) by (simp add: consume_step_def replica_consume_def advance_handshake_def parse_command_into_def)
qed

lemma consume_nothing: "concat chunks = [] \<Longrightarrow> foldl (consume_step g now) st chunks = st"
  by (induction chunks) (simp_all add: consume_step_def replica_consume_def)

lemma consume_handshake:
  assumes ok: "sendable (replicate_args start rid)" "length (encode_command [] (replicate_args start rid)) \<le> handshake_max_input"
    "handshake_parse (argv_from (replicate_args start rid)) = Ok \<lparr>hr_from = start, hr_replica_id = rid\<rparr>"
  shows "cn_state c = Handshake_pending \<Longrightarrow> cn_output c = [] \<Longrightarrow>
    cn_input c @ concat chunks = encode_command [] (replicate_args start rid) \<Longrightarrow> concat chunks \<noteq> [] \<Longrightarrow>
    foldl (consume_step g now) (c, slots) chunks =
      (c\<lparr>cn_input := [], cn_output := encode_ack (feed_position_new g (fp_offset start)), cn_write_off := 0,
         cn_state := Ack_sent rid (fp_offset start) (fp_generation start)\<rparr>, slots)"
proof (induction chunks arbitrary: c)
  case (Cons bs chunks)
  show ?case
  proof (cases "concat chunks = []")
    case True
    then have "cn_input c @ bs = encode_command [] (replicate_args start rid)" "bs \<noteq> []"
      using Cons.prems(3,4) unfolding concat.simps True by simp_all
    from consume_complete [OF Cons.prems(1) refl Cons.prems(2) this ok] show ?thesis
      using consume_nothing [OF True] by simp
  next
    case False
    have "consume_step g now (c, slots) bs = (c\<lparr>cn_input := cn_input c @ bs\<rparr>, slots)"
      by (rule consume_partial [OF Cons.prems(1) refl ok(1) _ False ok(2)]) (use Cons.prems(3) in simp)
    then show ?thesis using Cons.IH [of "c\<lparr>cn_input := cn_input c @ bs\<rparr>"] Cons.prems False by simp
  qed
qed simp

section \<open>Acknowledgements\<close>

lemma ack_line: "encode_replconf_ack n = (ascii ''REPLCONF ACK '' @ dec_digits n) @ crlf"
  by (simp add: encode_replconf_ack_def push_u64_dec)

lemma ack_line_cr: "13 \<notin> set (ascii ''REPLCONF ACK '' @ dec_digits n)"
  using dec_digits_no [of 13 n] by (simp add: ascii_def is_digit_def)

lemma decode_ack:
  assumes "n \<le> u64_max"
  shows "decode_replconf_ack (encode_replconf_ack n @ rest) = Ok (Some (n, length (encode_replconf_ack n)))"
proof -
  let ?line = "ascii ''REPLCONF ACK '' @ dec_digits n"
  have "find_crlf (encode_replconf_ack n @ rest) 0 = Some (length ?line)"
    using find_crlf_line [OF ack_line_cr, of "[]" n rest] by (simp add: ack_line)
  moreover have "take (length ?line) (encode_replconf_ack n @ rest) = ?line" by (simp add: ack_line)
  moreover have "(encode_replconf_ack n @ rest) ! 0 = 82" "encode_replconf_ack n @ rest \<noteq> []"
    "length (encode_replconf_ack n) = length ?line + 2" by (simp_all add: ack_line ascii_def)
  ultimately show ?thesis using assms by (simp add: decode_replconf_ack_def wire_find_crlf_eq)
qed

lemma decode_ack_prefix:
  assumes "n \<le> u64_max" "encode_replconf_ack n = u @ ms" "ms \<noteq> []" "u \<noteq> []"
  shows "decode_replconf_ack u = Err Wire_truncated"
proof -
  let ?line = "ascii ''REPLCONF ACK '' @ dec_digits n"
  have fc: "find_crlf (u @ ms) 0 = Some (length ?line)"
    using find_crlf_line [OF ack_line_cr, of "[]" n "[]"] assms(2) by (simp add: ack_line)
  have l: "length u + length ms = length ?line + 2" using arg_cong [OF assms(2), of length] by (simp add: ack_line)
  then have "length u < length ?line + 2" using assms(3) by (cases ms) auto
  then have "find_crlf u 0 = None" by (rule find_crlf_prefix_None [OF fc])
  moreover have "u ! 0 = 82" using assms(2,4) by (cases u) (auto simp: ack_line ascii_def)
  moreover have "length u \<le> snapshot_line_max"
    using l dec_digits_20 [OF assms(1)] by (simp add: snapshot_line_max_def)
  ultimately show ?thesis using assms(4) by (simp add: decode_replconf_ack_def wire_find_crlf_eq)
qed

text \<open>The loop reads every complete line and leaves a part of the next one.\<close>

lemma ack_loop_lines:
  "list_all (\<lambda>n. n \<le> u64_max) ns \<Longrightarrow> k \<le> length input \<Longrightarrow> drop k input @ later = concat (map encode_replconf_ack ns) \<Longrightarrow>
   \<exists>i u. i \<le> length ns \<and> drop k input = concat (map encode_replconf_ack (take i ns)) @ u \<and>
     u @ later = concat (map encode_replconf_ack (drop i ns)) \<and> (u = [] \<or> i < length ns \<and> length u < length (encode_replconf_ack (ns ! i))) \<and>
     ack_loop input k latest = (length input - length u, if i = 0 then latest else Some (ns ! (i - 1)))"
proof (induction ns arbitrary: k latest)
  case Nil
  then show ?case by (intro exI [of _ 0] exI [of _ "[]"]) (simp add: ack_loop.simps [of input k])
next
  case (Cons n ns)
  let ?r = "drop k input"
  show ?case
  proof (cases "length (encode_replconf_ack n) \<le> length ?r")
    case True
    then obtain r where r: "?r = encode_replconf_ack n @ r" "r @ later = concat (map encode_replconf_ack ns)"
      using append_split_ge [of ?r later "encode_replconf_ack n" "concat (map encode_replconf_ack ns)"] Cons.prems(3) by auto
    let ?k = "k + length (encode_replconf_ack n)"
    have dk: "drop ?k input = r" using arg_cong [OF r(1), of "drop (length (encode_replconf_ack n))"] by (simp add: add.commute)
    have "?k \<le> length input" using True Cons.prems(2) by simp
    then obtain i u where i: "i \<le> length ns" "r = concat (map encode_replconf_ack (take i ns)) @ u"
      "u @ later = concat (map encode_replconf_ack (drop i ns))" "u = [] \<or> i < length ns \<and> length u < length (encode_replconf_ack (ns ! i))"
      "ack_loop input ?k (Some n) = (length input - length u, if i = 0 then Some n else Some (ns ! (i - 1)))"
      using Cons.IH [of ?k "Some n"] Cons.prems(1) r(2) unfolding dk by auto
    have "ack_loop input k latest = ack_loop input ?k (Some n)"
      using decode_ack [of n r] Cons.prems(1) unfolding r(1) [symmetric]
      by (subst ack_loop.simps) (auto simp: Let_def r(1) ack_line)
    then show ?thesis using i r(1) by (intro exI [of _ "Suc i"] exI [of _ u]) (auto simp: nth_Cons')
  next
    case False
    then obtain ms where ms: "encode_replconf_ack n = ?r @ ms" "ms \<noteq> []"
      using append_split_lt [of ?r later "encode_replconf_ack n" "concat (map encode_replconf_ack ns)"] Cons.prems(3) by auto
    have "ack_loop input k latest = (k, latest)"
    proof (cases "?r = []")
      case r: False
      then show ?thesis
        using decode_ack_prefix [OF _ ms r] Cons.prems(1) by (subst ack_loop.simps) (simp add: Let_def)
    qed (simp add: ack_loop.simps [of input k])
    then show ?thesis using False Cons.prems(2,3) by (intro exI [of _ 0] exI [of _ ?r]) auto
  qed
qed

definition acked_of :: "slot_table \<Rightarrow> bytes \<Rightarrow> nat" where
  "acked_of t rid = (case slot_get t rid of None \<Rightarrow> 0 | Some s \<Rightarrow> sl_acked_offset s)"

lemma acked_insert:
  assumes "slots_ok t"
  shows "slots_ok (insert_or_touch t rid n now) \<and> acked_of (insert_or_touch t rid n now) rid = max (acked_of t rid) n"
  using slot_step_ok [OF assms, of "Ack rid n now"] by (auto simp: acked_of_def split: option.split)

text \<open>What is left in the input is nothing, or a part of the next line.\<close>

definition part_of :: "bytes \<Rightarrow> nat list \<Rightarrow> bool" where
  "part_of u ns \<longleftrightarrow> u = [] \<or> ns \<noteq> [] \<and> length u < length (encode_replconf_ack (hd ns))"

lemma part_short: "part_of u ns \<Longrightarrow> list_all (\<lambda>n. n \<le> u64_max) ns \<Longrightarrow> length u < 64"
  using dec_digits_20 [of "hd ns"] by (cases ns) (auto simp: part_of_def ack_line)

lemma consume_ack_chunk:
  assumes st: "cn_state c = Streaming rid m h" "slots_ok t" and u64: "list_all (\<lambda>n. n \<le> u64_max) ns"
    and part: "part_of (cn_input c) ns" and len: "length bs + 64 \<le> streaming_input_discard_cap"
    and cut: "(cn_input c @ bs) @ later = concat (map encode_replconf_ack ns)"
  shows "\<exists>i u t'. i \<le> length ns \<and> consume_step g now (c, t) bs = (c\<lparr>cn_input := u\<rparr>, t') \<and> part_of u (drop i ns) \<and>
    u @ later = concat (map encode_replconf_ack (drop i ns)) \<and> slots_ok t' \<and>
    acked_of t' rid = (if i = 0 then acked_of t rid else max (acked_of t rid) (ns ! (i - 1)))"
proof (cases "bs = []")
  case True
  have "consume_step g now (c, t) bs = (c\<lparr>cn_input := cn_input c\<rparr>, t)" using True by (simp add: consume_step_def replica_consume_def)
  then show ?thesis using assms True by (intro exI [of _ 0] exI [of _ "cn_input c"] exI [of _ t]) simp
next
  case False
  let ?w = "cn_input c @ bs"
  obtain i u where i: "i \<le> length ns" "?w = concat (map encode_replconf_ack (take i ns)) @ u"
    "u @ later = concat (map encode_replconf_ack (drop i ns))" "u = [] \<or> i < length ns \<and> length u < length (encode_replconf_ack (ns ! i))"
    "ack_loop ?w 0 None = (length ?w - length u, if i = 0 then None else Some (ns ! (i - 1)))"
    using ack_loop_lines [OF u64, of 0 ?w later None, unfolded drop_0, OF le0 cut] by blast
  have part': "part_of u (drop i ns)" using i(1,4) by (auto simp: part_of_def hd_drop_conv_nth)
  have wd: "drop (length ?w - length u) ?w = u" using i(2) by simp
  have fits: "\<not> length (cn_input c) + length bs > streaming_input_discard_cap"
    using part_short [OF part u64] len by simp
  let ?t = "if i = 0 then t else insert_or_touch t rid (ns ! (i - 1)) now"
  have inp: "(if length ?w - length u > 0 then drop (length ?w - length u) ?w else ?w) = u"
    using wd i(2) by (cases "length ?w - length u") auto
  have "parse_replica_acks t now (c\<lparr>cn_input := ?w\<rparr>) = (c\<lparr>cn_input := u\<rparr>, ?t)"
    using i(5) st(1) inp by (auto simp: parse_replica_acks_def Let_def simp del: length_append split: if_splits)
  then have "consume_step g now (c, t) bs = (c\<lparr>cn_input := u\<rparr>, ?t)"
    using False fits st(1) by (simp add: consume_step_def replica_consume_def)
  then show ?thesis
    using i(1,3) part' st(2) acked_insert [OF st(2), of rid "ns ! (i - 1)" now]
    by (intro exI [of _ i] exI [of _ u] exI [of _ ?t]) simp
qed

lemma last_drop_max:
  fixes a :: nat
  assumes "sorted ns" "ns \<noteq> []" "i \<le> length ns" "0 < i"
  shows "(if drop i ns = [] then max a (ns ! (i - 1)) else max (max a (ns ! (i - 1))) (last (drop i ns))) = max a (last ns)"
proof -
  have "ns ! (i - 1) \<le> last ns"
    using assms sorted_nth_mono [of ns "i - 1" "length ns - 1"] by (simp add: last_conv_nth)
  then show ?thesis using assms by (auto simp: last_conv_nth)
qed

lemma consume_acks:
  "cn_state c = Streaming rid m h \<Longrightarrow> slots_ok t \<Longrightarrow> list_all (\<lambda>n. n \<le> u64_max) ns \<Longrightarrow> sorted ns \<Longrightarrow>
   part_of (cn_input c) ns \<Longrightarrow> list_all (\<lambda>bs. length bs + 64 \<le> streaming_input_discard_cap) chunks \<Longrightarrow>
   cn_input c @ concat chunks = concat (map encode_replconf_ack ns) \<Longrightarrow>
   \<exists>t'. foldl (consume_step g now) (c, t) chunks = (c\<lparr>cn_input := []\<rparr>, t') \<and> slots_ok t' \<and>
     acked_of t' rid = (if ns = [] then acked_of t rid else max (acked_of t rid) (last ns))"
proof (induction chunks arbitrary: c t ns)
  case Nil
  then have "ns = []" by (cases ns) (auto simp: part_of_def ack_line)
  then show ?case using Nil by (cases c) auto
next
  case (Cons bs chunks)
  obtain i u t' where i: "i \<le> length ns" "consume_step g now (c, t) bs = (c\<lparr>cn_input := u\<rparr>, t')" "part_of u (drop i ns)"
    "u @ concat chunks = concat (map encode_replconf_ack (drop i ns))" "slots_ok t'"
    "acked_of t' rid = (if i = 0 then acked_of t rid else max (acked_of t rid) (ns ! (i - 1)))"
    using consume_ack_chunk [OF Cons.prems(1,2,3,5), of bs "concat chunks" g now] Cons.prems(6,7) by auto
  have "list_all (\<lambda>n. n \<le> u64_max) (drop i ns)" using Cons.prems(3) by (meson in_set_dropD list_all_iff)
  from Cons.IH [of "c\<lparr>cn_input := u\<rparr>" t' "drop i ns", OF _ i(5) this sorted_wrt_drop [OF Cons.prems(4)]] i Cons.prems(1,6)
  obtain t2 where t2: "foldl (consume_step g now) (c\<lparr>cn_input := u\<rparr>, t') chunks = (c\<lparr>cn_input := []\<rparr>, t2)" "slots_ok t2"
    "acked_of t2 rid = (if drop i ns = [] then acked_of t' rid else max (acked_of t' rid) (last (drop i ns)))" by auto
  have "acked_of t2 rid = (if ns = [] then acked_of t rid else max (acked_of t rid) (last ns))"
    using t2(3) i(1,6) last_drop_max [OF Cons.prems(4), of i "acked_of t rid"] by (cases "i = 0") auto
  then show ?case using t2(1,2) i(2) by auto
qed

section \<open>Well-formed connections\<close>

definition rid_ok :: "bytes \<Rightarrow> bool" where
  "rid_ok rid \<longleftrightarrow> rid \<noteq> [] \<and> utf8_valid rid"

fun state_wf :: "replica_state \<Rightarrow> bool" where
  "state_wf Handshake_pending = True"
| "state_wf (Ack_sent rid n g) \<longleftrightarrow> rid_ok rid \<and> n \<le> u64_max \<and> g \<le> u64_max"
| "state_wf (Streaming rid n g) \<longleftrightarrow> rid_ok rid \<and> n \<le> u64_max \<and> g \<le> u64_max"
| "state_wf (Snapshot_shipping rid ack g ser buf off) \<longleftrightarrow>
     rid_ok rid \<and> ack \<le> u64_max \<and> g \<le> u64_max \<and> off \<le> length buf \<and> (ser \<longrightarrow> buf = [])"
| "state_wf (Closed rid) \<longleftrightarrow> (case rid of None \<Rightarrow> True | Some r \<Rightarrow> rid_ok r)"

definition conn_wf :: "replica_conn \<Rightarrow> bool" where
  "conn_wf c \<longleftrightarrow> cn_write_off c \<le> length (cn_output c) \<and> length (cn_input c) \<le> streaming_input_discard_cap \<and>
     state_wf (cn_state c) \<and>
     (cn_state c = Handshake_pending \<longrightarrow> cn_output c = [] \<and> length (cn_input c) \<le> handshake_max_input)"

definition feed_bounded :: "feed_source \<Rightarrow> bool" where
  "feed_bounded f \<longleftrightarrow> fs_generation f \<le> u64_max \<and> rs_next_offset (fs_source f) \<le> u64_max \<and>
     list_all (\<lambda>fr. fr_offset fr < u64_max) (rs_buf (fs_source f))"

lemma parse_decimal_loop_u64: "parse_decimal_loop acc bs = Some n \<Longrightarrow> acc \<le> u64_max \<Longrightarrow> n \<le> u64_max"
  by (induction acc bs rule: parse_decimal_loop.induct) (auto simp: Let_def checked_u64_def split: if_splits option.splits)

lemma handshake_parse_ok:
  "handshake_parse a = Ok r \<Longrightarrow> rid_ok (hr_replica_id r) \<and> fp_generation (hr_from r) \<le> u64_max \<and> fp_offset (hr_from r) \<le> u64_max"
  by (auto simp: handshake_parse_def Let_def rid_ok_def parse_decimal_u64_def feed_position_new_def
      dest: parse_decimal_loop_u64 split: if_splits option.splits)

lemma close_wf: "conn_wf c \<Longrightarrow> conn_wf (close_conn c)"
  by (cases "cn_state c") (auto simp: conn_wf_def close_conn_def)

lemma handshake_wf:
  assumes "conn_wf c" "cn_state c = Handshake_pending" "length (cn_input c @ bs) \<le> handshake_max_input"
    "advance_handshake (c\<lparr>cn_input := cn_input c @ bs\<rparr>) g = Ok c'"
  shows "conn_wf c'"
  using assms handshake_parse_ok
  by (auto simp: advance_handshake_def conn_wf_def streaming_input_discard_cap_def handshake_max_input_def
      split: sum.splits option.splits)

lemma acks_wf:
  assumes "conn_wf c" "cn_state c = Streaming rid n g" "length (cn_input c @ bs) \<le> streaming_input_discard_cap"
    "parse_replica_acks t now (c\<lparr>cn_input := cn_input c @ bs\<rparr>) = (c', t')"
  shows "conn_wf c'"
  using assms by (auto simp: parse_replica_acks_def conn_wf_def Let_def split: prod.splits option.splits if_splits)

lemma input_wf:
  "conn_wf c \<Longrightarrow> length (cn_input c @ bs) \<le> handshake_max_input \<Longrightarrow> conn_wf (c\<lparr>cn_input := cn_input c @ bs\<rparr>)"
  by (auto simp: conn_wf_def streaming_input_discard_cap_def handshake_max_input_def)

lemma consume_wf:
  assumes "conn_wf c"
  shows "conn_wf (fst (replica_consume g t now c bs))"
proof (cases "cn_state c")
  case Handshake_pending
  then show ?thesis
    using close_wf [OF input_wf [OF assms, of bs]] close_wf [OF assms] handshake_wf [OF assms, of bs g] assms
    by (auto simp: replica_consume_def Let_def split: sum.splits)
next
  case (Streaming rid n h)
  then show ?thesis
    using close_wf [OF assms] acks_wf [OF assms Streaming, of bs t now] assms
    by (auto simp: replica_consume_def split: prod.splits)
qed (simp_all add: replica_consume_def assms)

lemma drained_wf: "conn_wf c \<Longrightarrow> conn_wf (drained c)"
  by (cases "cn_state c") (auto simp: conn_wf_def drained_def)

lemma writable_wf:
  "replica_writable ws c = Some (c', go) \<Longrightarrow> conn_wf (drained c) \<Longrightarrow> (cn_write_off c \<le> length (cn_output c) \<Longrightarrow> conn_wf c) \<Longrightarrow> conn_wf c'"
proof (induction ws c rule: replica_writable.induct)
  case (1 ws c)
  show ?case
  proof (cases "cn_write_off c \<ge> length (cn_output c)")
    case True
    then show ?thesis using 1 by (simp add: replica_writable.simps [of ws c])
  next
    case False
    have d: "drained (c\<lparr>cn_write_off := k\<rparr>) = drained c" for k by (cases "cn_state c") (simp_all add: drained_def)
    have w: "conn_wf c" using 1(5) False by simp
    show ?thesis
      using False 1(1-4) w close_wf [OF w]
      by (auto simp: replica_writable.simps [of ws c] d conn_wf_def split: list.splits write_result.splits nat.splits)
  qed
qed

lemma heartbeat_wf: "conn_wf c \<Longrightarrow> cn_state c \<noteq> Handshake_pending \<Longrightarrow> conn_wf (maybe_append_heartbeat due c g n)"
  by (auto simp: maybe_append_heartbeat_def conn_wf_def)

lemma ship_wf: "conn_wf c \<Longrightarrow> g \<le> u64_max \<Longrightarrow> ack \<le> u64_max \<Longrightarrow> conn_wf (start_snapshot_ship c g ack)"
  by (cases "cn_state c") (auto simp: start_snapshot_ship_def conn_wf_def)

lemma pump_frames_u64:
  assumes "list_all (\<lambda>fr. fr_offset fr < u64_max) fs" "sent \<le> u64_max"
  shows "snd (pump_frames pending fs b added sent) \<le> u64_max"
proof -
  obtain j where j: "j \<le> length fs" "pump_frames pending fs b added sent =
      (added @ concat (map fr_bytes (take j fs)), if j = 0 then sent else fr_offset (fs ! (j - 1)) + 1)"
    using pump_frames_prefix by blast
  then show ?thesis using assms by (cases j) (auto simp: list_all_length Suc_le_eq)
qed

lemma fill_wf:
  assumes "conn_wf c" "feed_bounded f" "cn_state c = Streaming rid n h"
  shows "conn_wf (fill_streaming_output wrap (fs_source f) c (fs_generation f) (rs_next_offset (fs_source f)))"
proof -
  let ?n = "rs_next_offset (fs_source f)" and ?g = "fs_generation f"
  have ship: "conn_wf (start_snapshot_ship c ?g ?n)" using assms(2) by (intro ship_wf assms(1)) (auto simp: feed_bounded_def)
  have "conn_wf (c\<lparr>cn_output := cn_output c @ added, cn_state := Streaming rid m h\<rparr>)"
    if "pump_frames p (drop cur (rs_buf (fs_source f))) 0 [] n = (added, m)" for p cur added m
  proof -
    have "list_all (\<lambda>fr. fr_offset fr < u64_max) (drop cur (rs_buf (fs_source f)))"
      using assms(2) in_set_dropD unfolding feed_bounded_def list_all_iff by fast
    from pump_frames_u64 [OF this, of n p 0 "[]"] that have "m \<le> u64_max" using assms(1,3) by (simp add: conn_wf_def)
    then show ?thesis using assms(1,3) by (auto simp: conn_wf_def)
  qed
  then show ?thesis
    using ship assms(1) by (auto simp: fill_streaming_output_def assms(3) Let_def split: sum.split prod.split)
qed

lemma emit_wf:
  assumes "conn_wf c" "cn_state c = Snapshot_shipping rid ack g ser buf off" "\<not> ser"
  shows "conn_wf (emit_snapshot_chunk c)"
  using assms by (auto simp: emit_snapshot_chunk_def Let_def conn_wf_def)

lemma chunks_wf:
  assumes "conn_wf c" "cn_state c = Snapshot_shipping rid ack g ser buf off"
  shows "conn_wf (pump_snapshot_chunks r c)"
proof (cases ser)
  case True
  then have off: "buf = []" "off = 0" using assms by (auto simp: conn_wf_def)
  have "conn_wf (emit_snapshot_chunk (c\<lparr>cn_state := Snapshot_shipping rid ack g False bs off\<rparr>))" for bs
    by (rule emit_wf [where ser = False]) (use assms off in \<open>auto simp: conn_wf_def\<close>)
  then show ?thesis using assms close_wf [OF assms(1)] True by (auto simp: pump_snapshot_chunks_def split: recv.split)
next
  case False
  then show ?thesis using assms emit_wf [OF assms] by (auto simp: pump_snapshot_chunks_def)
qed

lemma pump_wf:
  assumes "conn_wf c" "feed_bounded f"
  shows "conn_wf (pump_replication wrap due r f c)"
proof (cases "cn_state c")
  case (Streaming rid n h)
  let ?d = "fill_streaming_output wrap (fs_source f) c (fs_generation f) (rs_next_offset (fs_source f))"
  have "cn_state ?d \<noteq> Handshake_pending"
    using Streaming by (auto simp: fill_streaming_output_def start_snapshot_ship_def Let_def split: sum.split prod.split)
  then show ?thesis
    using heartbeat_wf [OF fill_wf [OF assms Streaming]] Streaming by (simp add: pump_replication_def Let_def)
next
  case (Snapshot_shipping rid ack g ser buf off)
  then show ?thesis using chunks_wf [OF assms(1)] by (simp add: pump_replication_def)
qed (use assms in \<open>simp_all add: pump_replication_def\<close>)

text \<open>What can happen to a connection.\<close>

datatype conn_event = Readable nat slot_table nat bytes | Writable "write_result list" | Pump nat bool recv feed_source | Drain "write_result list" | Hangup

fun conn_step :: "replica_conn \<Rightarrow> conn_event \<Rightarrow> replica_conn" where
  "conn_step c (Readable g t now bs) = fst (replica_consume g t now c bs)"
| "conn_step c (Writable ws) = (case replica_writable ws c of Some (c', _) \<Rightarrow> c' | None \<Rightarrow> c)"
| "conn_step c (Pump wrap due r f) = pump_replication wrap due r f c"
| "conn_step c (Drain ws) = (case drain_streaming_outputs ws c of Some c' \<Rightarrow> c' | None \<Rightarrow> c)"
| "conn_step c Hangup = close_conn c"

fun event_ok :: "conn_event \<Rightarrow> bool" where
  "event_ok (Pump wrap due r f) = feed_bounded f"
| "event_ok _ = True"

lemma drain_wf:
  assumes "conn_wf c" "drain_streaming_outputs ws c = Some c'"
  shows "conn_wf c'"
proof -
  have "conn_wf d" if "replica_writable ws c = Some (d, go)" for d go
    using writable_wf [OF that drained_wf [OF assms(1)]] assms(1) by blast
  then show ?thesis
    using assms by (auto simp: drain_streaming_outputs_def replica_io_failed_def Let_def close_wf
        split: if_splits option.splits bool.splits replica_state.splits)
qed

lemma conn_step_wf: "conn_wf c \<Longrightarrow> event_ok ev \<Longrightarrow> conn_wf (conn_step c ev)"
  by (cases ev) (auto simp: consume_wf pump_wf close_wf intro: writable_wf drained_wf drain_wf split: option.splits)

lemma conn_events_wf: "conn_wf c \<Longrightarrow> list_all event_ok evs \<Longrightarrow> conn_wf (foldl conn_step c evs)"
  by (induction evs arbitrary: c) (auto simp: conn_step_wf)

section \<open>Properties\<close>

text \<open>
  C20: Every connection is well-formed after any sequence of reads, writes, turns of the pump,
  drains and hang-ups: the write position lies in the output, the input is within its caps, nothing is
  queued before the handshake, a replica id is non-empty UTF-8, positions fit 64 bits, and
  a snapshot's cursor lies in its buffer, which is empty while it is being serialized.
\<close>

theorem connections_well_formed:
  assumes "list_all event_ok evs"
  shows "conn_wf (foldl conn_step conn_new evs)"
  by (rule conn_events_wf [OF _ assms]) (simp add: conn_new_def conn_wf_def)

theorem connections_well_formed_witness:
  "conn_wf (foldl conn_step conn_new
     [Readable 7 [] 0 (ascii ''REPL''), Writable [Would_block], Pump 0 True Empty \<lparr>fs_generation = 7,
        fs_source = \<lparr>rs_next_offset = 0, rs_bytes_in_buf = 0, rs_max_bytes = 9, rs_buf = []\<rparr>\<rparr>, Hangup])"
  by (rule connections_well_formed) (simp add: feed_bounded_def u64_max_def)

text \<open>
  C19: The handshake round trip. A replica's request, arriving in any pieces at a new connection
  and within the input cap, is understood: the connection holds the replica's id, offset and
  generation, the reply is a line the replica parses back to the feed's generation and its
  own offset, and once the reply is flushed the link streams from there.
\<close>

theorem handshake_roundtrip:
  assumes "fp_generation start \<le> u64_max" "fp_offset start \<le> u64_max" "feed_gen \<le> u64_max" "rid \<noteq> []" "utf8_valid rid"
    and "length (encode_replicate_from start rid) \<le> handshake_max_input" "concat chunks = encode_replicate_from start rid"
  shows "\<exists>c. foldl (consume_step feed_gen now) (conn_new, slots) chunks = (c, slots) \<and>
    cn_state c = Ack_sent rid (fp_offset start) (fp_generation start) \<and> cn_input c = [] \<and>
    parse_ack_line (cn_output c) = Ok (feed_position_new feed_gen (fp_offset start)) \<and>
    drained c = conn_new\<lparr>cn_state := Streaming rid (fp_offset start) (fp_generation start)\<rparr>"
proof -
  have "length rid < length (encode_replicate_from start rid)"
    by (simp add: encode_replicate_command encode_command_frame replicate_args_def bulk_frame_def)
  then have rid: "length rid < 4096" using assms(6) by (simp add: handshake_max_input_def)
  have "sendable (replicate_args start rid)"
    using rid dec_digits_20 [OF assms(1)] dec_digits_20 [OF assms(2)]
    by (simp add: sendable_def replicate_args_def max_multibulk_len_def max_bulk_len_def)
  moreover note handshake_parse_args [OF assms(1,2,4,5) rid]
  moreover have "encode_command [] (replicate_args start rid) \<noteq> []" by (simp add: encode_command_frame)
  moreover have "concat chunks \<noteq> []" "cn_input conn_new @ concat chunks = encode_command [] (replicate_args start rid)"
    using assms(7) by (simp_all add: encode_replicate_command encode_command_frame conn_new_def)
  ultimately have "foldl (consume_step feed_gen now) (conn_new, slots) chunks =
      (conn_new\<lparr>cn_input := [], cn_output := encode_ack (feed_position_new feed_gen (fp_offset start)), cn_write_off := 0,
         cn_state := Ack_sent rid (fp_offset start) (fp_generation start)\<rparr>, slots)"
    using assms(6) by (intro consume_handshake) (simp_all add: encode_replicate_command conn_new_def)
  moreover have "parse_ack_line (encode_ack (feed_position_new feed_gen (fp_offset start))) = Ok (feed_position_new feed_gen (fp_offset start))"
    using assms(2,3) by (intro parse_ack_encoded) (simp_all add: feed_position_new_def)
  ultimately show ?thesis by (simp add: drained_def conn_new_def)
qed

theorem handshake_roundtrip_witness:
  "\<exists>c. foldl (consume_step 7 0) (conn_new, []) [take 9 (encode_replicate_from (feed_position_new 7 5) [97]),
       drop 9 (encode_replicate_from (feed_position_new 7 5) [97])] = (c, []) \<and>
     parse_ack_line (cn_output c) = Ok (feed_position_new 7 5)"
proof -
  have "length (encode_replicate_from (feed_position_new 7 5) [97]) \<le> handshake_max_input"
    by (simp add: encode_replicate_from_def feed_position_new_def dec_digit handshake_max_input_def dec_digits.simps [of 9] ascii_def)
  from handshake_roundtrip [OF _ _ _ _ _ this, of 7 "[take 9 (encode_replicate_from (feed_position_new 7 5) [97]), drop 9 (encode_replicate_from (feed_position_new 7 5) [97])]" 0 "[]"]
  show ?thesis by (auto simp: feed_position_new_def u64_max_def)
qed

text \<open>
  C21: Acknowledgements reach the slot. When a streaming replica's increasing acknowledgements
  arrive in any pieces that fit the input cap, the connection ends up with an empty input and
  the replica's slot holds the last one, or what it held before if that is more.
\<close>

theorem acks_reach_slot:
  assumes "cn_state c = Streaming rid m h" "cn_input c = []" "distinct (map sl_id slots)"
    and "list_all (\<lambda>n. n \<le> u64_max) ns" "sorted ns" "ns \<noteq> []"
    and "list_all (\<lambda>bs. length bs + 64 \<le> streaming_input_discard_cap) chunks"
    and "concat chunks = concat (map encode_replconf_ack ns)"
  shows "\<exists>slots'. foldl (consume_step g now) (c, slots) chunks = (c, slots') \<and> distinct (map sl_id slots') \<and>
    acked_of slots' rid = max (acked_of slots rid) (last ns)"
proof -
  have "c\<lparr>cn_input := []\<rparr> = c" using assms(2) by (cases c) simp
  then show ?thesis
    using consume_acks [OF assms(1) _ assms(4,5) _ assms(7), of slots g now] assms(2,3,6,8)
    by (auto simp: part_of_def slots_ok_def)
qed

theorem acks_reach_slot_witness:
  "\<exists>slots'. foldl (consume_step 7 0) (conn_at 5 7, []) [encode_replconf_ack 3, encode_replconf_ack 4] = (conn_at 5 7, slots') \<and>
     acked_of slots' [97] = 4"
proof -
  have "length (encode_replconf_ack n) + 64 \<le> streaming_input_discard_cap" if "n < 10" for n
    using that by (simp add: encode_replconf_ack_def push_u64_dec dec_digit streaming_input_discard_cap_def)
  then show ?thesis
    using acks_reach_slot [of "conn_at 5 7" "[97]" 5 7 "[]" "[3, 4]" "[encode_replconf_ack 3, encode_replconf_ack 4]" 7 0]
    by (auto simp: conn_at_def u64_max_def acked_of_def slot_get_def)
qed

end
