(* ===== verification/Crc.thy ===== *)
theory Crc
  imports Swar
begin

text \<open>
  The checksums of kevy. CRC32C guards the records of the append-only file
  (\<open>kevy-persist/src/crc32c.rs\<close>), computed by the processor's instruction where there is one
  (\<open>kevy-sys/src/checksum.rs\<close>) and by eight tables otherwise. CRC16 and the hash tag map a key
  to its cluster slot (\<open>kevy-hash\<close>). The lemmas show that the fast routines compute the
  bit-serial checksum.
\<close>

type_synonym u16 = "16 word"
type_synonym u32 = "32 word"

section \<open>CRC32C\<close>

text \<open>One step of the bit-serial checksum, the inner loop of the table's construction.\<close>

definition crc_bit :: "u32 \<Rightarrow> u32" where
  "crc_bit crc = (if crc AND 1 \<noteq> 0 then drop_bit 1 crc XOR 0x82F63B78 else drop_bit 1 crc)"

definition crc32c_table0 :: "u32 list" where
  "crc32c_table0 = map (\<lambda>i. (crc_bit ^^ 8) (of_nat i)) [0..<256]"

definition crc32c_next_table :: "u32 list \<Rightarrow> u32 list" where
  "crc32c_next_table t = map (\<lambda>x. drop_bit 8 x XOR crc32c_table0 ! unat (x AND 0xFF)) t"

definition crc32c_tables :: "u32 list list" where
  "crc32c_tables = map (\<lambda>k. (crc32c_next_table ^^ k) crc32c_table0) [0..<8]"

text \<open>\<open>u32::from_le_bytes\<close>.\<close>

definition from_le_u32 :: "bytes \<Rightarrow> u32" where
  "from_le_u32 bs = foldr (\<lambda>b w. ucast b OR push_bit 8 w) bs 0"

text \<open>One chunk of eight bytes, and the bytes that remain after the chunks.\<close>

definition crc32c_chunk :: "u32 \<Rightarrow> bytes \<Rightarrow> u32" where
  "crc32c_chunk crc c =
     (let lo = from_le_u32 (take 4 c) XOR crc; hi = from_le_u32 (drop 4 c); t = (\<lambda>k x. crc32c_tables ! k ! unat x) in
      t 7 (lo AND 0xFF) XOR t 6 (drop_bit 8 lo AND 0xFF) XOR t 5 (drop_bit 16 lo AND 0xFF) XOR t 4 (drop_bit 24 lo) XOR
      t 3 (hi AND 0xFF) XOR t 2 (drop_bit 8 hi AND 0xFF) XOR t 1 (drop_bit 16 hi AND 0xFF) XOR t 0 (drop_bit 24 hi))"

definition crc32c_tail :: "u32 \<Rightarrow> u8 \<Rightarrow> u32" where
  "crc32c_tail crc b = drop_bit 8 crc XOR crc32c_tables ! 0 ! unat ((crc XOR ucast b) AND 0xFF)"

text \<open>\<open>slice::as_chunks\<close> with a step for a chunk and one for a byte of the tail.\<close>

function fold_chunks :: "nat \<Rightarrow> ('a \<Rightarrow> bytes \<Rightarrow> 'a) \<Rightarrow> ('a \<Rightarrow> u8 \<Rightarrow> 'a) \<Rightarrow> 'a \<Rightarrow> bytes \<Rightarrow> 'a" where
  "fold_chunks n chunk byte x bs =
     (if 0 < n \<and> n \<le> length bs then fold_chunks n chunk byte (chunk x (take n bs)) (drop n bs) else foldl byte x bs)"
  by pat_completeness auto
termination
  by (relation "measure (\<lambda>(n, chunk, byte, x, bs). length bs)") auto

declare fold_chunks.simps [simp del]

definition crc32c_sw :: "u32 \<Rightarrow> bytes \<Rightarrow> u32" where
  "crc32c_sw crc data = NOT (fold_chunks 8 crc32c_chunk crc32c_tail (NOT crc) data)"

text \<open>
  The instructions \<open>_mm_crc32_u8\<close>, \<open>__crc32cb\<close> and their 64-bit forms: the bit-serial step
  over each bit of the operand, from its lowest byte on.
\<close>

definition crc32c_u8 :: "u32 \<Rightarrow> u8 \<Rightarrow> u32" where
  "crc32c_u8 crc b = (crc_bit ^^ 8) (crc XOR ucast b)"

definition to_le_bytes :: "64 word \<Rightarrow> bytes" where
  "to_le_bytes w = map (\<lambda>i. ucast (drop_bit (8 * i) w)) [0..<8]"

definition crc32c_u64 :: "u32 \<Rightarrow> 64 word \<Rightarrow> u32" where
  "crc32c_u64 crc v = foldl crc32c_u8 crc (to_le_bytes v)"

definition crc32c_aarch64 :: "u32 \<Rightarrow> bytes \<Rightarrow> u32" where
  "crc32c_aarch64 crc data = NOT (fold_chunks 8 (\<lambda>crc c. crc32c_u64 crc (from_le_bytes c)) crc32c_u8 (NOT crc) data)"

text \<open>On x86 the running checksum is a \<open>u64\<close> through the chunks.\<close>

definition mm_crc32_u64 :: "64 word \<Rightarrow> 64 word \<Rightarrow> 64 word" where
  "mm_crc32_u64 crc v = ucast (crc32c_u64 (ucast crc) v)"

fun chunks8 :: "nat \<Rightarrow> bytes \<Rightarrow> bytes list" where
  "chunks8 0 bs = []"
| "chunks8 (Suc n) bs = take 8 bs # chunks8 n (drop 8 bs)"

definition crc32c_x86 :: "u32 \<Rightarrow> bytes \<Rightarrow> u32" where
  "crc32c_x86 crc data =
     (let n = length data div 8;
          wide = foldl (\<lambda>crc c. mm_crc32_u64 crc (from_le_bytes c)) (ucast (NOT crc)) (chunks8 n data)
      in NOT (foldl crc32c_u8 (ucast wide) (drop (8 * n) data)))"

datatype cpu = Aarch64_crc | X86_sse42 | No_crc

fun try_crc32c_hw_append :: "cpu \<Rightarrow> u32 \<Rightarrow> bytes \<Rightarrow> u32 option" where
  "try_crc32c_hw_append Aarch64_crc crc data = Some (crc32c_aarch64 crc data)"
| "try_crc32c_hw_append X86_sse42 crc data = Some (crc32c_x86 crc data)"
| "try_crc32c_hw_append No_crc crc data = None"

definition crc32c_append :: "cpu \<Rightarrow> u32 \<Rightarrow> bytes \<Rightarrow> u32" where
  "crc32c_append cpu crc data =
     (case try_crc32c_hw_append cpu crc data of Some c \<Rightarrow> c | None \<Rightarrow> crc32c_sw crc data)"

definition crc32c :: "cpu \<Rightarrow> bytes \<Rightarrow> u32" where
  "crc32c cpu data = crc32c_append cpu 0 data"

text \<open>The whole-buffer entry points of \<open>kevy-sys\<close>, with its own table routine.\<close>

definition try_crc32c_hw :: "cpu \<Rightarrow> bytes \<Rightarrow> u32 option" where
  "try_crc32c_hw cpu data = try_crc32c_hw_append cpu 0 data"

definition sys_crc32c_sw :: "bytes \<Rightarrow> u32" where
  "sys_crc32c_sw data = NOT (fold_chunks 8 crc32c_chunk crc32c_tail (NOT 0) data)"

definition sys_crc32c :: "cpu \<Rightarrow> bytes \<Rightarrow> u32" where
  "sys_crc32c cpu data = (case try_crc32c_hw cpu data of Some c \<Rightarrow> c | None \<Rightarrow> sys_crc32c_sw data)"

section \<open>The bit-serial step is linear\<close>

lemma low_bit: "x AND 1 \<noteq> 0 \<longleftrightarrow> bit x 0" for x :: "'a::len word"
  by (simp add: and_one_eq bit_0 even_iff_mod_2_eq_zero)

lemma crc_bit_xor: "crc_bit (x XOR y) = crc_bit x XOR crc_bit y"
  unfolding crc_bit_def low_bit bit_xor_iff by (auto simp: drop_bit_xor ac_simps xor.left_commute)

lemma crc_bits_xor: "(crc_bit ^^ n) (x XOR y) = (crc_bit ^^ n) x XOR (crc_bit ^^ n) y"
  by (induction n) (simp_all add: crc_bit_xor)

text \<open>Zero bits are shifted out.\<close>

lemma crc_bits_zeros: "take_bit n x = 0 \<Longrightarrow> (crc_bit ^^ n) x = drop_bit n x"
proof (induction n)
  case (Suc n)
  have z: "\<not> bit x i" if "i < Suc n" for i
    using Suc.prems that by (metis bit_0_eq bit_take_bit_iff bot_apply bot_bool_def)
  then have "take_bit n x = 0" by (intro bit_eqI) (auto simp: bit_take_bit_iff)
  then have "(crc_bit ^^ n) x = drop_bit n x" by (rule Suc.IH)
  then have "(crc_bit ^^ Suc n) x = crc_bit (drop_bit n x)" by simp
  then show ?case using z [of n] unfolding crc_bit_def low_bit by (simp add: bit_drop_bit_eq drop_bit_drop_bit)
qed simp

lemma crc_bits_push:
  assumes low: "\<And>i. bit x i \<Longrightarrow> i < 8" and "n \<le> 24"
  shows "(crc_bit ^^ n) (push_bit n x) = x"
proof -
  have "take_bit n (push_bit n x) = 0" by (rule bit_eqI) (auto simp: bit_simps)
  moreover have "bit (drop_bit n (push_bit n x)) i = bit x i" for i
    using assms(2) low [of i] by (cases "i < 8") (auto simp: bit_simps)
  then have "drop_bit n (push_bit n x) = x" by (intro bit_eqI) simp
  ultimately show ?thesis using crc_bits_zeros by metis
qed

lemma crc8_split: "(crc_bit ^^ 8) x = drop_bit 8 x XOR (crc_bit ^^ 8) (x AND 0xFF)"
proof -
  have m: "(0xFF :: u32) = mask 8" by (simp add: mask_eq_exp_minus_1)
  have "x = push_bit 8 (drop_bit 8 x) XOR (x AND 0xFF)"
    unfolding m by (rule bit_eqI) (auto simp: bit_simps)
  then have "(crc_bit ^^ 8) x = (crc_bit ^^ 8) (push_bit 8 (drop_bit 8 x)) XOR (crc_bit ^^ 8) (x AND 0xFF)"
    by (metis crc_bits_xor)
  moreover have "take_bit 8 (push_bit 8 (drop_bit 8 x)) = 0" by (rule bit_eqI) (auto simp: bit_simps)
  then have "(crc_bit ^^ 8) (push_bit 8 (drop_bit 8 x)) = drop_bit 8 (push_bit 8 (drop_bit 8 x))" by (rule crc_bits_zeros)
  moreover have "drop_bit 8 (push_bit 8 (drop_bit 8 x)) = drop_bit 8 x"
    by (rule bit_eqI) (auto simp: bit_simps dest: bit_imp_le_length)
  ultimately show ?thesis by simp
qed

section \<open>Tables\<close>

abbreviation crc_bytes :: "nat \<Rightarrow> u32 \<Rightarrow> u32" where
  "crc_bytes k \<equiv> crc_bit ^^ (8 * k)"

lemma crc_bytes_add: "crc_bytes j (crc_bytes k x) = crc_bytes (j + k) x"
  by (simp add: funpow_add distrib_left)

lemma crc_bytes_1: "crc_bytes 1 x = (crc_bit ^^ 8) x"
  by simp

lemma byte_index: "unat (x AND 0xFF) < 256" for x :: u32
proof -
  have "x AND 0xFF \<le> 0xFF" by (rule word_and_le1)
  then show ?thesis by (simp add: word_le_nat_alt)
qed

lemma table0_at: "n < 256 \<Longrightarrow> crc32c_table0 ! n = crc_bytes 1 (of_nat n)"
  by (simp add: crc32c_table0_def)

lemma table0_byte: "crc32c_table0 ! unat (x AND 0xFF) = crc_bytes 1 (x AND 0xFF)"
  using table0_at [OF byte_index] by simp

lemma length_next_tables: "length ((crc32c_next_table ^^ k) crc32c_table0) = 256"
  by (induction k) (simp_all add: crc32c_table0_def crc32c_next_table_def)

lemma next_tables_at: "n < 256 \<Longrightarrow> (crc32c_next_table ^^ k) crc32c_table0 ! n = crc_bytes (Suc k) (of_nat n)"
proof (induction k)
  case 0
  then show ?case using table0_at by simp
next
  case (Suc k)
  let ?t = "(crc32c_next_table ^^ k) crc32c_table0"
  have "(crc32c_next_table ^^ Suc k) crc32c_table0 ! n = drop_bit 8 (?t ! n) XOR crc32c_table0 ! unat (?t ! n AND 0xFF)"
    using Suc.prems length_next_tables [of k] by (simp add: crc32c_next_table_def)
  also have "\<dots> = crc_bytes 1 (?t ! n)" unfolding table0_byte crc_bytes_1 by (rule crc8_split [symmetric])
  also have "\<dots> = crc_bytes (1 + Suc k) (of_nat n)" unfolding Suc.IH [OF Suc.prems] by (rule crc_bytes_add)
  finally show ?case by (simp only: plus_1_eq_Suc)
qed

lemma tables_at: "k < 8 \<Longrightarrow> n < 256 \<Longrightarrow> crc32c_tables ! k ! n = crc_bytes (Suc k) (of_nat n)"
  using next_tables_at by (simp add: crc32c_tables_def)

lemma tables_word: "k < 8 \<Longrightarrow> unat x < 256 \<Longrightarrow> crc32c_tables ! k ! unat x = crc_bytes (Suc k) x"
  using tables_at [of k "unat x"] by simp

section \<open>The table step and the instructions compute the same\<close>

lemma crc32c_tail_u8: "crc32c_tail crc b = crc32c_u8 crc b"
proof -
  have "drop_bit 8 (crc XOR ucast b) = drop_bit 8 crc"
    by (rule bit_eqI) (auto simp: bit_simps dest: bit_imp_le_length)
  then show ?thesis
    using crc8_split [of "crc XOR ucast b"] tables_word [of 0 "(crc XOR ucast b) AND 0xFF"] byte_index
    by (simp add: crc32c_tail_def crc32c_u8_def)
qed

lemma crc_shift_in:
  assumes "k \<le> 3"
  shows "crc32c_u8 (crc_bytes k x) b = crc_bytes (Suc k) (x XOR push_bit (8 * k) (ucast b))"
proof -
  have "crc_bytes k (push_bit (8 * k) (ucast b)) = ucast b"
    using assms by (intro crc_bits_push) (auto simp: bit_simps dest: bit_imp_le_length)
  then have "crc_bytes k x XOR ucast b = crc_bytes k (x XOR push_bit (8 * k) (ucast b))" by (simp add: crc_bits_xor)
  then show ?thesis by (simp add: crc32c_u8_def funpow_add)
qed

lemma crc_bytes_split: "crc_bytes (Suc j) x = crc_bytes (Suc j) (x AND 0xFF) XOR crc_bytes j (drop_bit 8 x)"
proof -
  have "crc_bytes (j + 1) x = crc_bytes j (crc_bytes 1 x)" by (rule crc_bytes_add [symmetric])
  also have "\<dots> = crc_bytes j (drop_bit 8 x XOR crc_bytes 1 (x AND 0xFF))"
    unfolding crc_bytes_1 by (rule arg_cong [OF crc8_split])
  also have "\<dots> = crc_bytes j (drop_bit 8 x) XOR crc_bytes (j + 1) (x AND 0xFF)"
    by (simp only: crc_bits_xor crc_bytes_add)
  finally show ?thesis by (simp only: Suc_eq_plus1 xor.commute)
qed

lemma top_byte: "unat (drop_bit 24 x) < 256" for x :: u32
proof -
  have "unat x < 2 ^ 32" using unsigned_less [of x] by simp
  then show ?thesis by (simp add: drop_bit_eq_div unat_div less_mult_imp_div_less)
qed

lemma tables_of_word:
  assumes "k < 5"
  shows "crc32c_tables ! (k + 3) ! unat (x AND 0xFF) XOR crc32c_tables ! (k + 2) ! unat (drop_bit 8 x AND 0xFF) XOR
    crc32c_tables ! (k + 1) ! unat (drop_bit 16 x AND 0xFF) XOR crc32c_tables ! k ! unat (drop_bit 24 x) =
    crc_bytes (k + 4) x"
proof -
  have "crc_bytes (k + 4) x = crc_bytes (Suc (k + 3)) (x AND 0xFF) XOR (crc_bytes (Suc (k + 2)) (drop_bit 8 x AND 0xFF) XOR
    (crc_bytes (Suc (k + 1)) (drop_bit 16 x AND 0xFF) XOR crc_bytes (Suc k) (drop_bit 24 x)))"
    using crc_bytes_split [of "k + 3" x] crc_bytes_split [of "k + 2" "drop_bit 8 x"]
      crc_bytes_split [of "k + 1" "drop_bit 16 x"]
    by (simp del: funpow.simps mult_Suc_right add: numeral_eq_Suc)
  then show ?thesis using assms by (simp only: tables_word byte_index top_byte xor.assoc)
qed

lemma crc_four_bytes:
  "foldl crc32c_u8 crc [b0, b1, b2, b3] = crc_bytes 4 (from_le_u32 [b0, b1, b2, b3] XOR crc)"
proof -
  have "foldl crc32c_u8 crc [b0, b1, b2, b3] = crc_bytes (Suc 3)
    (crc XOR ucast b0 XOR push_bit 8 (ucast b1) XOR push_bit 16 (ucast b2) XOR push_bit 24 (ucast b3))"
    using crc_shift_in [of 0 crc b0] crc_shift_in [of 1 _ b1] crc_shift_in [of 2 _ b2] crc_shift_in [of 3 _ b3]
    by (simp add: numeral_eq_Suc xor.assoc del: funpow.simps mult_Suc_right)
  moreover have "from_le_u32 [b0, b1, b2, b3] =
    ucast b0 XOR push_bit 8 (ucast b1) XOR push_bit 16 (ucast b2) XOR push_bit 24 (ucast b3)"
    by (rule bit_eqI) (auto simp: from_le_u32_def bit_simps dest: bit_imp_le_length)
  ultimately show ?thesis by (simp add: ac_simps)
qed

lemma crc32c_chunk_u8:
  assumes "length c = 8"
  shows "crc32c_chunk crc c = foldl crc32c_u8 crc c"
proof -
  obtain b0 b1 b2 b3 b4 b5 b6 b7 where c: "c = [b0, b1, b2, b3, b4, b5, b6, b7]"
    using assms by (auto simp: numeral_eq_Suc length_Suc_conv)
  let ?lo = "from_le_u32 [b0, b1, b2, b3]" and ?hi = "from_le_u32 [b4, b5, b6, b7]"
  have "crc32c_chunk crc c = crc_bytes (4 + 4) (?lo XOR crc) XOR crc_bytes (0 + 4) ?hi"
    using arg_cong2 [OF tables_of_word [of 4 "?lo XOR crc"] tables_of_word [of 0 ?hi], of "(XOR)"]
    by (simp add: c crc32c_chunk_def Let_def xor.assoc numeral_2_eq_2)
  also have "\<dots> = crc_bytes 4 (?hi XOR crc_bytes 4 (?lo XOR crc))"
    by (simp only: crc_bits_xor crc_bytes_add xor.commute add_0)
  also have "\<dots> = foldl crc32c_u8 (foldl crc32c_u8 crc [b0, b1, b2, b3]) [b4, b5, b6, b7]"
    by (simp only: crc_four_bytes)
  finally show ?thesis by (simp add: c)
qed

lemma to_le_from_le:
  assumes "length c = 8"
  shows "to_le_bytes (from_le_bytes c) = c"
proof (rule nth_equalityI)
  fix i assume "i < length (to_le_bytes (from_le_bytes c))"
  then have i: "i < 8" by (simp add: to_le_bytes_def)
  have "ucast (drop_bit (8 * i) (from_le_bytes c)) = c ! i"
  proof (rule bit_word_eqI)
    fix j assume "j < LENGTH(8)"
    then have "bit (from_le_bytes c) (8 * i + j) = bit (uint (c ! i)) j"
      using assms i by (simp add: bit_word_uint uint_from_le_bytes bit_le_int)
    then show "bit (ucast (drop_bit (8 * i) (from_le_bytes c)) :: u8) j = bit (c ! i) j"
      using \<open>j < LENGTH(8)\<close> assms i by (simp add: bit_simps)
  qed
  then show "to_le_bytes (from_le_bytes c) ! i = c ! i" using i by (simp add: to_le_bytes_def)
qed (use assms in \<open>simp add: to_le_bytes_def\<close>)

lemma fold_chunks_bytes:
  assumes "\<And>x c. length c = n \<Longrightarrow> chunk x c = foldl byte x c"
  shows "fold_chunks n chunk byte x bs = foldl byte x bs"
  using assms
proof (induction n chunk byte x bs rule: fold_chunks.induct)
  case (1 n chunk byte x bs)
  show ?case
  proof (cases "0 < n \<and> n \<le> length bs")
    case True
    then have "fold_chunks n chunk byte x bs = foldl byte (foldl byte x (take n bs)) (drop n bs)"
      using 1 by (subst fold_chunks.simps) simp
    then show ?thesis by (simp flip: foldl_append)
  next
    case False
    then show ?thesis by (subst fold_chunks.simps) (simp only: if_False)
  qed
qed

definition crc32c_serial :: "u32 \<Rightarrow> bytes \<Rightarrow> u32" where
  "crc32c_serial crc data = NOT (foldl crc32c_u8 (NOT crc) data)"

lemma crc32c_sw_serial: "crc32c_sw crc data = crc32c_serial crc data"
  unfolding crc32c_sw_def crc32c_serial_def ext [OF ext [OF crc32c_tail_u8]]
  by (simp add: fold_chunks_bytes crc32c_chunk_u8 crc32c_tail_u8)

lemma crc32c_aarch64_serial: "crc32c_aarch64 crc data = crc32c_serial crc data"
  by (simp add: crc32c_aarch64_def crc32c_serial_def fold_chunks_bytes crc32c_u64_def to_le_from_le)

lemma widen_narrow: "ucast (ucast x :: 64 word) = x" for x :: u32
  by (rule bit_word_eqI) (simp add: bit_simps)

lemma x86_chunks:
  assumes "8 * n \<le> length bs"
  shows "foldl (\<lambda>crc c. mm_crc32_u64 crc (from_le_bytes c)) (ucast x) (chunks8 n bs) =
    ucast (foldl crc32c_u8 x (take (8 * n) bs))"
  using assms
proof (induction n arbitrary: x bs)
  case (Suc n)
  have "mm_crc32_u64 (ucast x) (from_le_bytes (take 8 bs)) = ucast (foldl crc32c_u8 x (take 8 bs))"
    using Suc.prems by (simp add: mm_crc32_u64_def crc32c_u64_def to_le_from_le widen_narrow)
  moreover have "take (8 * Suc n) bs = take 8 bs @ take (8 * n) (drop 8 bs)" by (simp flip: take_add)
  moreover have "8 * n \<le> length (drop 8 bs)" using Suc.prems by simp
  ultimately show ?case using Suc.IH by (simp del: mult_Suc_right length_drop)
qed simp

lemma crc32c_x86_serial: "crc32c_x86 crc data = crc32c_serial crc data"
proof -
  let ?n = "8 * (length data div 8)"
  have "foldl crc32c_u8 (NOT crc) data = foldl crc32c_u8 (foldl crc32c_u8 (NOT crc) (take ?n data)) (drop ?n data)"
    by (simp flip: foldl_append)
  then show ?thesis by (simp add: crc32c_x86_def crc32c_serial_def x86_chunks Let_def widen_narrow)
qed

lemma crc32c_append_serial: "crc32c_append cpu crc data = crc32c_serial crc data"
  by (cases cpu) (simp_all add: crc32c_append_def crc32c_sw_serial crc32c_aarch64_serial crc32c_x86_serial)

lemma sys_crc32c_serial: "sys_crc32c cpu data = crc32c_serial 0 data"
proof -
  have "sys_crc32c_sw data = crc32c_sw 0 data" by (simp add: sys_crc32c_sw_def crc32c_sw_def)
  then show ?thesis using crc32c_append_serial [of cpu 0 data]
    by (simp add: sys_crc32c_def try_crc32c_hw_def crc32c_append_def split: option.splits)
qed

text \<open>
  C39: The three implementations of CRC32C, by the eight tables, by the aarch64 instructions and by
  the SSE4.2 instructions, all compute the bit-serial checksum, so do the whole-buffer entry points,
  and a checksum carried over two pieces of data, on any mix of processors, is the checksum of the
  concatenation.
\<close>

theorem crc32c_paths_agree:
  "crc32c_sw crc data = crc32c_serial crc data \<and> crc32c_aarch64 crc data = crc32c_serial crc data \<and>
   crc32c_x86 crc data = crc32c_serial crc data \<and> sys_crc32c cpu data = crc32c_serial 0 data \<and>
   crc32c_append cpu (crc32c_append cpu' crc data) more_data = crc32c_append cpu'' crc (data @ more_data)"
  by (simp add: crc32c_sw_serial crc32c_aarch64_serial crc32c_x86_serial crc32c_append_serial sys_crc32c_serial)
    (simp add: crc32c_serial_def)

section \<open>What a checksum detects\<close>

lemma crc_bit_zero: "crc_bit x = 0 \<longleftrightarrow> x = 0"
proof
  assume z: "crc_bit x = 0"
  have "bit (drop_bit 1 x XOR 0x82F63B78 :: u32) 31"
    by (simp add: bit_simps) (auto dest: bit_imp_le_length)
  then have "\<not> bit x 0" using z by (auto simp: crc_bit_def low_bit split: if_splits)
  then have low: "\<not> bit x 0" and "drop_bit 1 x = 0" using z by (auto simp: crc_bit_def low_bit)
  have "\<not> bit x n" for n
  proof (cases n)
    case (Suc k)
    then show ?thesis using arg_cong [OF \<open>drop_bit 1 x = 0\<close>, of "\<lambda>w. bit w k"] by (simp add: bit_simps)
  qed (use low in simp)
  then show "x = 0" by (intro bit_eqI) simp
qed (simp add: crc_bit_def)

lemma xor_right_inj: "a XOR c = b XOR c \<longleftrightarrow> a = b" for a b c :: "'a::len word"
proof
  assume "a XOR c = b XOR c"
  then have "(a XOR c) XOR c = (b XOR c) XOR c" by simp
  then show "a = b" by (simp only: xor.assoc xor_self_eq xor.right_neutral)
qed simp

lemma xor_zero_iff: "a XOR b = 0 \<longleftrightarrow> a = b" for a b :: "'a::len word"
  using xor_right_inj [of a b b] by simp

lemma crc_bits_inj: "(crc_bit ^^ n) x = (crc_bit ^^ n) y \<longleftrightarrow> x = y"
proof -
  have "(crc_bit ^^ n) z = 0 \<longleftrightarrow> z = 0" for z by (induction n) (simp_all add: crc_bit_zero)
  moreover have "(crc_bit ^^ n) x XOR (crc_bit ^^ n) y = (crc_bit ^^ n) (x XOR y)" by (simp add: crc_bits_xor)
  ultimately show ?thesis using xor_zero_iff by metis
qed

lemma crc_fold_inj: "foldl crc32c_u8 x bs = foldl crc32c_u8 y bs \<longleftrightarrow> x = y"
  by (induction bs arbitrary: x y) (simp_all add: crc32c_u8_def crc_bits_inj xor_right_inj)

lemma from_le_u32_byte:
  assumes "length bs \<le> 4" "k < length bs" "i < 8"
  shows "bit (from_le_u32 bs) (8 * k + i) = bit (bs ! k) i"
  using assms
proof (induction bs arbitrary: k)
  case (Cons b bs)
  have "from_le_u32 (b # bs) = ucast b OR push_bit 8 (from_le_u32 bs)" by (simp add: from_le_u32_def)
  then show ?case using Cons by (cases k) (auto simp: bit_simps dest: bit_imp_le_length)
qed simp

lemma from_le_u32_inj:
  assumes "from_le_u32 a = from_le_u32 b" "length a \<le> 4" "length b = length a"
  shows "a = b"
proof (rule nth_equalityI)
  fix k assume "k < length a"
  then show "a ! k = b ! k"
    using assms from_le_u32_byte [of a k] from_le_u32_byte [of b k] by (intro bit_word_eqI) simp
qed (use assms in simp)

lemma crc_fold_burst:
  assumes "length a = 4" "length b = 4" "foldl crc32c_u8 x a = foldl crc32c_u8 x b"
  shows "a = b"
proof -
  have four: "foldl crc32c_u8 x c = crc_bytes 4 (from_le_u32 c XOR x)" if "length c = 4" for c
    using that crc_four_bytes by (auto simp: numeral_eq_Suc length_Suc_conv)
  show ?thesis using assms four from_le_u32_inj [of a b] by (simp add: crc_bits_inj xor_right_inj)
qed

lemma crc32c_serial_burst:
  assumes "length a = length b" "length a \<le> 4"
    and "crc32c_serial crc (pre @ a @ post) = crc32c_serial crc (pre @ b @ post)"
  shows "a = b"
proof -
  let ?x = "foldl crc32c_u8 (NOT crc) pre" and ?z = "replicate (4 - length a) 0"
  have "foldl crc32c_u8 ?x a = foldl crc32c_u8 ?x b"
    using assms(3) by (simp add: crc32c_serial_def crc_fold_inj)
  then have "a @ ?z = b @ ?z" using assms(1,2) by (intro crc_fold_burst [of _ _ ?x]) simp_all
  then show ?thesis by simp
qed

end
