(* ===== verification/Key_Slot.thy ===== *)
theory Key_Slot
  imports Crc
begin

text \<open>
  The cluster slot of a key: \<open>kevy-hash/src/crc16.rs\<close> and \<open>kevy-hash/src/hashtag.rs\<close>. The
  four-table CRC16 is shown to be the bit-serial one and the word-at-a-time brace search the
  plain search, so that a slot is what the cluster specification says.
\<close>

section \<open>CRC16\<close>

definition crc16_bit :: "u16 \<Rightarrow> u16" where
  "crc16_bit crc = (if crc AND 0x8000 \<noteq> 0 then push_bit 1 crc XOR 0x1021 else push_bit 1 crc)"

definition make_table :: "u16 list" where
  "make_table = map (\<lambda>i. (crc16_bit ^^ 8) (push_bit 8 (of_nat i))) [0..<256]"

definition next_table :: "u16 list \<Rightarrow> u16 list" where
  "next_table prev = map (\<lambda>x. push_bit 8 x XOR make_table ! unat (drop_bit 8 x)) prev"

text \<open>\<open>TABLE\<close>, \<open>TABLE1\<close>, \<open>TABLE2\<close> and \<open>TABLE3\<close>, indexed by a byte.\<close>

definition crc16_table :: "nat \<Rightarrow> u8 \<Rightarrow> u16" where
  "crc16_table k b = (next_table ^^ k) make_table ! unat b"

definition crc16_chunk :: "u16 \<Rightarrow> bytes \<Rightarrow> u16" where
  "crc16_chunk crc c =
     crc16_table 3 (ucast (drop_bit 8 crc) XOR c ! 0) XOR crc16_table 2 (ucast crc XOR c ! 1) XOR
     crc16_table 1 (c ! 2) XOR crc16_table 0 (c ! 3)"

definition crc16_byte :: "u16 \<Rightarrow> u8 \<Rightarrow> u16" where
  "crc16_byte crc b = push_bit 8 crc XOR crc16_table 0 (ucast (drop_bit 8 crc) XOR b)"

definition crc16 :: "bytes \<Rightarrow> u16" where
  "crc16 bs = fold_chunks 4 crc16_chunk crc16_byte 0 bs"

section \<open>Hash tags\<close>

function find_from :: "bytes \<Rightarrow> 64 word \<Rightarrow> nat \<Rightarrow> nat option" where
  "find_from bs pat i =
     (if i + 8 \<le> length bs
      then case in_word (slice bs i (i + 8)) pat of Some p \<Rightarrow> Some (i + p) | None \<Rightarrow> find_from bs pat (i + 8)
      else if i < length bs
      then map_option (\<lambda>p. length bs - 8 + p) (in_word (drop (length bs - 8) bs) pat)
      else None)"
  by pat_completeness auto
termination
  by (relation "measure (\<lambda>(bs, pat, i). length bs - i)") auto

declare find_from.simps [simp del]

definition find_byte :: "bytes \<Rightarrow> u8 \<Rightarrow> nat option" where
  "find_byte bs b =
     (if length bs < 8 then position (\<lambda>c. c = b) bs else find_from bs (lanes_lo * ucast b) 0)"

definition hashtag :: "bytes \<Rightarrow> bytes option" where
  "hashtag key =
     (case (if key \<noteq> [] \<and> key ! 0 = 123 then Some 0 else find_byte key 123) of
        None \<Rightarrow> None
      | Some start \<Rightarrow>
          (let after = drop (start + 1) key in
           case position (\<lambda>b. b = 125) after of
             None \<Rightarrow> None
           | Some 0 \<Rightarrow> None
           | Some (Suc n) \<Rightarrow> Some (take (Suc n) after)))"

definition key_hash_slot :: "bytes \<Rightarrow> u16" where
  "key_hash_slot key = crc16 (case hashtag key of Some tag \<Rightarrow> tag | None \<Rightarrow> key) AND 0x3FFF"

section \<open>CRC16 by tables is the bit-serial one\<close>

lemma high_bit16: "x AND 0x8000 \<noteq> 0 \<longleftrightarrow> bit x 15" for x :: u16
proof -
  have "bit (2 ^ 15 :: u16) n \<longleftrightarrow> n = 15" for n by (auto simp only: bit_exp_iff possible_bit_word) simp
  then have b: "bit (x AND 2 ^ 15) n \<longleftrightarrow> n = 15 \<and> bit x n" for n
    by (auto simp only: bit_and_iff)
  have "x AND 2 ^ 15 = 0" if "\<not> bit x 15"
    using that by (intro bit_word_eqI) (auto simp only: b bit_0_eq bot_apply bot_bool_def)
  moreover have "\<not> bit x 15" if "x AND 2 ^ 15 = 0"
    using b [of 15] unfolding that by simp
  ultimately have "x AND 2 ^ 15 = 0 \<longleftrightarrow> \<not> bit x 15" by blast
  moreover have "(0x8000 :: u16) = 2 ^ 15" by simp
  ultimately show ?thesis by (simp only: not_not)
qed

lemma crc16_bit_xor: "crc16_bit (x XOR y) = crc16_bit x XOR crc16_bit y"
  unfolding crc16_bit_def high_bit16 bit_xor_iff push_bit_xor
  by (cases "bit x 15"; cases "bit y 15") (simp_all add: xor.assoc xor.left_commute xor.commute)

lemma crc16_bits_xor: "(crc16_bit ^^ n) (x XOR y) = (crc16_bit ^^ n) x XOR (crc16_bit ^^ n) y"
  by (induction n) (simp_all add: crc16_bit_xor)

lemma crc16_bits_low: "n \<le> 8 \<Longrightarrow> (crc16_bit ^^ n) (ucast (b :: u8)) = push_bit n (ucast b)"
proof (induction n)
  case (Suc n)
  have "\<not> bit (push_bit n (ucast b :: u16)) 15"
    using Suc.prems by (auto simp: bit_simps dest: bit_imp_le_length)
  then show ?case using Suc unfolding funpow.simps o_def crc16_bit_def high_bit16 by simp
qed simp

lemma word_halves: "x = push_bit 8 (ucast (ucast (drop_bit 8 x) :: u8)) XOR ucast (ucast x :: u8)" for x :: u16
  by (rule bit_eqI) (auto simp: bit_simps)

abbreviation crc16_bytes :: "nat \<Rightarrow> u16 \<Rightarrow> u16" where
  "crc16_bytes k \<equiv> crc16_bit ^^ (8 * k)"

lemma crc16_bytes_Suc: "crc16_bytes (Suc k) x = crc16_bytes k ((crc16_bit ^^ 8) x)"
  by (simp only: mult_Suc_right add.commute [of 8] funpow_add o_apply)

lemma byte_push: "push_bit 8 (ucast (b :: u8)) = (push_bit 8 (of_nat (unat b)) :: u16)"
  by (simp only: of_nat_unat)

lemma crc16_table_0: "crc16_table 0 b = (crc16_bit ^^ 8) (push_bit 8 (ucast b))"
proof -
  have "unat b < 256" using unsigned_less [of b] by simp
  then show ?thesis by (simp add: crc16_table_def make_table_def byte_push del: of_nat_unat)
qed

lemma high_byte: "unat (ucast (drop_bit 8 x) :: u8) = unat (drop_bit 8 x)" for x :: u16
proof -
  have "unat x < 2 ^ 16" using unsigned_less [of x] by simp
  then have "unat (drop_bit 8 x) < 2 ^ 8" by (simp add: drop_bit_eq_div unat_div less_mult_imp_div_less)
  then show ?thesis unfolding unsigned_ucast_eq by (intro take_bit_nat_eq_self) simp
qed

lemma crc16_step: "push_bit 8 x XOR make_table ! unat (drop_bit 8 x) = (crc16_bit ^^ 8) x"
proof -
  have "(crc16_bit ^^ 8) x = (crc16_bit ^^ 8) (push_bit 8 (ucast (ucast (drop_bit 8 x) :: u8)) XOR ucast (ucast x :: u8))"
    by (rule arg_cong [OF word_halves])
  also have "\<dots> = crc16_table 0 (ucast (drop_bit 8 x)) XOR push_bit 8 (ucast (ucast x :: u8))"
    by (simp only: crc16_bits_xor crc16_table_0 crc16_bits_low order_refl)
  also have "push_bit 8 (ucast (ucast x :: u8)) = push_bit 8 x" by (rule bit_eqI) (auto simp: bit_simps)
  finally show ?thesis by (simp only: crc16_table_def high_byte funpow_0 xor.commute)
qed

lemma crc16_tables_length: "length ((next_table ^^ k) make_table) = 256"
  by (induction k) (simp_all add: make_table_def next_table_def)

lemma crc16_table_eq: "crc16_table k b = crc16_bytes (Suc k) (push_bit 8 (ucast b))"
proof (induction k)
  case 0
  show ?case using crc16_table_0 by simp
next
  case (Suc k)
  have "unat b < 256" using unsigned_less [of b] by simp
  then have "crc16_table (Suc k) b = push_bit 8 (crc16_table k b) XOR make_table ! unat (drop_bit 8 (crc16_table k b))"
    using crc16_tables_length [of k] by (simp add: crc16_table_def next_table_def)
  also have "\<dots> = (crc16_bit ^^ 8) (crc16_bytes (Suc k) (push_bit 8 (ucast b)))"
    unfolding crc16_step Suc.IH ..
  finally show ?case by (simp only: mult_Suc_right funpow_add o_apply)
qed

text \<open>The bit-serial CRC16 of a byte sequence, most significant bit first.\<close>

definition crc16_serial_byte :: "u16 \<Rightarrow> u8 \<Rightarrow> u16" where
  "crc16_serial_byte crc b = (crc16_bit ^^ 8) (crc XOR push_bit 8 (ucast b))"

definition crc16_serial :: "bytes \<Rightarrow> u16" where
  "crc16_serial bs = foldl crc16_serial_byte 0 bs"

lemma crc16_in_high: "push_bit 8 (ucast (ucast (drop_bit 8 crc) XOR b)) XOR ucast (ucast crc :: u8) =
  crc XOR push_bit 8 (ucast b)" for crc :: u16 and b :: u8
  by (rule bit_eqI) (auto simp: bit_simps)

lemma crc16_byte_serial: "crc16_byte crc b = crc16_serial_byte crc b"
proof -
  have "crc16_serial_byte crc b = (crc16_bit ^^ 8) (push_bit 8 (ucast (ucast (drop_bit 8 crc) XOR b)) XOR ucast (ucast crc :: u8))"
    unfolding crc16_serial_byte_def crc16_in_high ..
  also have "\<dots> = crc16_table 0 (ucast (drop_bit 8 crc) XOR b) XOR push_bit 8 (ucast (ucast crc :: u8))"
    by (simp only: crc16_bits_xor crc16_table_0 crc16_bits_low order_refl)
  also have "push_bit 8 (ucast (ucast crc :: u8)) = push_bit 8 crc" by (rule bit_eqI) (auto simp: bit_simps)
  finally show ?thesis by (simp only: crc16_byte_def xor.commute)
qed

lemma crc16_chunk_serial:
  assumes "length c = 4"
  shows "crc16_chunk crc c = foldl crc16_serial_byte crc c"
proof -
  obtain b0 b1 b2 b3 where c: "c = [b0, b1, b2, b3]" using assms by (auto simp: numeral_eq_Suc length_Suc_conv)
  let ?hi = "ucast (drop_bit 8 crc) XOR b0" and ?lo = "ucast crc :: u8" and ?p = "\<lambda>b :: u8. push_bit 8 (ucast b) :: u16"
  have step: "crc16_bytes (Suc k) (x XOR ucast ?lo) = crc16_bytes (Suc k) x XOR crc16_bytes k (?p ?lo)" for k x
    unfolding crc16_bytes_Suc [of k] crc16_bits_xor crc16_bits_low [OF order_refl] ..
  have "foldl crc16_serial_byte crc c =
    crc16_bytes 4 (crc XOR ?p b0) XOR crc16_bytes 3 (?p b1) XOR crc16_bytes 2 (?p b2) XOR crc16_bytes 1 (?p b3)"
    unfolding c by (simp add: crc16_serial_byte_def crc16_bits_xor xor.assoc flip: funpow_add [THEN fun_cong, unfolded o_apply])
  also have "crc16_bytes 4 (crc XOR ?p b0) = crc16_bytes (Suc 3) (?p ?hi XOR ucast ?lo)"
    unfolding crc16_in_high by simp
  also have "\<dots> = crc16_bytes 4 (?p ?hi) XOR crc16_bytes 3 (?p ?lo)" unfolding step by simp
  also have "(crc16_bytes 4 (?p ?hi) XOR crc16_bytes 3 (?p ?lo)) XOR crc16_bytes 3 (?p b1) XOR R =
    crc16_bytes 4 (?p ?hi) XOR crc16_bytes 3 (?p (?lo XOR b1)) XOR R" for R
    by (simp add: xor.assoc crc16_bits_xor push_bit_xor unsigned_xor_eq)
  finally show ?thesis
    unfolding c crc16_chunk_def crc16_table_eq by (simp del: funpow.simps mult_Suc_right add: numeral_eq_Suc)
qed

lemma crc16_serial_eq: "crc16 bs = crc16_serial bs"
  unfolding crc16_def crc16_serial_def ext [OF ext [OF crc16_byte_serial]]
  by (rule fold_chunks_bytes) (rule crc16_chunk_serial)

section \<open>The brace search is the plain search\<close>

lemma window_Some:
  assumes "position P (take 8 (drop k bs)) = Some p" "\<forall>j < k. \<not> P (bs ! j)" "k \<le> length bs"
  shows "position P bs = Some (k + p)"
proof -
  have p: "p < length (take 8 (drop k bs))" "P (bs ! (k + p))" "\<forall>j < p. \<not> P (bs ! (k + j))"
    using assms by (auto simp: position_eq_Some)
  have "\<not> P (bs ! j)" if "j < k + p" for j
  proof (cases "j < k")
    case False
    then show ?thesis using p(3) that by (metis le_add_diff_inverse nat_add_left_cancel_less not_less)
  qed (use assms(2) in simp)
  then show ?thesis using p by (auto simp: position_eq_Some)
qed

lemma window_None:
  assumes "position P (take 8 (drop k bs)) = None" "\<forall>j < k. \<not> P (bs ! j)" "k + 8 \<le> length bs" "j < k + 8"
  shows "\<not> P (bs ! j)"
proof (cases "j < k")
  case False
  then have "bs ! j = take 8 (drop k bs) ! (j - k)" "j - k < length (take 8 (drop k bs))" using assms by auto
  then have "bs ! j \<in> set (take 8 (drop k bs))" using nth_mem by metis
  then show ?thesis using assms(1) by (simp add: position_eq_None)
qed (use assms(2) in simp)

lemma find_from_position:
  assumes "8 \<le> length bs" "\<forall>j < i. bs ! j \<noteq> b" "i \<le> length bs"
  shows "find_from bs (lanes_lo * ucast b) i = position (\<lambda>c. c = b) bs"
  using assms
proof (induction bs "lanes_lo * ucast b :: 64 word" i rule: find_from.induct)
  case (1 bs i)
  have word: "in_word (take 8 (drop k bs)) (lanes_lo * ucast b) = position (\<lambda>c. c = b) (take 8 (drop k bs))"
    if "k + 8 \<le> length bs" for k using that by (intro in_word_position) simp
  consider "i + 8 \<le> length bs" | "\<not> i + 8 \<le> length bs" "i < length bs" | "i = length bs" using 1 by linarith
  then show ?case
  proof cases
    case 1
    then show ?thesis
      using "1.prems" "1.hyps" word [OF 1] window_Some [of "\<lambda>c. c = b" i bs] window_None [of "\<lambda>c. c = b" i bs]
      by (subst find_from.simps) (auto simp: slice_def split: option.splits)
  next
    case 2
    let ?k = "length bs - 8"
    have k: "?k + 8 \<le> length bs" "\<forall>j < ?k. bs ! j \<noteq> b" "take 8 (drop ?k bs) = drop ?k bs"
      using "1.prems" 2 by auto
    show ?thesis
    proof (cases "position (\<lambda>c. c = b) (drop ?k bs)")
      case None
      then have "\<forall>j < length bs. bs ! j \<noteq> b" using window_None [of "\<lambda>c. c = b" ?k bs] k "1.prems" by auto
      then have "position (\<lambda>c. c = b) bs = None" by (auto simp: position_eq_None in_set_conv_nth)
      then show ?thesis using 2 word [OF k(1)] k(3) None by (subst find_from.simps) simp
    next
      case (Some p)
      then show ?thesis using 2 word [OF k(1)] k window_Some [of "\<lambda>c. c = b" ?k bs p] by (subst find_from.simps) simp
    qed
  next
    case 3
    then have "position (\<lambda>c. c = b) bs = None" using "1.prems" by (auto simp: position_eq_None in_set_conv_nth)
    then show ?thesis using 3 by (subst find_from.simps) simp
  qed
qed

lemma find_byte_position: "find_byte bs b = position (\<lambda>c. c = b) bs"
  by (simp add: find_byte_def find_from_position)

section \<open>The slot of a key\<close>

text \<open>
  The cluster specification: the bytes between the first opening brace and the first closing
  brace after it, when there are both and something between them, and the whole key otherwise.
\<close>

definition hash_part :: "bytes \<Rightarrow> bytes" where
  "hash_part key =
     (let after = tl (dropWhile (\<lambda>b. b \<noteq> 123) key); tag = takeWhile (\<lambda>b. b \<noteq> 125) after
      in if 125 \<in> set after \<and> tag \<noteq> [] then tag else key)"

lemma position_takeWhile:
  "position (\<lambda>b. b = c) bs = (if c \<in> set bs then Some (length (takeWhile (\<lambda>b. b \<noteq> c) bs)) else None)"
  by (induction bs) auto

lemma hashtag_first: "(if key \<noteq> [] \<and> key ! 0 = 123 then Some 0 else find_byte key 123) = position (\<lambda>b. b = 123) key"
  by (cases key) (simp_all add: find_byte_position)

lemma after_brace: "drop (length (takeWhile (\<lambda>b. b \<noteq> c) bs) + 1) bs = tl (dropWhile (\<lambda>b. b \<noteq> c) bs)"
  by (induction bs) (auto simp: drop_Suc)

lemma hashtag_eq:
  "hashtag key =
     (let after = tl (dropWhile (\<lambda>b. b \<noteq> 123) key); tag = takeWhile (\<lambda>b. b \<noteq> 125) after
      in if 125 \<in> set after \<and> tag \<noteq> [] then Some tag else None)"
proof (cases "123 \<in> set key")
  case True
  have take_len: "take n xs = takeWhile P xs" if "length (takeWhile P xs) = n" for P n and xs :: bytes
    using that by (metis takeWhile_dropWhile_id append_eq_conv_conj)
  show ?thesis
    unfolding hashtag_def hashtag_first position_takeWhile
    using True by (auto simp: Let_def after_brace take_len simp flip: after_brace split: nat.split)
next
  case False
  then have "dropWhile (\<lambda>b. b \<noteq> 123) key = []" by (auto simp: dropWhile_eq_Nil_conv)
  then show ?thesis using False unfolding hashtag_def hashtag_first position_takeWhile
    by (simp del: dropWhile_eq_Nil_conv)
qed

lemma slot_hash_part: "key_hash_slot key = crc16_serial (hash_part key) AND 0x3FFF"
  by (simp add: key_hash_slot_def hashtag_eq hash_part_def crc16_serial_eq Let_def)

text \<open>
  C40: The slot of a key, computed with four tables at a time and a search of eight bytes at a
  time, is the one the cluster specification gives: the bit-serial CRC16 of the key's hash part
  modulo the 16384 slots.
\<close>

theorem key_slot_reference: "unat (key_hash_slot key) = unat (crc16_serial (hash_part key)) mod 16384"
proof -
  have "(0x3FFF :: u16) = mask 14" by (simp add: mask_eq_exp_minus_1)
  then show ?thesis unfolding slot_hash_part
    by (simp only: flip: take_bit_eq_mask) (simp add: take_bit_eq_mod unat_mod)
qed

text \<open>
  Keys that share a hash tag share a slot, whatever stands around the tag, and it is the slot
  of the tag taken as a key.
\<close>

lemma tagged_keys_colocate:
  assumes "123 \<notin> set pre" "125 \<notin> set tag" "tag \<noteq> []"
  shows "key_hash_slot (pre @ [123] @ tag @ [125] @ post) = key_hash_slot tag"
proof -
  have "dropWhile (\<lambda>b. b \<noteq> 123) (pre @ [123] @ tag @ [125] @ post) = [123] @ tag @ [125] @ post"
    using assms(1) by (induction pre) auto
  moreover have "takeWhile (\<lambda>b. b \<noteq> 125) (tag @ [125] @ post) = tag" using assms(2) by (induction tag) auto
  ultimately have "hash_part (pre @ [123] @ tag @ [125] @ post) = tag"
    using assms by (simp add: hash_part_def Let_def)
  moreover have "set (tl (dropWhile P tag)) \<subseteq> set tag" for P by (induction tag) auto
  then have "hash_part tag = tag"
    using assms(2) by (auto simp: hash_part_def Let_def)
  ultimately show ?thesis by (simp only: slot_hash_part)
qed

end
