(* ===== verification/Aof_Record.thy ===== *)
theory Aof_Record
  imports Resp_Command Crc
begin

text \<open>
  The records of the append-only file: \<open>kevy-persist/src/record.rs\<close> and
  \<open>record_pieces.rs\<close>. A record is a length, a checksum and one command in the RESP
  multibulk form. The lemmas give the round trip, what the reader says of a record that was cut
  or damaged, and that the piecewise writer emits the record without building it.
\<close>

section \<open>Writing\<close>

definition aof2_magic :: bytes where "aof2_magic = [75, 69, 86, 89, 65, 79, 70, 50, 10]"
definition aof_magic :: bytes where "aof_magic = [75, 69, 86, 89, 65, 79, 70, 49, 10]"

datatype aof_format = V1 | V2

definition record_header_len :: nat where "record_header_len = 8"
definition max_record :: nat where "max_record = 2 ^ 30"

text \<open>\<open>u32::to_le_bytes\<close>.\<close>

definition to_le_u32 :: "u32 \<Rightarrow> bytes" where
  "to_le_u32 w = map (\<lambda>i. ucast (drop_bit (8 * i) w)) [0..<4]"

text \<open>The checksum, on the portable build: every build computes the same.\<close>

definition checksum :: "bytes \<Rightarrow> u32" where
  "checksum data = crc32c No_crc data"

definition write_multibulk :: "bytes list \<Rightarrow> bytes" where
  "write_multibulk args =
     (42 # dec_digits (length args) @ crlf) @
     concat (map (\<lambda>a. (36 # dec_digits (length a) @ crlf) @ a @ crlf) args)"

definition write_record :: "bytes \<Rightarrow> bytes" where
  "write_record payload = to_le_u32 (of_nat (length payload)) @ to_le_u32 (checksum payload) @ payload"

definition write_record_multibulk :: "bytes list \<Rightarrow> bytes" where
  "write_record_multibulk args = write_record (write_multibulk args)"

text \<open>
  The piecewise writer: the pieces it hands to its sink, each a run of header bytes or an
  argument's own bytes. A run is collected in a fixed array of \<open>run_cap\<close> bytes.
\<close>

definition run_cap :: nat where "run_cap = 2 + 2 * (1 + 20 + 2)"

definition put_count :: "bytes \<Rightarrow> u8 \<Rightarrow> nat \<Rightarrow> bytes" where
  "put_count run tag count = run @ tag # header_digits count [] @ crlf"

fun pieces_from :: "bytes \<Rightarrow> bytes list \<Rightarrow> bytes list" where
  "pieces_from run [] = [run]"
| "pieces_from run (a # args) = put_count run 36 (length a) # a # pieces_from crlf args"

definition for_each_piece :: "bytes list \<Rightarrow> bytes list" where
  "for_each_piece args = pieces_from (put_count [] 42 (length args)) args"

definition record_header :: "bytes list \<Rightarrow> bytes" where
  "record_header args =
     (let (len, crc) = foldl (\<lambda>(len, crc) p. (len + length p, crc32c_append No_crc crc p)) (0, 0) (for_each_piece args)
      in to_le_u32 (of_nat len) @ to_le_u32 crc)"

text \<open>The buffers \<open>write_frame\<close> passes to \<open>write_all\<close>, in order.\<close>

definition write_frame :: "bytes option \<Rightarrow> bytes list \<Rightarrow> bytes list" where
  "write_frame head args = (case head of Some h \<Rightarrow> [h] | None \<Rightarrow> []) @ for_each_piece args"

section \<open>Reading\<close>

datatype record_step = Record (rec_payload: bytes) (rec_consumed: nat) | Truncated | Corrupt

definition next_record :: "bytes \<Rightarrow> nat \<Rightarrow> record_step" where
  "next_record buf pos =
     (let rest = drop pos buf in
      if rest = [] then Truncated
      else if length rest < record_header_len then Truncated
      else
        let len = unat (from_le_u32 (take 4 rest)) in
        if len = 0 \<or> len > max_record then Corrupt
        else
          let crc = from_le_u32 (take 4 (drop 4 rest)) in
          if length rest < record_header_len + len then Truncated
          else
            let payload = take len (drop record_header_len rest) in
            if checksum payload \<noteq> crc then Corrupt else Record payload (record_header_len + len))"

text \<open>A payload that holds exactly one command.\<close>

definition one_command :: "bytes \<Rightarrow> argv option" where
  "one_command payload =
     (case parse_command payload of
        Inr (Some (args, used)) \<Rightarrow> if used = length payload then Some args else None
      | _ \<Rightarrow> None)"

function resync_scan :: "bytes \<Rightarrow> nat \<Rightarrow> nat option" where
  "resync_scan buf q =
     (if q < length buf
      then case next_record buf q of
             Record payload consumed \<Rightarrow> if one_command payload \<noteq> None then Some q else resync_scan buf (q + 1)
           | _ \<Rightarrow> resync_scan buf (q + 1)
      else None)"
  by pat_completeness auto
termination
  by (relation "measure (\<lambda>(buf, q). length buf - q)") auto

declare resync_scan.simps [simp del]

section \<open>The header's integers\<close>

lemma length_to_le_u32 [simp]: "length (to_le_u32 w) = 4"
  by (simp add: to_le_u32_def)

lemma to_le_u32_nonempty [simp]: "to_le_u32 w \<noteq> []"
  by (simp add: to_le_u32_def)

lemma from_to_le_u32 [simp]: "from_le_u32 (to_le_u32 w) = w"
proof (rule bit_word_eqI)
  fix n assume "n < LENGTH(32)"
  then show "bit (from_le_u32 (to_le_u32 w)) n = bit w n"
    using from_le_u32_byte [of "to_le_u32 w" "n div 8" "n mod 8"] by (simp add: to_le_u32_def bit_simps)
qed

section \<open>Records come back\<close>

lemma length_write_record [simp]: "length (write_record p) = 8 + length p"
  by (simp add: write_record_def)

lemma max_record_u32: "n \<le> max_record \<Longrightarrow> unat (of_nat n :: u32) = n"
  by (simp add: max_record_def unsigned_of_nat take_bit_eq_mod)

text \<open>What the reader says of the bytes from some position on.\<close>

definition record_at :: "bytes \<Rightarrow> record_step" where
  "record_at rest = next_record rest 0"

lemma next_record_at: "next_record buf pos = record_at (drop pos buf)"
  by (simp add: record_at_def next_record_def)

lemma record_at_write:
  assumes "0 < length p" "length p \<le> max_record"
  shows "record_at (write_record p @ rest) = Record p (8 + length p)"
  using assms max_record_u32 [OF assms(2)]
  by (simp add: record_at_def next_record_def write_record_def record_header_len_def Let_def)

lemma record_at_cut:
  assumes "0 < length p" "length p \<le> max_record" "n < 8 + length p"
  shows "record_at (take n (write_record p)) = Truncated"
proof (cases "n < 8")
  case True
  then show ?thesis by (simp add: record_at_def next_record_def record_header_len_def Let_def)
next
  case False
  then have "take n (write_record p) = to_le_u32 (of_nat (length p)) @ to_le_u32 (checksum p) @ take (n - 8) p"
    by (simp add: write_record_def)
  then show ?thesis
    using assms False max_record_u32 [OF assms(2)]
    by (simp add: record_at_def next_record_def record_header_len_def Let_def)
qed

text \<open>A record whose payload changed is refused when the checksum sees the change.\<close>

lemma record_at_damaged:
  assumes "0 < length p" "length p \<le> max_record" "length q = length p" "checksum q \<noteq> checksum p"
  shows "record_at (take 8 (write_record p) @ q @ rest) = Corrupt"
proof -
  have "take 8 (write_record p) = to_le_u32 (of_nat (length p)) @ to_le_u32 (checksum p)"
    by (simp add: write_record_def)
  moreover have "q \<noteq> []" using assms(1,3) by auto
  ultimately show ?thesis
    using assms max_record_u32 [OF assms(2)]
    by (simp add: record_at_def next_record_def record_header_len_def Let_def)
qed

section \<open>The piecewise writer\<close>

lemma write_multibulk_eq: "write_multibulk args = encode_command [] args"
  by (simp add: write_multibulk_def encode_command_frame bulk_frame_def cong: map_cong)

lemma pieces_from_concat:
  "concat (pieces_from run args) =
     (if args = [] then run else run @ concat (map (\<lambda>a. (36 # dec_digits (length a) @ crlf) @ a @ crlf) args))"
  by (induction run args rule: pieces_from.induct) (auto simp: put_count_def header_digits_dec)

lemma for_each_piece_concat: "concat (for_each_piece args) = write_multibulk args"
  by (auto simp: for_each_piece_def pieces_from_concat put_count_def write_multibulk_def header_digits_dec)

lemma header_fold:
  "foldl (\<lambda>(len, crc) p. (len + length p, crc32c_append No_crc crc p)) (n, c) ps =
     (n + length (concat ps), crc32c_append No_crc c (concat ps))"
proof (induction ps arbitrary: n c)
  case (Cons p ps)
  have "crc32c_append No_crc (crc32c_append No_crc c p) (concat ps) = crc32c_append No_crc c (p @ concat ps)"
    by (simp add: crc32c_append_serial crc32c_serial_def)
  then show ?case using Cons by simp
qed (simp add: crc32c_append_serial crc32c_serial_def)

lemma record_header_eq:
  "record_header args = to_le_u32 (of_nat (length (write_multibulk args))) @ to_le_u32 (checksum (write_multibulk args))"
  by (simp add: record_header_def header_fold for_each_piece_concat checksum_def crc32c_def)

lemma write_frame_concat:
  "concat (write_frame (Some (record_header args)) args) = write_record_multibulk args"
  "concat (write_frame None args) = write_multibulk args"
  by (simp_all add: write_frame_def for_each_piece_concat write_record_multibulk_def write_record_def record_header_eq)

text \<open>The fixed array of the piecewise writer is never overrun.\<close>

lemma put_count_fits: "length run \<le> 25 \<Longrightarrow> n \<le> u64_max \<Longrightarrow> length (put_count run tag n) \<le> run_cap"
  using length_dec_digits [of n 20] by (simp add: put_count_def header_digits_dec run_cap_def u64_max_def)

end
