(* ===== verification/Aof_Replay.thy ===== *)
theory Aof_Replay
  imports Aof_Record
begin

text \<open>
  Replaying the append-only file: \<open>replay.rs\<close>, \<open>replay_walk.rs\<close>, \<open>replay_txn.rs\<close>,
  \<open>replay_resync.rs\<close> and the base frames of \<open>log_base.rs\<close>. The reader is the list of
  bytes still to come, and the sink is the list of commands delivered so far, or none when only
  the length of the replayable prefix is asked for.
\<close>

section \<open>Frames with a meaning of their own\<close>

definition txn_begin :: bytes where "txn_begin = [0, 75, 69, 86, 89, 84, 88, 78, 66, 69, 71, 73, 78]"
definition txn_commit :: bytes where "txn_commit = [0, 75, 69, 86, 89, 84, 88, 78, 67, 79, 77, 77, 73, 84]"
definition log_base :: bytes where "log_base = [0, 75, 69, 86, 89, 76, 79, 71, 66, 65, 83, 69]"

datatype txn_marker = Txn_begin | Txn_commit

definition txn_marker :: "argv \<Rightarrow> txn_marker option" where
  "txn_marker args =
     (if argv_len args \<noteq> 1 then None
      else if argv_get args 0 = Some txn_begin then Some Txn_begin
      else if argv_get args 0 = Some txn_commit then Some Txn_commit
      else None)"

definition base_frame :: "64 word \<Rightarrow> argv" where
  "base_frame snapshot_id = argv_push (argv_push argv_default log_base) (to_le_bytes snapshot_id)"

definition base_of :: "argv \<Rightarrow> 64 word option" where
  "base_of args =
     (if argv_len args \<noteq> 2 \<or> argv_get args 0 \<noteq> Some log_base then None
      else case argv_get args 1 of
             None \<Rightarrow> None
           | Some sid \<Rightarrow> if length sid = 8 then Some (from_le_bytes sid) else None)"

definition is_log_base :: "argv \<Rightarrow> bool" where
  "is_log_base args \<longleftrightarrow> base_of args \<noteq> None"

section \<open>The walk over a log of records\<close>

datatype corrupt_reason = Checksum_mismatch | Not_one_command | Length_out_of_range | Protocol parse_error

datatype replay_stop = Clean | Truncated_tail | Length_outran_file (claimed: nat) (available: nat) | Corrupt_frame corrupt_reason

record v2_walk =
  w_stop :: replay_stop
  w_pos :: nat
  w_replayed :: nat
  w_preview :: bytes
  w_txn :: "argv list option"
  w_txn_at :: nat
  w_zero_tail :: nat
  w_txn_discarded :: nat

definition walk_at :: "nat \<Rightarrow> v2_walk" where
  "walk_at pos = \<lparr>w_stop = Clean, w_pos = pos, w_replayed = 0, w_preview = [], w_txn = None, w_txn_at = 0,
     w_zero_tail = 0, w_txn_discarded = 0\<rparr>"

definition settled_end :: "v2_walk \<Rightarrow> nat" where
  "settled_end w = (if w_txn w \<noteq> None then w_txn_at w else w_pos w)"

definition preview_of :: "bytes \<Rightarrow> bytes" where
  "preview_of bs = take (min (length bs) 16) bs"

text \<open>The sink: \<open>Option<Sink>\<close>.\<close>

type_synonym sink = "argv list option"

definition deliver :: "sink \<Rightarrow> argv \<Rightarrow> sink" where
  "deliver out a = map_option (\<lambda>l. l @ [a]) out"

definition route_frame :: "argv \<Rightarrow> sink \<Rightarrow> v2_walk \<Rightarrow> sink \<times> v2_walk" where
  "route_frame args out w =
     (case txn_marker args of
        Some Txn_begin \<Rightarrow>
          (out, w\<lparr>w_txn_discarded := w_txn_discarded w + (if w_txn w \<noteq> None then 1 else 0),
                  w_txn := Some [], w_txn_at := w_pos w\<rparr>)
      | Some Txn_commit \<Rightarrow>
          (case w_txn w of None \<Rightarrow> out | Some buffered \<Rightarrow> foldl deliver out buffered, w\<lparr>w_txn := None\<rparr>)
      | None \<Rightarrow>
          (case w_txn w of
             Some buf \<Rightarrow> (out, w\<lparr>w_txn := Some (buf @ [args])\<rparr>)
           | None \<Rightarrow> (deliver out args, w)))"

text \<open>One argument vector serves the whole walk; parsing clears it first.\<close>

definition apply_record :: "bytes \<Rightarrow> nat \<Rightarrow> sink \<Rightarrow> v2_walk \<Rightarrow> bool \<times> sink \<times> v2_walk" where
  "apply_record payload len out w =
     (case parse_command_into payload argv_default of
        Inr (Some (args, used)) \<Rightarrow>
          if used = length payload
          then
            let (out', w') =
              (if base_of args = None
               then let (o', w') = route_frame args out w in (o', w'\<lparr>w_replayed := w_replayed w' + 1\<rparr>)
               else (out, w))
            in (True, out', w'\<lparr>w_pos := w_pos w' + (8 + len)\<rparr>)
          else (False, out, w\<lparr>w_preview := preview_of payload\<rparr>)
      | _ \<Rightarrow> (False, out, w\<lparr>w_preview := preview_of payload\<rparr>))"

text \<open>\<open>zeros_to_end\<close> reads 64 KiB at a time.\<close>

function zeros_to_end :: "bytes \<Rightarrow> nat \<Rightarrow> nat option" where
  "zeros_to_end r n =
     (let got = take 65536 r in
      if list_ex (\<lambda>b. b \<noteq> 0) got then None
      else if length got < 65536 then Some (n + length got)
      else zeros_to_end (drop 65536 r) (n + length got))"
  by pat_completeness auto
termination
  by (relation "measure (\<lambda>(r, n). length r)") auto

declare zeros_to_end.simps [simp del]

definition next_header :: "bytes \<Rightarrow> v2_walk \<Rightarrow> (replay_stop, nat \<times> u32 \<times> bytes) result \<times> v2_walk" where
  "next_header r w =
     (let header = take 8 r; r' = drop 8 r; n = length header in
      if n = 0 then (Err Clean, w)
      else if n < 8 \<and> list_all (\<lambda>b. b = 0) header then (Err Clean, w\<lparr>w_zero_tail := n\<rparr>)
      else if n < 8 then (Err Truncated_tail, w)
      else
        let len = unat (from_le_u32 (take 4 header)); crc = from_le_u32 (drop 4 header);
            zeros = (if len = 0 \<and> crc = 0 then zeros_to_end r' 0 else None) in
        case zeros of
          Some rest \<Rightarrow> (Err Clean, w\<lparr>w_zero_tail := 8 + rest\<rparr>)
        | None \<Rightarrow>
            if len = 0 \<or> len > max_record
            then (Err (Corrupt_frame Length_out_of_range), w\<lparr>w_preview := preview_of header\<rparr>)
            else (Ok (len, crc, r'), w))"

lemma next_header_rest: "next_header r w = (Ok (len, crc, r'), w') \<Longrightarrow> r' = drop 8 r \<and> r \<noteq> []"
  by (auto simp: next_header_def Let_def split: if_splits option.splits)

function walk_loop :: "bytes \<Rightarrow> sink \<Rightarrow> v2_walk \<Rightarrow> sink \<times> v2_walk" where
  "walk_loop r out w =
     (case next_header r w of
        (Inl stop, w') \<Rightarrow> (out, w'\<lparr>w_stop := stop\<rparr>)
      | (Inr (len, crc, r'), w') \<Rightarrow>
          (let payload = take len r' in
           if length payload < len then (out, w'\<lparr>w_stop := Length_outran_file len (length payload)\<rparr>)
           else if checksum payload \<noteq> crc
           then (out, w'\<lparr>w_preview := preview_of payload, w_stop := Corrupt_frame Checksum_mismatch\<rparr>)
           else case apply_record payload len out w' of
             (ok, out', w'') \<Rightarrow>
               if ok then walk_loop (drop len r') out' w''
               else (out', w''\<lparr>w_stop := Corrupt_frame Not_one_command\<rparr>)))"
  by pat_completeness auto
termination
  by (relation "measure (\<lambda>(r, out, w). length r)") (auto dest!: next_header_rest [OF sym])

declare walk_loop.simps [simp del]

definition walk_v2 :: "bytes \<Rightarrow> nat \<Rightarrow> sink \<Rightarrow> sink \<times> v2_walk" where
  "walk_v2 r start_pos out = walk_loop r out (walk_at start_pos)"

section \<open>Skipping damage\<close>

text \<open>
  The inner loop of \<open>resync_slice\<close>: records are delivered from \<open>w\<close> on until one does not
  read. It either returns from the whole function (\<open>Inl\<close>, with whether the tail is torn) or
  asks for another scan (\<open>Inr\<close>, with where from).
\<close>

lemma next_record_consumed:
  assumes "next_record buf pos = Record payload consumed"
  shows "pos < pos + consumed \<and> pos + consumed \<le> length buf"
  using assms by (auto simp: next_record_def Let_def record_header_len_def split: if_splits)

function resync_run :: "bytes \<Rightarrow> nat \<Rightarrow> sink \<Rightarrow> nat \<Rightarrow> nat \<Rightarrow> sink \<times> nat \<times> nat \<times> (bool + nat)" where
  "resync_run rest w out applied good_end =
     (case next_record rest w of
        Record payload consumed \<Rightarrow>
          (case one_command payload of
             Some args \<Rightarrow>
               resync_run rest (w + consumed) (if base_of args = None then deliver out args else out) (applied + 1) (w + consumed)
           | None \<Rightarrow> (out, applied, good_end, Inr (w + 1)))
      | Truncated \<Rightarrow> (out, applied, good_end, Inl (w < length rest))
      | Corrupt \<Rightarrow> (out, applied, good_end, Inr (w + 1)))"
  by pat_completeness auto
termination
  by (relation "measure (\<lambda>(rest, w, out, applied, good_end). length rest - w)") (auto dest!: next_record_consumed)

declare resync_run.simps [simp del]

lemma resync_run_scan_from:
  "resync_run rest w out applied good_end = (out', applied', good_end', Inr s) \<Longrightarrow> w < s"
proof (induction rest w out applied good_end rule: resync_run.induct)
  case (1 rest w out applied good_end)
  then show ?case
    by (subst (asm) (2) resync_run.simps)
      (fastforce split: record_step.splits option.splits dest: next_record_consumed)
qed

lemma resync_scan_bounds: "resync_scan buf q = Some g \<Longrightarrow> q \<le> g \<and> g < length buf"
proof (induction buf q rule: resync_scan.induct)
  case (1 buf q)
  then show ?case
    by (subst (asm) (3) resync_scan.simps) (auto split: if_splits record_step.splits)
qed

function resync_from :: "bytes \<Rightarrow> nat \<Rightarrow> nat \<Rightarrow> nat \<Rightarrow> nat \<Rightarrow> sink \<Rightarrow> (nat \<times> nat) list \<Rightarrow>
    (nat \<times> nat \<times> bool) \<times> sink \<times> (nat \<times> nat) list" where
  "resync_from rest base scan_from good_end applied out ranges =
     (case resync_scan rest scan_from of
        None \<Rightarrow> ((good_end, applied, True), out, ranges)
      | Some g \<Rightarrow>
          (let ranges' = ranges @ [(base + good_end, base + g)] in
           case resync_run rest g out applied good_end of
             (out', applied', good_end', Inl torn) \<Rightarrow> ((good_end', applied', torn), out', ranges')
           | (out', applied', good_end', Inr scan_from') \<Rightarrow>
               resync_from rest base scan_from' good_end' applied' out' ranges'))"
  by pat_completeness auto
termination
  by (relation "measure (\<lambda>(rest, base, scan_from, good_end, applied, out, ranges). length rest - scan_from)")
    (auto dest!: resync_run_scan_from [OF sym] resync_scan_bounds)

declare resync_from.simps [simp del]

definition resync_slice :: "bytes \<Rightarrow> nat \<Rightarrow> sink \<Rightarrow> (nat \<times> nat) list \<Rightarrow> (nat \<times> nat \<times> bool) \<times> sink \<times> (nat \<times> nat) list" where
  "resync_slice rest base out ranges = resync_from rest base 1 0 0 out ranges"

definition resync_fallback :: "bytes \<Rightarrow> v2_walk \<Rightarrow> sink \<Rightarrow> (nat \<times> nat) list \<Rightarrow> v2_walk \<times> sink \<times> (nat \<times> nat) list" where
  "resync_fallback file w out ranges =
     (let ((local_end, extra, ended_torn), out', ranges') = resync_slice (drop (w_pos w) file) (w_pos w) out ranges
      in (w\<lparr>w_replayed := w_replayed w + extra, w_pos := w_pos w + local_end,
            w_stop := (if ended_torn then Truncated_tail else Clean)\<rparr>, out', ranges'))"

section \<open>Replaying a file\<close>

record replay_report =
  r_commands :: nat
  r_bytes :: nat
  r_replayed_bytes :: nat
  r_dropped_bytes :: nat
  r_zero_tail :: nat
  r_corrupt :: bool
  r_ranges :: "(nat \<times> nat) list"

definition report_default :: replay_report where
  "report_default = \<lparr>r_commands = 0, r_bytes = 0, r_replayed_bytes = 0, r_dropped_bytes = 0, r_zero_tail = 0,
     r_corrupt = False, r_ranges = []\<rparr>"

fun is_corrupt_frame :: "replay_stop \<Rightarrow> bool" where
  "is_corrupt_frame (Corrupt_frame e) = True"
| "is_corrupt_frame stop = False"

text \<open>A file is its bytes; no file is the error \<open>NotFound\<close> of \<open>File::open\<close>.\<close>

definition sniff_format :: "bytes option \<Rightarrow> aof_format" where
  "sniff_format file =
     (case file of Some data \<Rightarrow> if take 9 data = aof2_magic then V2 else V1 | None \<Rightarrow> V1)"

definition stream_v2 :: "bytes option \<Rightarrow> sink \<Rightarrow> bool \<Rightarrow> sink \<times> replay_report" where
  "stream_v2 file out resync =
     (case file of
        None \<Rightarrow> (out, report_default)
      | Some data \<Rightarrow>
          (let total = length data;
               (out1, w1) = walk_v2 (drop 9 data) 9 out;
               (w, out2, ranges) =
                 (if resync \<and> w_stop w1 \<noteq> Clean then resync_fallback data w1 out1 [] else (w1, out1, []));
               corrupt = (is_corrupt_frame (w_stop w1) \<or> ranges \<noteq> []);
               end_pos = (if ranges = [] then settled_end w else w_pos w)
           in (out2, \<lparr>r_commands = w_replayed w, r_bytes = total, r_replayed_bytes = end_pos,
                 r_dropped_bytes = total - end_pos - w_zero_tail w, r_zero_tail = w_zero_tail w,
                 r_corrupt = corrupt, r_ranges = ranges\<rparr>)))"

function v1_walk :: "bytes \<Rightarrow> nat \<Rightarrow> sink \<Rightarrow> nat \<Rightarrow> replay_stop \<times> nat \<times> nat \<times> sink" where
  "v1_walk data pos out replayed =
     (if pos \<ge> length data then (Clean, replayed, pos, out)
      else case parse_command_into (drop pos data) argv_default of
        Inr (Some (args, consumed)) \<Rightarrow> v1_walk data (pos + consumed) (deliver out args) (replayed + 1)
      | Inr None \<Rightarrow> (Truncated_tail, replayed, pos, out)
      | Inl e \<Rightarrow> (Corrupt_frame (Protocol e), replayed, pos, out))"
  by pat_completeness auto
termination
  by (relation "measure (\<lambda>(data, pos, out, replayed). length data - pos)")
    (auto simp: parse_command_into_def dest!: owned_cmd.run_consumed)

declare v1_walk.simps [simp del]

definition replay_v1_slice :: "bytes \<Rightarrow> sink \<Rightarrow> sink \<times> replay_report" where
  "replay_v1_slice data out =
     (let total = length data in
      if total = 0 then (out, report_default)
      else
        let pos0 = (if take 9 data = aof_magic then 9 else 0); (stop, replayed, pos, out') = v1_walk data pos0 out 0
        in (out', \<lparr>r_commands = replayed, r_bytes = total, r_replayed_bytes = pos, r_dropped_bytes = total - pos,
              r_zero_tail = 0, r_corrupt = is_corrupt_frame stop, r_ranges = []\<rparr>))"

definition replay_with :: "bytes option \<Rightarrow> bool \<Rightarrow> argv list \<times> replay_report" where
  "replay_with file resync =
     (let (out, r) =
        (if sniff_format file = V2 then stream_v2 file (Some []) resync
         else case file of Some data \<Rightarrow> replay_v1_slice data (Some []) | None \<Rightarrow> (Some [], report_default))
      in (the out, r))"

function valid_prefix_from :: "bool \<Rightarrow> bytes \<Rightarrow> nat \<Rightarrow> nat" where
  "valid_prefix_from is_v2 data pos =
     (if pos \<ge> length data then pos
      else if is_v2
      then case next_record data pos of
             Record payload consumed \<Rightarrow>
               if one_command payload \<noteq> None then valid_prefix_from is_v2 data (pos + consumed) else pos
           | _ \<Rightarrow> pos
      else case parse_command (drop pos data) of
             Inr (Some (args, consumed)) \<Rightarrow> valid_prefix_from is_v2 data (pos + consumed)
           | _ \<Rightarrow> pos)"
  by pat_completeness auto
termination
  by (relation "measure (\<lambda>(is_v2, data, pos). length data - pos)")
    (auto simp: parse_command_def parse_command_into_def split: sum.splits option.splits prod.splits
      dest!: owned_cmd.run_consumed next_record_consumed)

declare valid_prefix_from.simps [simp del]

definition valid_prefix_len :: "bytes \<Rightarrow> nat" where
  "valid_prefix_len data =
     (let is_v2 = (take 9 data = aof2_magic)
      in valid_prefix_from is_v2 data (if is_v2 \<or> take 9 data = aof_magic then 9 else 0))"

definition valid_prefix_len_of_file :: "bytes option \<Rightarrow> bool \<Rightarrow> nat \<times> nat" where
  "valid_prefix_len_of_file file resync =
     (if sniff_format file = V2
      then let (out, r) = stream_v2 file None resync in (r_replayed_bytes r, r_zero_tail r)
      else case file of
        Some data \<Rightarrow> (valid_prefix_len data, 0)
      | None \<Rightarrow> (0, 0))"

end
