(* ===== verification/Aof_Handle.thy ===== *)
theory Aof_Handle
  imports Aof_Replay
begin

text \<open>
  The open append-only file: \<open>aof.rs\<close>, \<open>aof_txn.rs\<close>, \<open>aof_queue.rs\<close>, \<open>aof_sync.rs\<close>,
  \<open>aof_policy.rs\<close>, \<open>aof_util.rs\<close> and the tee of \<open>aof_rewrite.rs\<close>. The handle is the one without
  a staging ring and without a mapped log, the state of a handle on which neither was switched on.
  A write to the file succeeds; the clock is an argument.
\<close>

section \<open>The handle\<close>

datatype fsync = Always | EverySec | No

text \<open>
  \<open>a_disk\<close> is what the kernel holds of the file and \<open>a_buf\<close> the buffer of the
  \<open>BufWriter\<close>. \<open>a_synced\<close> is how many bytes of the file the last \<open>sync_data\<close> covered, the part
  a power failure cannot take back; the code has no such field.
\<close>

record aof =
  a_disk :: bytes
  a_buf :: bytes
  a_synced :: nat
  a_in_txn :: bool
  a_fsync :: fsync
  a_dirty :: bool
  a_last_sync :: nat
  a_sync_started :: nat
  a_sync_confirmed :: nat
  a_size_bytes :: nat
  a_size_at_last_rewrite :: nat
  a_rewrites_total :: nat
  a_deferred :: bool
  a_tee :: "bytes option"
  a_quarantine :: "bytes option"
  a_last_rewrite_at :: nat
  a_format :: aof_format
  a_queue :: "bytes option"
  a_queued_offset :: nat
  a_queued_seq :: nat

definition aof_buf_cap :: nat where "aof_buf_cap = 256 * 1024"

text \<open>\<open>BufWriter::write_all\<close>, \<open>BufWriter::flush\<close> and \<open>File::sync_data\<close>.\<close>

definition file_write :: "aof \<Rightarrow> bytes \<Rightarrow> aof" where
  "file_write a data =
     (let a1 = (if length (a_buf a) + length data > aof_buf_cap
                then a\<lparr>a_disk := a_disk a @ a_buf a, a_buf := []\<rparr> else a)
      in if length data \<ge> aof_buf_cap then a1\<lparr>a_disk := a_disk a1 @ data\<rparr>
         else a1\<lparr>a_buf := a_buf a1 @ data\<rparr>)"

definition file_flush :: "aof \<Rightarrow> aof" where
  "file_flush a = a\<lparr>a_disk := a_disk a @ a_buf a, a_buf := []\<rparr>"

definition sync_data :: "aof \<Rightarrow> aof" where
  "sync_data a = a\<lparr>a_synced := length (a_disk a)\<rparr>"

section \<open>Opening\<close>

definition repair_tail :: "bytes \<Rightarrow> nat \<Rightarrow> bool \<Rightarrow> bytes \<times> nat \<times> bytes option" where
  "repair_tail file sz resync =
     (let (valid, zero_tail) = valid_prefix_len_of_file (Some file) resync in
      if valid \<ge> sz then (file, sz, None)
      else if valid + zero_tail = sz then (take valid file, valid, None)
      else (take valid file, valid, Some (drop valid file)))"

definition settle_tail :: "bytes \<Rightarrow> nat \<Rightarrow> nat option \<Rightarrow> bool \<Rightarrow> bytes \<times> nat \<times> bytes option" where
  "settle_tail file sz settled resync =
     (case settled of
        Some s \<Rightarrow>
          if s \<le> sz
          then (if s < sz then (take s file, s, None) else (file, sz, None))
          else repair_tail file sz resync
      | None \<Rightarrow> repair_tail file sz resync)"

definition prepare_file :: "bytes option \<Rightarrow> bool \<Rightarrow> nat option \<Rightarrow> bytes \<times> nat \<times> aof_format \<times> bytes option" where
  "prepare_file path resync settled =
     (let file = (case path of Some f \<Rightarrow> f | None \<Rightarrow> []); sz = length file in
      if sz = 0 then (aof2_magic, length aof2_magic, V2, None)
      else
        let format = sniff_format (Some file);
            settled' = (if format = V2 then settled else None);
            (file', sz', quarantined) = settle_tail file sz settled' resync
        in (file', sz', format, quarantined))"

text \<open>
  \<open>durable\<close> is how much of the file found was synced before; a file that is created or cut is
  synced by \<open>prepare_file\<close>.
\<close>

definition open_after_replay :: "bytes option \<Rightarrow> nat \<Rightarrow> fsync \<Rightarrow> bool \<Rightarrow> nat option \<Rightarrow> nat \<Rightarrow> aof" where
  "open_after_replay path durable fs resync settled now =
     (let (file, sz, format, quarantined) = prepare_file path resync settled in
      \<lparr>a_disk = file, a_buf = [], a_synced = (if path = Some file then durable else length file),
       a_in_txn = False, a_fsync = fs, a_dirty = False,
       a_last_sync = now, a_sync_started = 0, a_sync_confirmed = 0, a_size_bytes = sz,
       a_size_at_last_rewrite = sz, a_rewrites_total = 0, a_deferred = False, a_tee = None,
       a_quarantine = quarantined, a_last_rewrite_at = now, a_format = format, a_queue = None,
       a_queued_offset = sz, a_queued_seq = 0\<rparr>)"

definition open_with_repair :: "bytes option \<Rightarrow> nat \<Rightarrow> fsync \<Rightarrow> bool \<Rightarrow> nat \<Rightarrow> aof" where
  "open_with_repair path durable fs resync now = open_after_replay path durable fs resync None now"

definition aof_open :: "bytes option \<Rightarrow> nat \<Rightarrow> fsync \<Rightarrow> nat \<Rightarrow> aof" where
  "aof_open path durable fs now = open_with_repair path durable fs False now"

section \<open>Appending\<close>

fun decimal_digits_loop :: "nat \<Rightarrow> nat \<Rightarrow> nat" where
  "decimal_digits_loop x d = (if x > 0 then decimal_digits_loop (x div 10) (d + 1) else d)"

declare decimal_digits_loop.simps [simp del]

definition decimal_digits :: "nat \<Rightarrow> nat" where
  "decimal_digits x = (if x = 0 then 1 else decimal_digits_loop x 0)"

definition estimate_multibulk_bytes :: "bytes list \<Rightarrow> nat" where
  "estimate_multibulk_bytes args =
     foldl (\<lambda>n a. n + (3 + decimal_digits (length a) + length a + 2)) (3 + decimal_digits (length args)) args"

definition aof_append :: "aof \<Rightarrow> bytes list \<Rightarrow> aof" where
  "aof_append a args =
     (let v2 = (a_format a = V2);
          head = (if v2 \<or> a_tee a \<noteq> None then Some (record_header args) else None);
          own = (if v2 then head else None);
          a1 = (case a_queue a of
                  Some q \<Rightarrow> a\<lparr>a_queue := Some (q @ concat (write_frame own args)), a_queued_seq := a_queued_seq a + 1\<rparr>
                | None \<Rightarrow> foldl file_write a (write_frame own args));
          a2 = (case (a_tee a1, head) of
                  (Some tee, Some h) \<Rightarrow> a1\<lparr>a_tee := Some (tee @ concat (write_frame (Some h) args))\<rparr>
                | _ \<Rightarrow> a1);
          overhead = (case a_format a2 of V2 \<Rightarrow> record_header_len | V1 \<Rightarrow> 0);
          a3 = a2\<lparr>a_size_bytes := sat_add_u64 (sat_add_u64 (a_size_bytes a2) (estimate_multibulk_bytes args)) overhead\<rparr>
      in case a_fsync a3 of
           Always \<Rightarrow> if a_deferred a3 \<or> a_queue a3 \<noteq> None then a3\<lparr>a_dirty := True\<rparr> else sync_data (file_flush a3)
         | _ \<Rightarrow> a3\<lparr>a_dirty := True\<rparr>)"

definition marker_frame :: "bytes \<Rightarrow> bytes" where
  "marker_frame name = [42, 49, 13, 10, 36] @ dec_digits (length name) @ crlf @ name @ crlf"

definition append_marker :: "aof \<Rightarrow> bytes \<Rightarrow> aof" where
  "append_marker a name =
     (let frame = marker_frame name in
      case a_format a of
        V2 \<Rightarrow>
          (let a1 = (case a_queue a of
                 Some q \<Rightarrow>
                   a\<lparr>a_queue := Some (((q @ to_le_u32 (of_nat (length frame))) @ to_le_u32 (checksum frame)) @ frame),
                     a_queued_seq := a_queued_seq a + 1\<rparr>
               | None \<Rightarrow> foldl file_write a [to_le_u32 (of_nat (length frame)), to_le_u32 (checksum frame), frame]);
               a2 = (case a_tee a1 of Some tee \<Rightarrow> a1\<lparr>a_tee := Some (tee @ write_record frame)\<rparr> | None \<Rightarrow> a1)
           in a2\<lparr>a_size_bytes := sat_add_u64 (a_size_bytes a2) (record_header_len + length frame)\<rparr>)
      | V1 \<Rightarrow> a)"

definition begin_fsync_window :: "aof \<Rightarrow> aof" where
  "begin_fsync_window a = (if a_fsync a = Always then a\<lparr>a_deferred := True\<rparr> else a)"

text \<open>Writing the marker succeeds, so \<open>is_ok\<close> holds.\<close>

definition begin_group :: "aof \<Rightarrow> aof" where
  "begin_group a = (append_marker (begin_fsync_window a) txn_begin)\<lparr>a_in_txn := True\<rparr>"

definition end_group :: "aof \<Rightarrow> nat \<Rightarrow> aof" where
  "end_group a now =
     (let a1 = (if a_in_txn a then (append_marker a txn_commit)\<lparr>a_in_txn := False\<rparr> else a) in
      if a_deferred a1
      then let a2 = a1\<lparr>a_deferred := False\<rparr> in
           if a_dirty a2 \<and> a_queue a2 = None
           then (sync_data (file_flush a2))\<lparr>a_dirty := False, a_last_sync := now\<rparr>
           else a2
      else a1)"

section \<open>Queued appends\<close>

definition enable_queued_appends :: "aof \<Rightarrow> aof" where
  "enable_queued_appends a = (case a_queue a of None \<Rightarrow> a\<lparr>a_queue := Some []\<rparr> | Some q \<Rightarrow> a)"

definition take_pending :: "aof \<Rightarrow> (nat \<times> bytes) option \<times> aof" where
  "take_pending a =
     (case a_queue a of
        None \<Rightarrow> (None, a)
      | Some q \<Rightarrow>
          if q = [] then (None, a)
          else (Some (a_queued_offset a, q), a\<lparr>a_queue := Some [], a_queued_offset := a_queued_offset a + length q\<rparr>))"

definition requeue_front :: "aof \<Rightarrow> bytes \<Rightarrow> aof" where
  "requeue_front a bs =
     (case a_queue a of
        None \<Rightarrow> a
      | Some q \<Rightarrow>
          a\<lparr>a_queued_offset := a_queued_offset a - length bs, a_queue := Some (if q = [] then bs else bs @ q)\<rparr>)"

definition flush_queued :: "aof \<Rightarrow> aof" where
  "flush_queued a =
     (case a_queue a of
        None \<Rightarrow> a
      | Some q \<Rightarrow>
          if q = [] then a
          else file_write (a\<lparr>a_queue := Some [], a_queued_offset := a_queued_offset a + length q\<rparr>) q)"

section \<open>Syncing\<close>

definition sync_unconfirmed :: "aof \<Rightarrow> bool" where
  "sync_unconfirmed a \<longleftrightarrow> a_sync_confirmed a < a_sync_started a"

definition confirm_started_syncs :: "aof \<Rightarrow> aof" where
  "confirm_started_syncs a = a\<lparr>a_sync_confirmed := max (a_sync_confirmed a) (a_sync_started a)\<rparr>"

definition sync_now :: "aof \<Rightarrow> nat \<Rightarrow> aof" where
  "sync_now a now =
     (let a1 = flush_queued a in
      if a_dirty a1 \<or> sync_unconfirmed a1
      then confirm_started_syncs ((sync_data (file_flush a1))\<lparr>a_dirty := False, a_last_sync := now\<rparr>)
      else a1)"

text \<open>A pending sync is its generation; \<open>run\<close> syncs whatever the file holds when it runs.\<close>

definition start_everysec_sync :: "aof \<Rightarrow> nat \<Rightarrow> nat option \<times> aof" where
  "start_everysec_sync a now =
     (let retry = sync_unconfirmed a; due = (a_dirty a \<and> now - a_last_sync a \<ge> 1000) in
      if \<not> (due \<or> retry) then (None, a)
      else let a1 = a\<lparr>a_dirty := False, a_last_sync := now, a_sync_started := a_sync_started a + 1\<rparr>
           in (Some (a_sync_started a1), a1))"

definition aof_tick :: "aof \<Rightarrow> nat \<Rightarrow> nat option \<times> aof" where
  "aof_tick a now =
     (if a_fsync a = Always then (None, a)
      else let a1 = file_flush a in
           case a_fsync a1 of EverySec \<Rightarrow> start_everysec_sync a1 now | _ \<Rightarrow> (None, a1))"

definition pending_run :: "aof \<Rightarrow> nat \<Rightarrow> aof" where
  "pending_run a generation = (sync_data a)\<lparr>a_sync_confirmed := max (a_sync_confirmed a) generation\<rparr>"

definition maybe_sync :: "aof \<Rightarrow> nat \<Rightarrow> aof" where
  "maybe_sync a now = (case aof_tick a now of (Some g, a1) \<Rightarrow> pending_run a1 g | (None, a1) \<Rightarrow> a1)"

definition set_fsync :: "aof \<Rightarrow> fsync \<Rightarrow> nat \<Rightarrow> aof" where
  "set_fsync a fs now =
     (let upgrading = (fs = Always \<and> a_fsync a \<noteq> Always);
          a1 = a\<lparr>a_fsync := fs\<rparr>;
          a2 = (if upgrading then flush_queued a1 else a1)
      in if upgrading \<and> (a_dirty a2 \<or> sync_unconfirmed a2)
         then confirm_started_syncs ((sync_data (file_flush a2))\<lparr>a_dirty := False, a_last_sync := now\<rparr>)
         else a2)"

section \<open>Starting over\<close>

definition aof_truncate :: "aof \<Rightarrow> nat \<Rightarrow> aof" where
  "aof_truncate a now =
     (let a1 = file_flush (flush_queued a); n = length aof2_magic in
      (sync_data (a1\<lparr>a_disk := aof2_magic\<rparr>))
        \<lparr>a_dirty := False, a_format := V2, a_size_bytes := n, a_queued_offset := n, a_size_at_last_rewrite := n,
         a_last_rewrite_at := now\<rparr>)"

text \<open>
  The rewrite: the tee collects what is appended while the image is written, and finishing puts
  the image and the tee in the log's place. The image is the dump of the store, an argument.
\<close>

definition is_rewriting :: "aof \<Rightarrow> bool" where
  "is_rewriting a \<longleftrightarrow> a_tee a \<noteq> None"

definition begin_view_rewrite :: "aof \<Rightarrow> aof" where
  "begin_view_rewrite a = (file_flush (flush_queued a))\<lparr>a_tee := Some []\<rparr>"

definition begin_concurrent_rewrite :: "aof \<Rightarrow> aof" where
  "begin_concurrent_rewrite a = (flush_queued a)\<lparr>a_tee := Some []\<rparr>"

definition install_file :: "aof \<Rightarrow> bytes \<Rightarrow> nat \<Rightarrow> aof" where
  "install_file a file now =
     a\<lparr>a_disk := file, a_buf := [], a_synced := length file, a_format := V2, a_size_bytes := length file,
       a_queued_offset := length file, a_size_at_last_rewrite := length file, a_last_rewrite_at := now,
       a_dirty := False, a_rewrites_total := sat_add_u64 (a_rewrites_total a) 1\<rparr>"

definition finish_concurrent_rewrite_with :: "aof \<Rightarrow> bytes \<Rightarrow> bytes \<Rightarrow> nat \<Rightarrow> aof" where
  "finish_concurrent_rewrite_with a tmp tee now = install_file (a\<lparr>a_tee := None\<rparr>) (tmp @ tee) now"

definition finish_concurrent_rewrite :: "aof \<Rightarrow> bytes \<Rightarrow> nat \<Rightarrow> aof" where
  "finish_concurrent_rewrite a tmp now =
     (let tee = (case a_tee a of Some t \<Rightarrow> t | None \<Rightarrow> [])
      in finish_concurrent_rewrite_with (a\<lparr>a_tee := None\<rparr>) tmp tee now)"

definition abort_concurrent_rewrite :: "aof \<Rightarrow> aof" where
  "abort_concurrent_rewrite a = a\<lparr>a_tee := None\<rparr>"

definition rewrite_from :: "aof \<Rightarrow> bytes \<Rightarrow> nat \<Rightarrow> aof" where
  "rewrite_from a dumped now = install_file (file_flush (flush_queued a)) dumped now"

definition anchor_rewrite_baseline :: "aof \<Rightarrow> nat \<Rightarrow> aof" where
  "anchor_rewrite_baseline a n =
     (if \<not> is_rewriting a then a\<lparr>a_size_at_last_rewrite := max n (length aof2_magic)\<rparr> else a)"

definition anchor_rewrite_deferred :: "aof \<Rightarrow> nat \<Rightarrow> aof" where
  "anchor_rewrite_deferred a now = a\<lparr>a_size_at_last_rewrite := a_size_bytes a, a_last_rewrite_at := now\<rparr>"

definition sat_mul_u64 :: "nat \<Rightarrow> nat \<Rightarrow> nat" where
  "sat_mul_u64 a b = min (a * b) u64_max"

record rewrite_policy =
  rp_pct :: nat
  rp_min_size :: nat
  rp_bytes :: nat
  rp_interval_secs :: nat

definition baseline_matters :: "rewrite_policy \<Rightarrow> nat \<Rightarrow> bool" where
  "baseline_matters p len \<longleftrightarrow>
     rp_interval_secs p > 0 \<or>
     rp_pct p > 0 \<and> sat_mul_u64 len (sat_add_u64 100 (rp_pct p)) > sat_mul_u64 (rp_min_size p) 100"

definition rewrite_due :: "aof \<Rightarrow> rewrite_policy \<Rightarrow> nat \<Rightarrow> bool" where
  "rewrite_due a p now =
     (if is_rewriting a then False
      else
        let cur = a_size_bytes a; baseline = max (a_size_at_last_rewrite a) 1 in
        if rp_pct p > 0 \<and> cur \<ge> rp_min_size p \<and>
           sat_mul_u64 cur 100 \<ge> sat_mul_u64 baseline (sat_add_u64 100 (rp_pct p)) then True
        else if rp_bytes p > 0 \<and> cur \<ge> rp_bytes p then True
        else rp_interval_secs p > 0 \<and> cur > a_size_at_last_rewrite a \<and>
             (now - a_last_rewrite_at a) div 1000 \<ge> rp_interval_secs p)"

end
