(* ===== verification/Aof_Crash.thy ===== *)
theory Aof_Crash
  imports Aof_Handle
begin

text \<open>
  What a log gives back. A log written by the handle is a sequence of units: commands appended on
  their own, and groups between their markers. Whatever prefix of the file a crash leaves, replay
  delivers exactly the units that are complete in it, and opening the file cuts it there.
\<close>

section \<open>One record\<close>

lemma walk_write:
  assumes "0 < length p" "length p \<le> max_record" "apply_record p (length p) out w = (True, out', w')"
  shows "walk_loop (write_record p @ r) out w = walk_loop r out' w'"
proof -
  have h: "next_header (write_record p @ r) w = (Ok (length p, checksum p, p @ r), w)"
    using assms(1,2) max_record_u32 [OF assms(2)] by (simp add: next_header_def write_record_def Let_def)
  show ?thesis using assms(3) by (subst walk_loop.simps) (simp add: h)
qed

lemma next_header_cut:
  assumes "0 < length p" "length p \<le> max_record" "n < 8"
  shows "\<exists>stop w'. next_header (take n (write_record p)) w = (Err stop, w') \<and> \<not> is_corrupt_frame stop \<and>
    w_pos w' = w_pos w \<and> w_txn w' = w_txn w \<and> w_txn_at w' = w_txn_at w \<and> w_replayed w' = w_replayed w"
  using assms by (auto simp: next_header_def Let_def)

lemma walk_cut:
  assumes "0 < length p" "length p \<le> max_record" "n < 8 + length p"
  shows "\<exists>w'. walk_loop (take n (write_record p)) out w = (out, w') \<and> \<not> is_corrupt_frame (w_stop w') \<and>
    w_pos w' = w_pos w \<and> w_txn w' = w_txn w \<and> w_txn_at w' = w_txn_at w \<and> w_replayed w' = w_replayed w"
proof (cases "n < 8")
  case True
  from next_header_cut [OF assms(1,2) True, of w] obtain stop w' where
    h: "next_header (take n (write_record p)) w = (Err stop, w')" "\<not> is_corrupt_frame stop"
    "w_pos w' = w_pos w" "w_txn w' = w_txn w" "w_txn_at w' = w_txn_at w" "w_replayed w' = w_replayed w" by blast
  show ?thesis using h(2-) by (subst walk_loop.simps) (simp add: h(1))
next
  case False
  then have "take n (write_record p) = to_le_u32 (of_nat (length p)) @ to_le_u32 (checksum p) @ take (n - 8) p"
    by (simp add: write_record_def)
  then have h: "next_header (take n (write_record p)) w = (Ok (length p, checksum p, take (n - 8) p), w)"
    using assms(1,2) max_record_u32 [OF assms(2)] by (simp add: next_header_def Let_def)
  show ?thesis using assms(3) False by (subst walk_loop.simps) (auto simp: h Let_def)
qed

section \<open>One frame\<close>

definition frame_ok :: "bytes list \<Rightarrow> bool" where
  "frame_ok args \<longleftrightarrow> sendable args \<and> length (write_multibulk args) \<le> max_record"

text \<open>A command that may be logged: it fits a record and is none of the log's own frames.\<close>

definition loggable :: "bytes list \<Rightarrow> bool" where
  "loggable args \<longleftrightarrow> frame_ok args \<and> txn_marker (argv_from args) = None \<and> base_of (argv_from args) = None"

lemma write_multibulk_nonempty [simp]: "write_multibulk args \<noteq> []" "0 < length (write_multibulk args)"
  by (simp_all add: write_multibulk_def)

lemma apply_frame:
  assumes "sendable args"
  shows "apply_record (write_multibulk args) len out w =
    (let (out', w') =
       (if base_of (argv_from args) = None
        then let (o', w') = route_frame (argv_from args) out w in (o', w'\<lparr>w_replayed := w_replayed w' + 1\<rparr>)
        else (out, w))
     in (True, out', w'\<lparr>w_pos := w_pos w' + (8 + len)\<rparr>))"
  using command_encoded [OF assms, of "[]"]
  by (simp add: apply_record_def parse_command_into_def write_multibulk_eq)

lemma marker_frame_eq: "marker_frame name = write_multibulk [name]"
  by (simp add: marker_frame_def write_multibulk_def dec_digits.simps [of "Suc 0"] digit_byte_def)

lemma marker_args:
  "txn_marker (argv_from [txn_begin]) = Some Txn_begin" "txn_marker (argv_from [txn_commit]) = Some Txn_commit"
  "base_of (argv_from [txn_begin]) = None" "base_of (argv_from [txn_commit]) = None"
  by (simp_all add: txn_marker_def base_of_def argv_from_def argv_extend_def argv_push_def argv_default_def
      argv_len_def argv_get_def nth_opt_def slice_def as_u32_def txn_begin_def txn_commit_def)

lemma marker_ok: "frame_ok [txn_begin]" "frame_ok [txn_commit]"
  by (simp_all add: frame_ok_def sendable_def max_multibulk_len_def max_bulk_len_def write_multibulk_def max_record_def
      dec_digits.simps txn_begin_def txn_commit_def)

lemma walk_frame:
  assumes "frame_ok args" "base_of (argv_from args) = None" "route_frame (argv_from args) out w = (out', w')"
  shows "walk_loop (write_record_multibulk args @ r) out w =
    walk_loop r out' (w'\<lparr>w_replayed := w_replayed w' + 1, w_pos := w_pos w' + length (write_record_multibulk args)\<rparr>)"
  using assms apply_frame [of args "length (write_multibulk args)" out w]
  unfolding write_record_multibulk_def by (subst walk_write) (simp_all add: frame_ok_def)

lemma walk_frame_cut:
  assumes "frame_ok args" "n < length (write_record_multibulk args)"
  shows "\<exists>w'. walk_loop (take n (write_record_multibulk args)) out w = (out, w') \<and> \<not> is_corrupt_frame (w_stop w') \<and>
    w_pos w' = w_pos w \<and> w_txn w' = w_txn w \<and> w_txn_at w' = w_txn_at w \<and> w_replayed w' = w_replayed w"
  using assms unfolding write_record_multibulk_def by (intro walk_cut) (simp_all add: frame_ok_def)

lemma base_args:
  "frame_ok [log_base, to_le_bytes i]" "base_of (argv_from [log_base, to_le_bytes i]) \<noteq> None"
proof -
  have l: "length (to_le_bytes i) = 8" by (simp add: to_le_bytes_def)
  then show "frame_ok [log_base, to_le_bytes i]"
    by (simp add: frame_ok_def sendable_def max_multibulk_len_def max_bulk_len_def write_multibulk_def max_record_def
        dec_digits.simps log_base_def)
  show "base_of (argv_from [log_base, to_le_bytes i]) \<noteq> None"
    using l by (simp add: base_of_def argv_from_def argv_extend_def argv_push_def argv_default_def
        argv_len_def argv_get_def nth_opt_def slice_def as_u32_def log_base_def Let_def)
qed

lemma walk_base:
  "walk_loop (write_record_multibulk [log_base, to_le_bytes i] @ r) out w =
    walk_loop r out (w\<lparr>w_pos := w_pos w + length (write_record_multibulk [log_base, to_le_bytes i])\<rparr>)"
proof -
  let ?p = "write_multibulk [log_base, to_le_bytes i]"
  have "apply_record ?p (length ?p) out w = (True, out, w\<lparr>w_pos := w_pos w + (8 + length ?p)\<rparr>)"
    using base_args [of i] by (subst apply_frame) (auto simp: frame_ok_def)
  then show ?thesis using base_args(1) [of i]
    unfolding write_record_multibulk_def by (subst walk_write) (simp_all add: frame_ok_def)
qed

section \<open>Units\<close>

text \<open>A unit is a command, a group of commands, or the frame that names the log's base.\<close>

datatype log_unit = Single "bytes list" | Group "bytes list list" | Base "64 word"

fun unit_cmds :: "log_unit \<Rightarrow> bytes list list" where
  "unit_cmds (Single c) = [c]"
| "unit_cmds (Group cs) = cs"
| "unit_cmds (Base i) = []"

definition records :: "bytes list list \<Rightarrow> bytes" where
  "records cs = concat (map write_record_multibulk cs)"

fun unit_bytes :: "log_unit \<Rightarrow> bytes" where
  "unit_bytes (Single c) = write_record_multibulk c"
| "unit_bytes (Group cs) =
     write_record_multibulk [txn_begin] @ records cs @ write_record_multibulk [txn_commit]"
| "unit_bytes (Base i) = write_record_multibulk [log_base, to_le_bytes i]"

definition unit_ok :: "log_unit \<Rightarrow> bool" where
  "unit_ok u \<longleftrightarrow> list_all loggable (unit_cmds u)"

definition units_bytes :: "log_unit list \<Rightarrow> bytes" where
  "units_bytes us = concat (map unit_bytes us)"

definition units_cmds :: "log_unit list \<Rightarrow> bytes list list" where
  "units_cmds us = concat (map unit_cmds us)"

lemma deliver_fold: "foldl deliver out as = map_option (\<lambda>l. l @ as) out"
  by (induction as arbitrary: out) (simp_all add: deliver_def option.map_comp o_def option.map_ident)

lemma walk_group_frames:
  assumes "list_all loggable cs" "w_txn w = Some buf"
  shows "\<exists>w'. walk_loop (records cs @ r) out w = walk_loop r out w' \<and>
    w_txn w' = Some (buf @ map argv_from cs) \<and> w_txn_at w' = w_txn_at w \<and> w_pos w' = w_pos w + length (records cs)"
  using assms
proof (induction cs arbitrary: w buf)
  case (Cons c cs)
  let ?w = "w\<lparr>w_txn := Some (buf @ [argv_from c]), w_replayed := w_replayed w + 1,
    w_pos := w_pos w + length (write_record_multibulk c)\<rparr>"
  have "route_frame (argv_from c) out w = (out, w\<lparr>w_txn := Some (buf @ [argv_from c])\<rparr>)"
    using Cons.prems by (simp add: route_frame_def loggable_def)
  then have "walk_loop (records (c # cs) @ r) out w = walk_loop (records cs @ r) out ?w"
    using Cons.prems walk_frame [of c out w] by (simp add: loggable_def records_def)
  moreover have "list_all loggable cs" "w_txn ?w = Some (buf @ [argv_from c])" using Cons.prems by simp_all
  from Cons.IH [OF this] obtain w' where "walk_loop (records cs @ r) out ?w = walk_loop r out w'"
    "w_txn w' = Some (buf @ map argv_from (c # cs))" "w_txn_at w' = w_txn_at w"
    "w_pos w' = w_pos w + length (records (c # cs))" by (auto simp: records_def)
  ultimately show ?case by auto
qed (auto simp: records_def)

lemma take_records_cut:
  assumes "n < length (records (c # cs) @ t)"
  shows "take n (records (c # cs) @ t) =
    (if n < length (write_record_multibulk c) then take n (write_record_multibulk c)
     else write_record_multibulk c @ take (n - length (write_record_multibulk c)) (records cs @ t))"
  by (simp add: records_def)

text \<open>Inside a group nothing is delivered until its commit marker is read.\<close>

lemma walk_group_cut:
  assumes "list_all loggable cs" "w_txn w = Some buf" "n < length (records cs @ write_record_multibulk [txn_commit])"
  shows "\<exists>w'. walk_loop (take n (records cs @ write_record_multibulk [txn_commit])) out w = (out, w') \<and>
    \<not> is_corrupt_frame (w_stop w') \<and> w_txn w' \<noteq> None \<and> w_txn_at w' = w_txn_at w"
  using assms
proof (induction cs arbitrary: w buf n)
  case Nil
  then show ?case using walk_frame_cut [OF marker_ok(2), of n out w] by (auto simp: records_def)
next
  case (Cons c cs)
  show ?case
  proof (cases "n < length (write_record_multibulk c)")
    case True
    then show ?thesis
      using Cons.prems walk_frame_cut [of c n out w] by (auto simp: take_records_cut loggable_def simp del: take_append)
  next
    case False
    let ?m = "n - length (write_record_multibulk c)"
    let ?w = "w\<lparr>w_txn := Some (buf @ [argv_from c]), w_replayed := w_replayed w + 1,
      w_pos := w_pos w + length (write_record_multibulk c)\<rparr>"
    have "route_frame (argv_from c) out w = (out, w\<lparr>w_txn := Some (buf @ [argv_from c])\<rparr>)"
      using Cons.prems by (simp add: route_frame_def loggable_def)
    then have "walk_loop (take n (records (c # cs) @ write_record_multibulk [txn_commit])) out w =
        walk_loop (take ?m (records cs @ write_record_multibulk [txn_commit])) out ?w"
      using Cons.prems False walk_frame [of c out w] by (simp add: take_records_cut loggable_def del: take_append)
    moreover have "\<exists>w'. walk_loop (take ?m (records cs @ write_record_multibulk [txn_commit])) out ?w = (out, w') \<and>
        \<not> is_corrupt_frame (w_stop w') \<and> w_txn w' \<noteq> None \<and> w_txn_at w' = w_txn_at ?w"
      using Cons.prems False by (intro Cons.IH) (auto simp: records_def)
    ultimately show ?thesis by simp
  qed
qed

lemma walk_begin:
  assumes "w_txn w = None"
  shows "\<exists>w'. walk_loop (write_record_multibulk [txn_begin] @ r) out w = walk_loop r out w' \<and>
    w_txn w' = Some [] \<and> w_txn_at w' = w_pos w \<and> w_pos w' = w_pos w + length (write_record_multibulk [txn_begin])"
proof -
  have "route_frame (argv_from [txn_begin]) out w = (out, w\<lparr>w_txn_discarded := w_txn_discarded w + 0, w_txn := Some [], w_txn_at := w_pos w\<rparr>)"
    using assms by (simp add: route_frame_def marker_args)
  from walk_frame [OF marker_ok(1) marker_args(3) this, of r] show ?thesis by auto
qed

lemma walk_unit:
  assumes "unit_ok u" "w_txn w = None"
  shows "\<exists>w'. walk_loop (unit_bytes u @ r) out w = walk_loop r (foldl deliver out (map argv_from (unit_cmds u))) w' \<and>
    w_txn w' = None \<and> w_pos w' = w_pos w + length (unit_bytes u)"
proof (cases u)
  case (Single c)
  have "route_frame (argv_from c) out w = (deliver out (argv_from c), w)"
    using assms Single by (simp add: route_frame_def unit_ok_def loggable_def)
  then show ?thesis using assms Single walk_frame [of c out w] by (auto simp: unit_ok_def loggable_def)
next
  case (Group cs)
  let ?c = "write_record_multibulk [txn_commit]"
  from walk_begin [OF assms(2), of "records cs @ ?c @ r" out] obtain w1 where
    w1: "walk_loop (unit_bytes u @ r) out w = walk_loop (records cs @ ?c @ r) out w1" "w_txn w1 = Some []"
    "w_pos w1 = w_pos w + length (write_record_multibulk [txn_begin])" by (auto simp: Group)
  from walk_group_frames [OF _ w1(2), of cs "?c @ r" out] assms(1) obtain w2 where
    w2: "walk_loop (records cs @ ?c @ r) out w1 = walk_loop (?c @ r) out w2" "w_txn w2 = Some (map argv_from cs)"
    "w_pos w2 = w_pos w1 + length (records cs)" by (auto simp: unit_ok_def Group)
  have "route_frame (argv_from [txn_commit]) out w2 = (foldl deliver out (map argv_from cs), w2\<lparr>w_txn := None\<rparr>)"
    using w2 by (simp add: route_frame_def marker_args)
  from walk_frame [OF marker_ok(2) marker_args(4) this, of r] show ?thesis using w1 w2 by (auto simp: Group)
next
  case (Base i)
  then show ?thesis using assms(2) walk_base [of i r out w] by auto
qed

lemma walk_unit_cut:
  assumes "unit_ok u" "w_txn w = None" "n < length (unit_bytes u)"
  shows "\<exists>w'. walk_loop (take n (unit_bytes u)) out w = (out, w') \<and> \<not> is_corrupt_frame (w_stop w') \<and>
    settled_end w' = w_pos w"
proof (cases u)
  case (Single c)
  then show ?thesis
    using assms walk_frame_cut [of c n out w] by (auto simp: unit_ok_def loggable_def settled_end_def)
next
  case (Group cs)
  let ?b = "write_record_multibulk [txn_begin]" and ?t = "records cs @ write_record_multibulk [txn_commit]"
  show ?thesis
  proof (cases "n < length ?b")
    case True
    then show ?thesis using assms walk_frame_cut [OF marker_ok(1) True, of out w] by (auto simp: Group settled_end_def)
  next
    case False
    from walk_begin [OF assms(2), of "take (n - length ?b) ?t" out] obtain w1 where
      w1: "walk_loop (take n (unit_bytes u)) out w = walk_loop (take (n - length ?b) ?t) out w1"
      "w_txn w1 = Some []" "w_txn_at w1 = w_pos w" using False by (auto simp: Group)
    have "n - length ?b < length ?t" using assms(3) False by (auto simp: Group)
    from walk_group_cut [OF _ w1(2) this, of out] assms(1) w1 show ?thesis by (auto simp: unit_ok_def Group settled_end_def)
  qed
next
  case (Base i)
  then show ?thesis using assms walk_frame_cut [OF base_args(1) [of i], of n out w] by (auto simp: settled_end_def)
qed

section \<open>A log cut anywhere\<close>

text \<open>The leading units whose bytes end within the first \<open>n\<close> bytes.\<close>

fun complete :: "nat \<Rightarrow> log_unit list \<Rightarrow> log_unit list" where
  "complete n [] = []"
| "complete n (u # us) =
     (if length (unit_bytes u) \<le> n then u # complete (n - length (unit_bytes u)) us else [])"

lemma units_simps [simp]:
  "units_bytes [] = []" "units_bytes (u # us) = unit_bytes u @ units_bytes us" "units_bytes (us @ vs) = units_bytes us @ units_bytes vs"
  "units_cmds [] = []" "units_cmds (u # us) = unit_cmds u @ units_cmds us" "units_cmds (us @ vs) = units_cmds us @ units_cmds vs"
  by (simp_all add: units_bytes_def units_cmds_def)

lemma walk_units_cut:
  assumes "list_all unit_ok us" "w_txn w = None"
  shows "\<exists>w'. walk_loop (take n (units_bytes us)) out w =
      (foldl deliver out (map argv_from (units_cmds (complete n us))), w') \<and> \<not> is_corrupt_frame (w_stop w') \<and>
    settled_end w' = w_pos w + length (units_bytes (complete n us))"
  using assms
proof (induction us arbitrary: n out w)
  case Nil
  then show ?case by (subst walk_loop.simps) (simp add: next_header_def settled_end_def)
next
  case (Cons u us)
  show ?case
  proof (cases "length (unit_bytes u) \<le> n")
    case True
    let ?m = "n - length (unit_bytes u)" and ?out = "foldl deliver out (map argv_from (unit_cmds u))"
    from walk_unit [of u w "take ?m (units_bytes us)" out] Cons.prems obtain w1 where
      w1: "walk_loop (take n (units_bytes (u # us))) out w = walk_loop (take ?m (units_bytes us)) ?out w1"
      "w_txn w1 = None" "w_pos w1 = w_pos w + length (unit_bytes u)" using True by auto
    from Cons.IH [OF _ w1(2), of ?m ?out] Cons.prems w1 True show ?thesis by (auto simp: add.assoc)
  next
    case False
    then show ?thesis using Cons.prems walk_unit_cut [of u w n out] by auto
  qed
qed

lemma replay_cut:
  assumes "list_all unit_ok us" "9 \<le> n"
  shows "\<exists>r. replay_with (Some (take n (aof2_magic @ units_bytes us))) False =
      (map argv_from (units_cmds (complete (n - 9) us)), r) \<and> \<not> r_corrupt r \<and> r_ranges r = [] \<and>
    r_replayed_bytes r = 9 + length (units_bytes (complete (n - 9) us))"
proof -
  have m: "length aof2_magic = 9" by (simp add: aof2_magic_def)
  let ?f = "take n (aof2_magic @ units_bytes us)"
  have f: "take 9 ?f = aof2_magic" "drop 9 ?f = take (n - 9) (units_bytes us)" using assms(2) m by simp_all
  from walk_units_cut [OF assms(1), of "walk_at 9" "n - 9" "Some []"] obtain w where
    w: "walk_v2 (drop 9 ?f) 9 (Some []) = (Some (map argv_from (units_cmds (complete (n - 9) us))), w)"
    "\<not> is_corrupt_frame (w_stop w)" "settled_end w = 9 + length (units_bytes (complete (n - 9) us))"
    unfolding f(2) walk_v2_def deliver_fold by (auto simp: walk_at_def)
  have "sniff_format (Some ?f) = V2" unfolding sniff_format_def using f(1) by simp
  then show ?thesis using w unfolding replay_with_def stream_v2_def Let_def by (simp del: take_append)
qed

end
