(* ===== verification/Aof_Runs.thy ===== *)
theory Aof_Runs
  imports Aof_Crash
begin

text \<open>
  Runs of an open log: appends, groups, ticks, background syncs, changes of the sync policy,
  truncations, rewrites, and power failures followed by a replay and a reopening. The lemmas show
  that the file always holds the history of units, that a power failure leaves a prefix of it with
  at least what was synced, and that nothing is lost under \<open>Always\<close>.
\<close>

section \<open>What the operations do to the file\<close>

lemma file_write_eq:
  "\<exists>d b. file_write a data = a\<lparr>a_disk := d, a_buf := b\<rparr> \<and> d @ b = a_disk a @ a_buf a @ data \<and>
     length (a_disk a) \<le> length d"
proof (cases "length data \<ge> aof_buf_cap")
  case True
  show ?thesis
  proof (cases "length (a_buf a) + length data > aof_buf_cap")
    case over: True
    then show ?thesis using True
      by (intro exI [of _ "a_disk a @ a_buf a @ data"] exI [of _ "[]"]) (simp add: file_write_def)
  next
    case False
    then have "length (a_buf a) = 0" using True by linarith
    then show ?thesis using True False
      by (intro exI [of _ "a_disk a @ data"] exI [of _ "[]"]) (simp add: file_write_def)
  qed
next
  case False
  show ?thesis
  proof (cases "length (a_buf a) + length data > aof_buf_cap")
    case True
    then show ?thesis using False
      by (intro exI [of _ "a_disk a @ a_buf a"] exI [of _ data]) (simp add: file_write_def)
  next
    case fits: False
    then show ?thesis using False
      by (intro exI [of _ "a_disk a"] exI [of _ "a_buf a @ data"]) (simp add: file_write_def)
  qed
qed

lemma file_writes_eq:
  "\<exists>d b. foldl file_write a ps = a\<lparr>a_disk := d, a_buf := b\<rparr> \<and> d @ b = a_disk a @ a_buf a @ concat ps \<and>
     length (a_disk a) \<le> length d"
proof (induction ps arbitrary: a)
  case Nil
  show ?case by (intro exI [of _ "a_disk a"] exI [of _ "a_buf a"]) simp
next
  case (Cons p ps)
  from file_write_eq [of a p] obtain d b where
    s: "file_write a p = a\<lparr>a_disk := d, a_buf := b\<rparr>" "d @ b = a_disk a @ a_buf a @ p" "length (a_disk a) \<le> length d"
    by blast
  from Cons.IH [of "a\<lparr>a_disk := d, a_buf := b\<rparr>"] obtain d' b' where
    "foldl file_write (a\<lparr>a_disk := d, a_buf := b\<rparr>) ps = a\<lparr>a_disk := d', a_buf := b'\<rparr>"
    "d' @ b' = (d @ b) @ concat ps" "length d \<le> length d'" by auto
  then show ?case using s by (intro exI [of _ d'] exI [of _ b']) simp
qed

text \<open>The handle without its bookkeeping: what a later write, sync or crash depends on.\<close>

definition same_mode :: "aof \<Rightarrow> aof \<Rightarrow> bool" where
  "same_mode a b \<longleftrightarrow> a_format b = a_format a \<and> a_queue b = a_queue a \<and> a_in_txn b = a_in_txn a \<and> a_fsync b = a_fsync a \<and>
     a_deferred b = a_deferred a \<and> a_sync_started b = a_sync_started a \<and> a_sync_confirmed b = a_sync_confirmed a"

definition grows :: "aof \<Rightarrow> bytes \<Rightarrow> aof \<Rightarrow> bool" where
  "grows a bs b \<longleftrightarrow> a_disk b @ a_buf b = a_disk a @ a_buf a @ bs \<and> length (a_disk a) \<le> length (a_disk b) \<and>
     a_tee b = map_option (\<lambda>t. t @ bs) (a_tee a)"

lemma append_effect:
  assumes "a_queue a = None" "a_format a = V2"
  shows "same_mode a (aof_append a c) \<and> grows a (write_record_multibulk c) (aof_append a c) \<and>
    (if a_fsync a = Always \<and> \<not> a_deferred a
     then a_buf (aof_append a c) = [] \<and> a_synced (aof_append a c) = length (a_disk (aof_append a c)) \<and>
       a_dirty (aof_append a c) = a_dirty a
     else a_synced (aof_append a c) = a_synced a \<and> a_dirty (aof_append a c))"
proof -
  from file_writes_eq [of a "write_frame (Some (record_header c)) c"] obtain d b where
    w: "foldl file_write a (write_frame (Some (record_header c)) c) = a\<lparr>a_disk := d, a_buf := b\<rparr>"
    "d @ b = a_disk a @ a_buf a @ write_record_multibulk c" "length (a_disk a) \<le> length d"
    unfolding write_frame_concat by blast
  then have l: "length d + length b = length (a_disk a @ a_buf a @ write_record_multibulk c)" by (metis length_append)
  show ?thesis
    using assms w(2,3) l
    by (cases "a_tee a"; cases "a_fsync a"; cases "a_deferred a")
      (simp_all add: aof_append_def Let_def w(1) same_mode_def grows_def file_flush_def sync_data_def write_frame_concat)
qed

lemma marker_effect:
  assumes "a_queue a = None" "a_format a = V2"
  shows "same_mode a (append_marker a name) \<and> grows a (write_record_multibulk [name]) (append_marker a name) \<and>
    a_synced (append_marker a name) = a_synced a \<and> a_dirty (append_marker a name) = a_dirty a"
proof -
  let ?f = "marker_frame name"
  from file_writes_eq [of a "[to_le_u32 (of_nat (length ?f)), to_le_u32 (checksum ?f), ?f]"] obtain d b where
    w: "foldl file_write a [to_le_u32 (of_nat (length ?f)), to_le_u32 (checksum ?f), ?f] = a\<lparr>a_disk := d, a_buf := b\<rparr>"
    "d @ b = a_disk a @ a_buf a @ write_record ?f" "length (a_disk a) \<le> length d"
    by (auto simp: write_record_def)
  show ?thesis
    using assms w(2,3) unfolding append_marker_def Let_def w(1)
    by (cases "a_tee a") (simp_all add: same_mode_def grows_def write_record_multibulk_def marker_frame_eq)
qed

section \<open>The file holds the history\<close>

definition open_bytes :: "bytes list list option \<Rightarrow> bytes" where
  "open_bytes op = (case op of None \<Rightarrow> [] | Some cs \<Rightarrow> write_record_multibulk [txn_begin] @ records cs)"

text \<open>
  The history of a log: its units and the commands of the group being written. While a rewrite
  runs, \<open>tu\<close> is the units since it began.
\<close>

definition log_holds :: "aof \<Rightarrow> log_unit list \<Rightarrow> bytes list list option \<Rightarrow> log_unit list option \<Rightarrow> bool" where
  "log_holds a us op tu \<longleftrightarrow>
     a_format a = V2 \<and> a_queue a = None \<and> a_in_txn a = (op \<noteq> None) \<and>
     a_disk a @ a_buf a = aof2_magic @ units_bytes us @ open_bytes op \<and>
     9 \<le> a_synced a \<and> a_synced a \<le> length (a_disk a) \<and>
     a_tee a = map_option (\<lambda>ts. units_bytes ts @ open_bytes op) tu \<and>
     list_all unit_ok us \<and> list_all unit_ok (case tu of Some ts \<Rightarrow> ts | None \<Rightarrow> []) \<and>
     list_all loggable (case op of Some cs \<Rightarrow> cs | None \<Rightarrow> [])"

lemma records_snoc [simp]: "records (cs @ [c]) = records cs @ write_record_multibulk c" "records [] = []"
  by (simp_all add: records_def)

lemma holds_grows:
  assumes "log_holds a us op tu" "same_mode a b" "grows a bs b" "a_synced a \<le> a_synced b" "a_synced b \<le> length (a_disk b)"
    and "units_bytes us @ open_bytes op @ bs = units_bytes us' @ open_bytes op'"
    and "\<And>ts. tu = Some ts \<Longrightarrow> units_bytes ts @ open_bytes op @ bs = units_bytes (the tu') @ open_bytes op'"
    and "(tu' = None) = (tu = None)" "list_all unit_ok us'" "list_all unit_ok (case tu' of Some ts \<Rightarrow> ts | None \<Rightarrow> [])"
    and "list_all loggable (case op' of Some cs \<Rightarrow> cs | None \<Rightarrow> [])"
  shows "log_holds (b\<lparr>a_in_txn := (op' \<noteq> None)\<rparr>) us' op' tu'"
proof -
  have t: "a_disk a @ a_buf a = aof2_magic @ units_bytes us @ open_bytes op" using assms(1) by (simp add: log_holds_def)
  have "a_disk b @ a_buf b = (a_disk a @ a_buf a) @ bs" using assms(3) by (simp add: grows_def)
  also have "\<dots> = aof2_magic @ units_bytes us' @ open_bytes op'" unfolding t using assms(6) by simp
  finally have "a_disk b @ a_buf b = aof2_magic @ units_bytes us' @ open_bytes op'" .
  moreover have "a_tee b = map_option (\<lambda>ts. units_bytes ts @ open_bytes op') tu'"
    using assms(1,3,7,8) by (cases tu; cases tu') (auto simp: log_holds_def grows_def)
  ultimately show ?thesis using assms(1,2,4,5,9-) by (auto simp: log_holds_def same_mode_def)
qed

lemma mode_grows_self: "log_holds a us op tu \<Longrightarrow> a\<lparr>a_in_txn := (op \<noteq> None)\<rparr> = a"
  by (simp add: log_holds_def)

lemma sync_grows:
  assumes "log_holds a us op tu" "same_mode a b" "grows a bs b"
    "a_synced b = a_synced a \<or> a_synced b = length (a_disk b)"
  shows "a_synced a \<le> a_synced b" "a_synced b \<le> length (a_disk b)"
  using assms by (auto simp: log_holds_def grows_def)

lemma append_synced:
  assumes "a_queue a = None" "a_format a = V2"
  shows "a_synced (aof_append a c) = a_synced a \<or> a_synced (aof_append a c) = length (a_disk (aof_append a c))"
  using append_effect [OF assms, of c] by (auto split: if_splits)

lemma holds_append_alone:
  assumes h: "log_holds a us None tu" and c: "loggable c"
  shows "log_holds (aof_append a c) (us @ [Single c]) None (map_option (\<lambda>ts. ts @ [Single c]) tu)"
proof -
  have q: "a_queue a = None" "a_format a = V2" "\<not> a_in_txn a" using h by (simp_all add: log_holds_def)
  note e = append_effect [OF q(1,2), of c]
  have "log_holds ((aof_append a c)\<lparr>a_in_txn := (None :: bytes list list option) \<noteq> None\<rparr>) (us @ [Single c]) None
      (map_option (\<lambda>ts. ts @ [Single c]) tu)"
    using e sync_grows [OF h _ _ append_synced [OF q(1,2)]] h c
    by (intro holds_grows [OF h]) (auto simp: log_holds_def unit_ok_def open_bytes_def split: option.splits)
  moreover have "(aof_append a c)\<lparr>a_in_txn := (None :: bytes list list option) \<noteq> None\<rparr> = aof_append a c"
    using e q(3) by (simp add: same_mode_def)
  ultimately show ?thesis by simp
qed

lemma holds_append_grouped:
  assumes h: "log_holds a us (Some cs) tu" and c: "loggable c"
  shows "log_holds (aof_append a c) us (Some (cs @ [c])) tu"
proof -
  have q: "a_queue a = None" "a_format a = V2" "a_in_txn a" using h by (simp_all add: log_holds_def)
  note e = append_effect [OF q(1,2), of c]
  have "log_holds ((aof_append a c)\<lparr>a_in_txn := Some (cs @ [c]) \<noteq> None\<rparr>) us (Some (cs @ [c])) tu"
    using e sync_grows [OF h _ _ append_synced [OF q(1,2)]] h c
    by (intro holds_grows [OF h]) (auto simp: log_holds_def open_bytes_def split: option.splits)
  moreover have "(aof_append a c)\<lparr>a_in_txn := Some (cs @ [c]) \<noteq> None\<rparr> = aof_append a c"
    using e q(3) by (simp add: same_mode_def)
  ultimately show ?thesis by simp
qed

lemma holds_begin:
  assumes h: "log_holds a us None tu"
  shows "log_holds (begin_group a) us (Some []) tu"
proof -
  let ?a = "begin_fsync_window a"
  have w: "log_holds ?a us None tu" using h by (simp add: begin_fsync_window_def log_holds_def)
  have q: "a_queue ?a = None" "a_format ?a = V2" using w by (simp_all add: log_holds_def)
  note e = marker_effect [OF q, of txn_begin]
  have "log_holds ((append_marker ?a txn_begin)\<lparr>a_in_txn := Some [] \<noteq> (None :: bytes list list option)\<rparr>) us (Some []) tu"
    using e sync_grows [OF w, of "append_marker ?a txn_begin"] w
    by (intro holds_grows [OF w]) (auto simp: log_holds_def open_bytes_def split: option.splits)
  then show ?thesis by (simp add: begin_group_def)
qed

lemma holds_sync:
  assumes "log_holds a us op tu" "a_disk b = a_disk a @ a_buf a" "a_buf b = []" "same_mode a b"
    "a_tee b = a_tee a" "a_synced b = a_synced a \<or> a_synced b = length (a_disk b)"
  shows "log_holds b us op tu"
proof -
  have "length (a_disk a) \<le> length (a_disk b)" using assms(2) by simp
  then show ?thesis using assms(1,3-) assms(2) [symmetric] by (auto simp: log_holds_def same_mode_def)
qed

lemma holds_fields:
  assumes "log_holds a us op tu" "a_disk b = a_disk a" "a_buf b = a_buf a" "a_format b = a_format a" "a_queue b = a_queue a"
    "a_in_txn b = a_in_txn a" "a_tee b = a_tee a" "a_synced b = a_synced a \<or> a_synced b = length (a_disk b)"
  shows "log_holds b us op tu"
  using assms by (auto simp: log_holds_def)

lemma holds_flush: "log_holds a us op tu \<Longrightarrow> log_holds (file_flush a) us op tu"
  by (erule holds_sync) (simp_all add: file_flush_def same_mode_def)

lemma holds_sync_data: "log_holds a us op tu \<Longrightarrow> log_holds (sync_data a) us op tu"
  by (erule holds_fields) (simp_all add: sync_data_def)

lemma flush_queued_none [simp]: "a_queue a = None \<Longrightarrow> flush_queued a = a"
  by (simp add: flush_queued_def)

lemma holds_end:
  assumes h: "log_holds a us (Some cs) tu"
  shows "log_holds (end_group a now) (us @ [Group cs]) None (map_option (\<lambda>ts. ts @ [Group cs]) tu)"
proof -
  have q: "a_queue a = None" "a_format a = V2" "a_in_txn a" using h by (simp_all add: log_holds_def)
  let ?a = "(append_marker a txn_commit)\<lparr>a_in_txn := (None :: bytes list list option) \<noteq> None\<rparr>"
  note e = marker_effect [OF q(1,2), of txn_commit]
  have m: "log_holds ?a (us @ [Group cs]) None (map_option (\<lambda>ts. ts @ [Group cs]) tu)"
    using e sync_grows [OF h, of "append_marker a txn_commit"] h
    by (intro holds_grows [OF h]) (auto simp: log_holds_def unit_ok_def open_bytes_def split: option.splits)
  have "log_holds (?a\<lparr>a_deferred := False\<rparr>) (us @ [Group cs]) None (map_option (\<lambda>ts. ts @ [Group cs]) tu)"
    by (rule holds_fields [OF m]) simp_all
  then have "log_holds ((sync_data (file_flush (?a\<lparr>a_deferred := False\<rparr>)))\<lparr>a_dirty := False, a_last_sync := now\<rparr>)
      (us @ [Group cs]) None (map_option (\<lambda>ts. ts @ [Group cs]) tu)"
    "log_holds (?a\<lparr>a_deferred := False\<rparr>) (us @ [Group cs]) None (map_option (\<lambda>ts. ts @ [Group cs]) tu)"
    by (auto intro!: holds_sync_data holds_flush intro: holds_fields [where a = "sync_data _"])
  then show ?thesis using q(3) m by (simp add: end_group_def Let_def)
qed

lemma holds_tick:
  assumes "log_holds a us op tu"
  shows "log_holds (snd (aof_tick a now)) us op tu"
proof -
  note f = holds_flush [OF assms]
  show ?thesis
    using assms f
    by (auto simp: aof_tick_def start_everysec_sync_def Let_def split: fsync.splits intro: holds_fields [OF f])
qed

lemma holds_run: "log_holds a us op tu \<Longrightarrow> log_holds (pending_run a g) us op tu"
  by (erule holds_fields) (simp_all add: pending_run_def sync_data_def)

lemma holds_synced_now: "log_holds a us op tu \<Longrightarrow>
    log_holds (confirm_started_syncs ((sync_data (file_flush a))\<lparr>a_dirty := False, a_last_sync := now\<rparr>)) us op tu"
  by (drule holds_flush, drule holds_sync_data, erule holds_fields) (simp_all add: confirm_started_syncs_def)

lemma holds_sync_now: "log_holds a us op tu \<Longrightarrow> log_holds (sync_now a now) us op tu"
  using holds_synced_now by (simp add: sync_now_def Let_def log_holds_def [of a])

lemma holds_set_fsync:
  assumes "log_holds a us op tu"
  shows "log_holds (set_fsync a fs now) us op tu"
proof -
  have f: "log_holds (a\<lparr>a_fsync := fs\<rparr>) us op tu" by (rule holds_fields [OF assms]) simp_all
  moreover have "a_queue (a\<lparr>a_fsync := fs\<rparr>) = None" using assms by (simp add: log_holds_def)
  ultimately show ?thesis using holds_synced_now [OF f, of now] by (auto simp: set_fsync_def Let_def)
qed

lemma magic_length [simp]: "length aof2_magic = 9"
  by (simp add: aof2_magic_def)

lemma holds_truncate: "log_holds a us None None \<Longrightarrow> log_holds (aof_truncate a now) [] None None"
  by (simp add: log_holds_def aof_truncate_def sync_data_def file_flush_def open_bytes_def Let_def)

lemma holds_begin_rewrite: "log_holds a us None tu \<Longrightarrow> log_holds (begin_view_rewrite a) us None (Some [])"
  using holds_flush [of a us None tu] by (simp add: log_holds_def begin_view_rewrite_def open_bytes_def)

lemma holds_finish_rewrite:
  "log_holds a us None (Some ts) \<Longrightarrow> list_all unit_ok im \<Longrightarrow>
    log_holds (finish_concurrent_rewrite a (aof2_magic @ units_bytes im) now) (im @ ts) None None"
  by (simp add: log_holds_def finish_concurrent_rewrite_def finish_concurrent_rewrite_with_def install_file_def open_bytes_def Let_def)

lemma holds_abort_rewrite: "log_holds a us None tu \<Longrightarrow> log_holds (abort_concurrent_rewrite a) us None None"
  by (simp add: log_holds_def abort_concurrent_rewrite_def)

lemma holds_open: "log_holds (aof_open None 0 fs now) [] None None"
  by (simp add: log_holds_def aof_open_def open_with_repair_def open_after_replay_def prepare_file_def open_bytes_def)

section \<open>Reopening after a power failure\<close>

text \<open>How many of the units end within the first \<open>n\<close> bytes of the file.\<close>

definition kept :: "nat \<Rightarrow> log_unit list \<Rightarrow> nat" where
  "kept n us = length (complete (n - 9) us)"

lemma complete_take: "complete n us = take (length (complete n us)) us"
  by (induction us arbitrary: n) auto

lemma complete_kept: "complete (n - 9) us = take (kept n us) us"
  unfolding kept_def by (rule complete_take)

lemma complete_mono: "m \<le> n \<Longrightarrow> length (complete m us) \<le> length (complete n us)"
  by (induction us arbitrary: m n) (auto simp: diff_le_mono)

lemma complete_all: "length (units_bytes us) \<le> n \<Longrightarrow> complete n us = us"
  by (induction us arbitrary: n) auto

lemma complete_snoc_short:
  "n < length (units_bytes us) + length (unit_bytes u) \<Longrightarrow> complete n (us @ [u]) = complete n us"
  by (induction us arbitrary: n) auto

lemma complete_bytes: "length (units_bytes (complete n us)) \<le> n"
proof (induction us arbitrary: n)
  case (Cons u us)
  show ?case using Cons [of "n - length (unit_bytes u)"] by auto
qed simp

lemma complete_cut: "take (length (units_bytes (complete n us))) (units_bytes us) = units_bytes (complete n us)"
  by (induction us arbitrary: n) auto

text \<open>
  A restart replays the file and opens it, told where the replay settled (\<open>walked\<close>) or finding
  that out again.
\<close>

definition recover :: "bytes \<Rightarrow> fsync \<Rightarrow> bool \<Rightarrow> nat \<Rightarrow> aof" where
  "recover file fs walked now =
     (let r = snd (replay_with (Some file) False)
      in open_after_replay (Some file) (length file) fs False (if walked then Some (r_replayed_bytes r) else None) now)"

lemma valid_prefix_cut:
  assumes "list_all unit_ok us" "9 \<le> n"
  shows "fst (valid_prefix_len_of_file (Some (take n (aof2_magic @ units_bytes us))) False) =
    9 + length (units_bytes (complete (n - 9) us))"
proof -
  let ?f = "take n (aof2_magic @ units_bytes us)"
  have f: "take 9 ?f = aof2_magic" "drop 9 ?f = take (n - 9) (units_bytes us)" using assms(2) by simp_all
  from walk_units_cut [OF assms(1), of "walk_at 9" "n - 9" None] obtain out w where
    w: "walk_v2 (drop 9 ?f) 9 None = (out, w)" "settled_end w = 9 + length (units_bytes (complete (n - 9) us))"
    unfolding f(2) walk_v2_def by (auto simp: walk_at_def)
  have "sniff_format (Some ?f) = V2" unfolding sniff_format_def using f(1) by simp
  then show ?thesis using w unfolding valid_prefix_len_of_file_def stream_v2_def Let_def by (simp del: take_append)
qed

lemma prepare_cut:
  assumes "list_all unit_ok us" "9 \<le> n" "settled = None \<or> settled = Some (9 + length (units_bytes (complete (n - 9) us)))"
    and f: "f = take n (aof2_magic @ units_bytes us)"
  shows "\<exists>q. prepare_file (Some f) False settled =
    (aof2_magic @ units_bytes (complete (n - 9) us), 9 + length (units_bytes (complete (n - 9) us)), V2, q)"
proof -
  let ?v = "9 + length (units_bytes (complete (n - 9) us))"
  have c: "take ?v f = aof2_magic @ units_bytes (complete (n - 9) us)"
    using complete_cut [of "n - 9" us] complete_bytes [of "n - 9" us] assms(2) unfolding f
    by (simp add: min_def)
  have "length (take ?v f) = ?v" unfolding c by simp
  then have len: "?v \<le> length f" by simp
  have "sniff_format (Some f) = V2" unfolding sniff_format_def f using assms(2) by simp
  moreover obtain z where v: "valid_prefix_len_of_file (Some f) False = (?v, z)"
    using valid_prefix_cut [OF assms(1,2), folded f] by (cases "valid_prefix_len_of_file (Some f) False") simp
  have whole: "f = take ?v f" if "length f \<le> ?v" using that by simp
  have r: "\<exists>q. repair_tail f (length f) False = (take ?v f, ?v, q)"
    unfolding repair_tail_def v Let_def prod.case using whole len by (cases "length f \<le> ?v") auto
  have "settle_tail f (length f) (Some ?v) False = (take ?v f, ?v, None)"
    unfolding settle_tail_def option.case using whole len by (cases "?v < length f") auto
  then have "\<exists>q. settle_tail f (length f) settled False = (take ?v f, ?v, q)"
    using assms(3) r by (auto simp only: settle_tail_def option.case)
  moreover have "f \<noteq> []" using len by auto
  ultimately show ?thesis unfolding c by (auto simp: prepare_file_def)
qed

lemma holds_recover:
  assumes "list_all unit_ok us" "9 \<le> n" and f: "f = take n (aof2_magic @ units_bytes us)"
  shows "log_holds (recover f fs walked now) (complete (n - 9) us) None None"
    "a_synced (recover f fs walked now) = length (a_disk (recover f fs walked now))"
    "a_buf (recover f fs walked now) = []" "\<not> a_dirty (recover f fs walked now)" "\<not> a_deferred (recover f fs walked now)"
proof -
  let ?s = "if walked then Some (r_replayed_bytes (snd (replay_with (Some f) False))) else None"
  have "r_replayed_bytes (snd (replay_with (Some f) False)) = 9 + length (units_bytes (complete (n - 9) us))"
    using replay_cut [OF assms(1,2)] unfolding f by auto
  then have "?s = None \<or> ?s = Some (9 + length (units_bytes (complete (n - 9) us)))" by simp
  from prepare_cut [OF assms(1,2) this f] obtain q where
    p: "prepare_file (Some f) False ?s =
      (aof2_magic @ units_bytes (complete (n - 9) us), 9 + length (units_bytes (complete (n - 9) us)), V2, q)" by blast
  have "list_all unit_ok (complete (n - 9) us)" using assms(1) complete_take by (metis list_all_append append_take_drop_id)
  then show "log_holds (recover f fs walked now) (complete (n - 9) us) None None"
    "a_synced (recover f fs walked now) = length (a_disk (recover f fs walked now))"
    "a_buf (recover f fs walked now) = []" "\<not> a_dirty (recover f fs walked now)" "\<not> a_deferred (recover f fs walked now)"
    unfolding recover_def Let_def open_after_replay_def p prod.case by (simp_all add: log_holds_def open_bytes_def)
qed

section \<open>Runs\<close>

text \<open>
  A reachable log with its history. A group runs to its end before anything but its own appends
  and a background sync happens, as on the one thread that owns the log. A background sync runs
  for a generation that was started. A power failure leaves some prefix of the file with at least
  the synced bytes.
\<close>

inductive aof_log :: "aof \<Rightarrow> log_unit list \<Rightarrow> bytes list list option \<Rightarrow> log_unit list option \<Rightarrow> bool" where
  log_opened: "aof_log (aof_open None 0 fs now) [] None None"
| log_appended: "aof_log a us None tu \<Longrightarrow> loggable c \<Longrightarrow>
    aof_log (aof_append a c) (us @ [Single c]) None (map_option (\<lambda>ts. ts @ [Single c]) tu)"
| log_begun: "aof_log a us None tu \<Longrightarrow> aof_log (begin_group a) us (Some []) tu"
| log_grouped: "aof_log a us (Some cs) tu \<Longrightarrow> loggable c \<Longrightarrow> aof_log (aof_append a c) us (Some (cs @ [c])) tu"
| log_ended: "aof_log a us (Some cs) tu \<Longrightarrow>
    aof_log (end_group a now) (us @ [Group cs]) None (map_option (\<lambda>ts. ts @ [Group cs]) tu)"
| log_ticked: "aof_log a us None tu \<Longrightarrow> aof_log (snd (aof_tick a now)) us None tu"
| log_ran: "aof_log a us op tu \<Longrightarrow> g \<le> a_sync_started a \<Longrightarrow> aof_log (pending_run a g) us op tu"
| log_synced: "aof_log a us None tu \<Longrightarrow> aof_log (sync_now a now) us None tu"
| log_set_fsync: "aof_log a us None tu \<Longrightarrow> aof_log (set_fsync a fs now) us None tu"
| log_truncated: "aof_log a us None None \<Longrightarrow> aof_log (aof_truncate a now) [] None None"
| log_rewriting: "aof_log a us None tu \<Longrightarrow> aof_log (begin_view_rewrite a) us None (Some [])"
| log_rewritten: "aof_log a us None (Some ts) \<Longrightarrow> list_all unit_ok im \<Longrightarrow>
    aof_log (finish_concurrent_rewrite a (aof2_magic @ units_bytes im) now) (im @ ts) None None"
| log_aborted: "aof_log a us None tu \<Longrightarrow> aof_log (abort_concurrent_rewrite a) us None None"
| log_recovered: "aof_log a us op tu \<Longrightarrow> a_synced a \<le> n \<Longrightarrow> n \<le> length (a_disk a) \<Longrightarrow>
    aof_log (recover (take n (a_disk a)) fs walked now) (take (kept n us) us) None None"

lemmas holds_intros = holds_open holds_append_alone holds_begin holds_append_grouped holds_end holds_tick holds_run
  holds_sync_now holds_set_fsync holds_truncate holds_begin_rewrite holds_finish_rewrite holds_abort_rewrite

text \<open>What a prefix of the file holds: the units of the history that end in it.\<close>

lemma disk_cut:
  assumes "log_holds a us op tu" "n \<le> length (a_disk a)"
  shows "\<exists>vs. take n (a_disk a) = take n (aof2_magic @ units_bytes vs) \<and> list_all unit_ok vs \<and>
    complete (n - 9) vs = complete (n - 9) us"
proof -
  have t: "a_disk a @ a_buf a = aof2_magic @ units_bytes us @ open_bytes op" "list_all unit_ok us"
    using assms(1) by (simp_all add: log_holds_def)
  have n: "take n (a_disk a) = take n (aof2_magic @ units_bytes us @ open_bytes op)"
    using assms(2) unfolding t(1) [symmetric] by simp
  show ?thesis
  proof (cases op)
    case None
    then show ?thesis using n t(2) by (intro exI [of _ us]) (simp add: open_bytes_def)
  next
    case (Some cs)
    have c: "list_all loggable cs" using assms(1) Some by (simp add: log_holds_def)
    have l: "length (a_disk a) + length (a_buf a) = 9 + length (units_bytes us) + length (open_bytes op)"
      using arg_cong [OF t(1), of length] by simp
    have "length (open_bytes op) < length (unit_bytes (Group cs))" by (simp add: Some open_bytes_def write_record_multibulk_def)
    then have short: "n - 9 < length (units_bytes us) + length (unit_bytes (Group cs))" using l assms(2) by linarith
    have "take n (aof2_magic @ units_bytes us @ open_bytes op) = take n (aof2_magic @ units_bytes (us @ [Group cs]))"
      using l assms(2) by (simp add: Some open_bytes_def)
    then show ?thesis using n t(2) c complete_snoc_short [OF short]
      by (intro exI [of _ "us @ [Group cs]"]) (simp add: unit_ok_def)
  qed
qed

lemma aof_log_holds: "aof_log a us op tu \<Longrightarrow> log_holds a us op tu"
proof (induction rule: aof_log.induct)
  case (log_recovered a us op tu n fs walked now)
  from disk_cut [OF log_recovered.IH log_recovered.hyps(3)] obtain vs where
    v: "take n (a_disk a) = take n (aof2_magic @ units_bytes vs)" "list_all unit_ok vs"
    "complete (n - 9) vs = complete (n - 9) us" by blast
  have "9 \<le> n" using log_recovered by (simp add: log_holds_def)
  from holds_recover(1) [OF v(2) this v(1), unfolded v(3), unfolded complete_kept] show ?case .
qed (auto intro: holds_intros)

section \<open>Crash safety\<close>

lemma argv_list_from_loggable: "loggable c \<Longrightarrow> argv_list (argv_from c) = c"
proof -
  assume "loggable c"
  then have "length (write_multibulk c) < 4294967296" by (simp add: loggable_def frame_ok_def max_record_def)
  moreover have "sum_list (map length c) \<le> length (write_multibulk c)"
  proof -
    have "sum_list (map length xs) \<le> length (concat (map (\<lambda>a. (36 # dec_digits (length a) @ crlf) @ a @ crlf) xs))" for xs :: "bytes list"
      by (induction xs) auto
    from this [of c] show ?thesis unfolding write_multibulk_def by simp
  qed
  ultimately show ?thesis by (intro argv_list_from) linarith
qed

lemma units_loggable: "list_all unit_ok us \<Longrightarrow> list_all loggable (units_cmds us)"
  by (induction us) (simp_all add: unit_ok_def)

lemma list_all_take: "list_all P us \<Longrightarrow> list_all P (take k us)"
  by (metis append_take_drop_id list_all_append)

lemma kept_mono: "m \<le> n \<Longrightarrow> kept m us \<le> kept n us"
  unfolding kept_def by (intro complete_mono) simp

lemma replay_of_cut:
  assumes "log_holds a us op tu" "a_synced a \<le> n" "n \<le> length (a_disk a)"
  shows "map argv_list (fst (replay_with (Some (take n (a_disk a))) False)) = units_cmds (take (kept n us) us) \<and>
    \<not> r_corrupt (snd (replay_with (Some (take n (a_disk a))) False))"
proof -
  from disk_cut [OF assms(1,3)] obtain vs where
    v: "take n (a_disk a) = take n (aof2_magic @ units_bytes vs)" "list_all unit_ok vs"
    "complete (n - 9) vs = complete (n - 9) us" by blast
  have ok: "list_all unit_ok us" "9 \<le> n" using assms by (simp_all add: log_holds_def)
  from replay_cut [OF v(2) ok(2), folded v(1), unfolded v(3), unfolded complete_kept] obtain r where
    r: "replay_with (Some (take n (a_disk a))) False = (map argv_from (units_cmds (take (kept n us) us)), r)" "\<not> r_corrupt r"
    by blast
  have "list_all loggable (units_cmds (take (kept n us) us))" using ok(1) by (intro units_loggable list_all_take)
  then have "map (argv_list \<circ> argv_from) (units_cmds (take (kept n us) us)) = units_cmds (take (kept n us) us)"
    by (intro map_idI) (auto simp: list_all_iff argv_list_from_loggable)
  then show ?thesis using r by simp
qed


section \<open>Durability\<close>

text \<open>The first \<open>n\<close> bytes of the file hold every command of the history.\<close>

definition covers :: "nat \<Rightarrow> log_unit list \<Rightarrow> bool" where
  "covers n us \<longleftrightarrow> units_cmds (drop (kept n us) us) = []"

lemma drop_no_cmds: "units_cmds (drop j us) = [] \<Longrightarrow> j \<le> k \<Longrightarrow> units_cmds (drop k us) = []"
proof -
  assume j: "units_cmds (drop j us) = []" "j \<le> k"
  then obtain i where "k = i + j" using le_Suc_ex add.commute by metis
  then have "drop j us = take i (drop j us) @ drop k us" by (simp add: add.commute flip: drop_drop)
  then show ?thesis using j(1) units_simps(6) by (metis append_is_Nil_conv)
qed

lemma covers_mono: "covers m us \<Longrightarrow> m \<le> n \<Longrightarrow> covers n us"
  unfolding covers_def using drop_no_cmds kept_mono by blast

lemma covers_all: "9 + length (units_bytes us) \<le> n \<Longrightarrow> covers n us"
  by (simp add: covers_def kept_def complete_all)

lemma complete_snoc_mono: "length (complete n us) \<le> length (complete n (us @ [u]))"
  by (induction us arbitrary: n) auto

lemma covers_snoc_empty:
  assumes "covers n us" "unit_cmds u = []"
  shows "covers n (us @ [u])"
proof -
  let ?k = "kept n (us @ [u])"
  have "units_cmds (drop ?k us) = []"
    using assms(1) complete_snoc_mono [of "n - 9" us u] by (auto simp: covers_def kept_def intro: drop_no_cmds)
  moreover have "units_cmds (drop j [u]) = []" for j using assms(2) by (cases j) simp_all
  ultimately show ?thesis by (simp add: covers_def)
qed

lemma covers_replay: "covers n us \<Longrightarrow> units_cmds (take (kept n us) us) = units_cmds us"
  by (metis covers_def append_Nil2 append_take_drop_id units_simps(6))

text \<open>
  What keeps a log durable: unsynced commands leave the handle dirty or a sync unconfirmed, and
  under \<open>Always\<close> there are none between groups.
\<close>

definition durable :: "aof \<Rightarrow> log_unit list \<Rightarrow> bytes list list option \<Rightarrow> bool" where
  "durable a us op \<longleftrightarrow>
     a_deferred a = (op \<noteq> None \<and> a_fsync a = Always) \<and> a_sync_confirmed a \<le> a_sync_started a \<and>
     (\<not> a_dirty a \<longrightarrow> (op = None \<or> op = Some []) \<and> covers (length (a_disk a)) us) \<and>
     (\<not> a_dirty a \<and> \<not> sync_unconfirmed a \<longrightarrow> covers (a_synced a) us) \<and>
     (a_fsync a = Always \<and> (op = None \<or> \<not> a_dirty a) \<longrightarrow> covers (a_synced a) us)"

lemma covers_whole:
  "log_holds a us None tu \<Longrightarrow> a_buf a = [] \<Longrightarrow> covers (length (a_disk a)) us"
  by (rule covers_all) (simp add: log_holds_def open_bytes_def)

lemma durable_synced:
  assumes "log_holds a us None tu" "a_buf a = []" "a_synced a = length (a_disk a)" "\<not> a_deferred a"
    "a_sync_confirmed a \<le> a_sync_started a"
  shows "durable a us None"
  using covers_whole [OF assms(1,2)] assms by (simp add: durable_def)

lemma sync_unconfirmed_fields:
  "a_sync_confirmed b = a_sync_confirmed a \<Longrightarrow> a_sync_started b = a_sync_started a \<Longrightarrow> sync_unconfirmed b = sync_unconfirmed a"
  by (simp add: sync_unconfirmed_def)

lemma durable_append_alone:
  assumes "log_holds a us None tu" "durable a us None" "loggable c"
  shows "durable (aof_append a c) (us @ [Single c]) None"
proof -
  have q: "a_queue a = None" "a_format a = V2" using assms(1) by (simp_all add: log_holds_def)
  note e = append_effect [OF q, of c]
  note h = holds_append_alone [OF assms(1,3)]
  have d: "\<not> a_deferred a" "a_sync_confirmed a \<le> a_sync_started a" using assms(2) by (simp_all add: durable_def)
  show ?thesis
  proof (cases "a_fsync a = Always")
    case True
    then show ?thesis using e d by (intro durable_synced [OF h]) (auto simp: same_mode_def)
  next
    case False
    then show ?thesis using e d by (auto simp: durable_def same_mode_def)
  qed
qed

lemma durable_append_grouped:
  assumes "log_holds a us (Some cs) tu" "durable a us (Some cs)"
  shows "durable (aof_append a c) us (Some (cs @ [c]))"
  using assms append_effect [of a c] by (auto simp: durable_def same_mode_def log_holds_def)

lemma durable_begin:
  assumes "log_holds a us None tu" "durable a us None"
  shows "durable (begin_group a) us (Some [])"
proof -
  let ?a = "begin_fsync_window a"
  have "a_queue ?a = None" "a_format ?a = V2" using assms(1) by (simp_all add: log_holds_def begin_fsync_window_def)
  note e = marker_effect [OF this, of txn_begin]
  have "length (a_disk a) \<le> length (a_disk (begin_group a))"
    using e by (auto simp: begin_group_def grows_def begin_fsync_window_def split: if_splits)
  then show ?thesis
    using e assms(2) covers_mono [of _ us]
    by (auto simp: durable_def begin_group_def same_mode_def begin_fsync_window_def sync_unconfirmed_def)
qed

lemma durable_end:
  assumes h: "log_holds a us (Some cs) tu" and d: "durable a us (Some cs)"
  shows "durable (end_group a now) (us @ [Group cs]) None"
proof -
  have q: "a_queue a = None" "a_format a = V2" "a_in_txn a" using h by (simp_all add: log_holds_def)
  let ?m = "(append_marker a txn_commit)\<lparr>a_in_txn := False\<rparr>"
  have e: "same_mode a (append_marker a txn_commit)" "grows a (write_record_multibulk [txn_commit]) (append_marker a txn_commit)"
    "a_synced ?m = a_synced a" "a_dirty ?m = a_dirty a" using marker_effect [OF q(1,2), of txn_commit] by simp_all
  note f = e(1) [unfolded same_mode_def]
  show ?thesis
  proof (cases "a_deferred a \<and> a_dirty a")
    case True
    then have "a_buf (end_group a now) = []" "a_synced (end_group a now) = length (a_disk (end_group a now))"
      "\<not> a_deferred (end_group a now)" "a_sync_confirmed (end_group a now) \<le> a_sync_started (end_group a now)"
      using q f e d by (simp_all add: end_group_def sync_data_def file_flush_def Let_def durable_def)
    then show ?thesis by (intro durable_synced [OF holds_end [OF h]])
  next
    case False
    then have eq: "end_group a now = ?m\<lparr>a_deferred := False\<rparr>" using q f e by (simp add: end_group_def Let_def)
    have "covers n us \<Longrightarrow> \<not> a_dirty a \<Longrightarrow> covers n (us @ [Group cs])" for n
      using d by (intro covers_snoc_empty) (auto simp: durable_def)
    moreover have "length (a_disk a) \<le> length (a_disk ?m)" using e(2) by (simp add: grows_def)
    ultimately show ?thesis
      using False d e f covers_mono [of "length (a_disk a)" us "length (a_disk ?m)"]
      unfolding eq by (auto simp: durable_def sync_unconfirmed_def)
  qed
qed

lemma durable_tick:
  assumes h: "log_holds a us None tu" and d: "durable a us None"
  shows "durable (snd (aof_tick a now)) us None"
proof -
  have w: "covers (length (a_disk (file_flush a))) us" using holds_flush [OF h] by (intro covers_whole) (auto simp: file_flush_def)
  have f: "a_fsync (file_flush a) = a_fsync a" "a_deferred (file_flush a) = a_deferred a" "a_dirty (file_flush a) = a_dirty a"
    "a_synced (file_flush a) = a_synced a" "a_sync_started (file_flush a) = a_sync_started a"
    "a_sync_confirmed (file_flush a) = a_sync_confirmed a" by (simp_all add: file_flush_def)
  show ?thesis
    using d w
    by (cases "a_fsync a") (auto simp: aof_tick_def start_everysec_sync_def durable_def sync_unconfirmed_def f Let_def)
qed

lemma durable_run:
  assumes "log_holds a us op tu" "durable a us op" "g \<le> a_sync_started a"
  shows "durable (pending_run a g) us op"
proof -
  have s: "a_synced a \<le> length (a_disk a)" using assms(1) by (simp add: log_holds_def)
  then show ?thesis
    using assms(2,3) covers_mono [OF _ s] by (auto simp: durable_def pending_run_def sync_data_def sync_unconfirmed_def)
qed

lemma durable_synced_now:
  assumes "log_holds a us None tu" "\<not> a_deferred a" "a_sync_confirmed a \<le> a_sync_started a"
  shows "durable (confirm_started_syncs ((sync_data (file_flush a))\<lparr>a_dirty := False, a_last_sync := now\<rparr>)) us None"
  using assms(2,3)
  by (intro durable_synced [OF holds_synced_now [OF assms(1)]])
    (simp_all add: confirm_started_syncs_def sync_data_def file_flush_def)

lemma durable_sync_now:
  assumes "log_holds a us None tu" "durable a us None"
  shows "durable (sync_now a now) us None"
  using assms durable_synced_now [OF assms(1), of now] by (auto simp: sync_now_def Let_def log_holds_def durable_def)

lemma durable_set_fsync:
  assumes h: "log_holds a us None tu" and d: "durable a us None"
  shows "durable (set_fsync a fs now) us None"
proof -
  let ?a = "a\<lparr>a_fsync := fs\<rparr>"
  have f: "log_holds ?a us None tu" by (rule holds_fields [OF h]) simp_all
  have q: "flush_queued ?a = ?a" using h by (simp add: log_holds_def)
  have "durable (confirm_started_syncs ((sync_data (file_flush ?a))\<lparr>a_dirty := False, a_last_sync := now\<rparr>)) us None"
    using d by (intro durable_synced_now [OF f]) (simp_all add: durable_def)
  moreover have "durable ?a us None" if "\<not> (fs = Always \<and> a_fsync a \<noteq> Always \<and> (a_dirty a \<or> sync_unconfirmed a))"
    using that d by (auto simp: durable_def sync_unconfirmed_def)
  ultimately show ?thesis using q by (auto simp: set_fsync_def Let_def sync_unconfirmed_def)
qed

lemma aof_log_durable: "aof_log a us op tu \<Longrightarrow> durable a us op"
proof (induction rule: aof_log.induct)
  case (log_opened fs now)
  show ?case
    by (rule durable_synced [OF holds_open])
      (simp_all add: aof_open_def open_with_repair_def open_after_replay_def prepare_file_def)
next
  case (log_truncated a us now)
  note h = aof_log_holds [OF log_truncated.hyps]
  have "flush_queued a = a" using h by (simp add: log_holds_def)
  then show ?case using log_truncated.IH
    by (intro durable_synced [OF holds_truncate [OF h]])
      (simp_all add: aof_truncate_def sync_data_def file_flush_def durable_def Let_def)
next
  case (log_rewriting a us tu)
  note h = aof_log_holds [OF log_rewriting.hyps]
  have q: "flush_queued a = a" using h by (simp add: log_holds_def)
  then have "length (a_disk a) \<le> length (a_disk (begin_view_rewrite a))" by (simp add: begin_view_rewrite_def file_flush_def)
  with q show ?case using log_rewriting.IH covers_mono [of "length (a_disk a)" us]
    by (auto simp: durable_def begin_view_rewrite_def file_flush_def sync_unconfirmed_def)
next
  case (log_rewritten a us ts im now)
  show ?case using log_rewritten.IH
    by (intro durable_synced [OF holds_finish_rewrite [OF aof_log_holds [OF log_rewritten.hyps(1)] log_rewritten.hyps(2)]])
      (simp_all add: finish_concurrent_rewrite_def finish_concurrent_rewrite_with_def install_file_def Let_def durable_def)
next
  case (log_recovered a us op tu n fs walked now)
  note h = aof_log_holds [OF log_recovered.hyps(1)]
  from disk_cut [OF h log_recovered.hyps(3)] obtain vs where
    v: "take n (a_disk a) = take n (aof2_magic @ units_bytes vs)" "list_all unit_ok vs" by blast
  have n: "9 \<le> n" using h log_recovered.hyps(2) by (simp add: log_holds_def)
  show ?case
    by (rule durable_synced [OF aof_log_holds [OF aof_log.log_recovered [OF log_recovered.hyps]]])
      (use holds_recover [OF v(2) n v(1), of fs walked now] in
        \<open>simp_all add: recover_def open_after_replay_def Let_def split: prod.splits\<close>)
next
  case (log_aborted a us tu)
  then show ?case by (simp add: durable_def abort_concurrent_rewrite_def sync_unconfirmed_def)
qed (blast intro: durable_append_alone durable_begin durable_append_grouped durable_end durable_tick durable_run
    durable_sync_now durable_set_fsync aof_log_holds)+


section \<open>Witnesses\<close>

text \<open>A log with one command and a group, and the commands in it.\<close>

abbreviation ping :: "bytes list" where "ping \<equiv> [[80, 73, 78, 71]]"

lemma loggable_ping: "loggable ping"
proof -
  have "frame_ok ping"
    by (simp add: frame_ok_def sendable_def max_multibulk_len_def max_bulk_len_def write_multibulk_def max_record_def
        dec_digits.simps)
  moreover have "txn_marker (argv_from ping) = None" "base_of (argv_from ping) = None"
    by (simp_all add: txn_marker_def base_of_def argv_from_def argv_extend_def argv_push_def argv_default_def
        argv_len_def argv_get_def nth_opt_def slice_def as_u32_def txn_begin_def txn_commit_def)
  ultimately show ?thesis by (simp only: loggable_def simp_thms)
qed

definition sample_log :: "fsync \<Rightarrow> aof" where
  "sample_log fs = end_group (aof_append (begin_group (aof_append (aof_open None 0 fs 0) ping)) ping) 0"

lemma sample_log_reached: "aof_log (sample_log fs) [Single ping, Group [ping]] None None"
proof -
  have "aof_log (sample_log fs) (([] @ [Single ping]) @ [Group ([] @ [ping])]) None
      (map_option (\<lambda>ts. ts @ [Group ([] @ [ping])]) (map_option (\<lambda>ts. ts @ [Single ping]) None))"
    unfolding sample_log_def by (intro aof_log.intros loggable_ping)
  then show ?thesis by simp
qed

lemma fsync_kept:
  assumes "aof_log a us op tu"
  shows "a_fsync (aof_append a c) = a_fsync a" "a_fsync (begin_group a) = a_fsync a" "a_fsync (end_group a now) = a_fsync a"
proof -
  have q: "a_queue a = None" "a_format a = V2" using aof_log_holds [OF assms] unfolding log_holds_def by blast+
  then have m: "a_fsync (append_marker a name) = a_fsync a" for name
    using marker_effect [of a name] unfolding same_mode_def by simp
  have w: "a_queue (begin_fsync_window a) = None" "a_format (begin_fsync_window a) = V2"
    using q by (simp_all add: begin_fsync_window_def)
  show "a_fsync (aof_append a c) = a_fsync a" using append_effect [OF q, of c] unfolding same_mode_def by simp
  show "a_fsync (begin_group a) = a_fsync a"
    using marker_effect [OF w, of txn_begin] unfolding same_mode_def by (simp add: begin_group_def begin_fsync_window_def)
  show "a_fsync (end_group a now) = a_fsync a" by (simp add: end_group_def Let_def sync_data_def file_flush_def m)
qed

lemma sample_log_fsync: "a_fsync (sample_log fs) = fs"
proof -
  note l0 = log_opened [of fs 0]
  note l1 = log_appended [OF l0 loggable_ping]
  note l2 = log_begun [OF l1]
  note l3 = log_grouped [OF l2 loggable_ping]
  have "a_fsync (sample_log fs) = a_fsync (aof_open None 0 fs 0)"
    unfolding sample_log_def fsync_kept(3) [OF l3] fsync_kept(1) [OF l2] fsync_kept(2) [OF l1] fsync_kept(1) [OF l0] ..
  then show ?thesis by (simp add: aof_open_def open_with_repair_def open_after_replay_def prepare_file_def)
qed

lemma sample_log_synced: "a_synced (sample_log fs) \<le> length (a_disk (sample_log fs))"
  using aof_log_holds [OF sample_log_reached [of fs]] unfolding log_holds_def by (elim conjE)



end
