(* ===== verification/Aof_Faults.thy ===== *)
theory Aof_Faults
  imports Aof_Runs
begin

text \<open>
  Damaged logs. A record changed within four consecutive bytes is always refused, and the strict
  replay stops right before it. The resynchronizing replay, which hunts for the next record after a
  stop, is shown to run a command that a client only stored as the bytes of a value.
\<close>

section \<open>Damage is found\<close>

lemma walk_units:
  assumes "list_all unit_ok us" "w_txn w = None"
  shows "\<exists>w'. walk_loop (units_bytes us @ r) out w = walk_loop r (foldl deliver out (map argv_from (units_cmds us))) w' \<and>
    w_txn w' = None \<and> w_pos w' = w_pos w + length (units_bytes us)"
  using assms
proof (induction us arbitrary: out w)
  case (Cons u us)
  from walk_unit [of u w "units_bytes us @ r" out] Cons.prems obtain w1 where
    w1: "walk_loop (units_bytes (u # us) @ r) out w =
      walk_loop (units_bytes us @ r) (foldl deliver out (map argv_from (unit_cmds u))) w1"
    "w_txn w1 = None" "w_pos w1 = w_pos w + length (unit_bytes u)" by auto
  from Cons.IH [OF _ w1(2), of "foldl deliver out (map argv_from (unit_cmds u))"] Cons.prems w1 show ?case by auto
qed auto

lemma walk_damaged:
  assumes "0 < length p" "length p \<le> max_record" "length q = length p" "checksum q \<noteq> checksum p"
  shows "walk_loop (take 8 (write_record p) @ q @ rest) out w =
    (out, w\<lparr>w_preview := preview_of q, w_stop := Corrupt_frame Checksum_mismatch\<rparr>)"
proof -
  have "take 8 (write_record p) = to_le_u32 (of_nat (length p)) @ to_le_u32 (checksum p)" by (simp add: write_record_def)
  then have "next_header (take 8 (write_record p) @ q @ rest) w = (Ok (length p, checksum p, q @ rest), w)"
    using assms(1,2) max_record_u32 [OF assms(2)] by (simp add: next_header_def Let_def)
  then show ?thesis using assms(3,4) by (subst walk_loop.simps) (simp add: Let_def)
qed

text \<open>A file with a record in it, and what the strict replay says of it up to that record.\<close>

lemma replay_stops_at:
  assumes "list_all unit_ok us"
    and "\<And>out w. w_txn w = None \<Longrightarrow> \<exists>w'. walk_loop tail_bytes out w = (out, w') \<and> is_corrupt_frame (w_stop w') \<and>
      w_txn w' = None \<and> w_pos w' = w_pos w"
  shows "map argv_list (fst (replay_with (Some (aof2_magic @ units_bytes us @ tail_bytes)) False)) = units_cmds us \<and>
    r_corrupt (snd (replay_with (Some (aof2_magic @ units_bytes us @ tail_bytes)) False)) \<and>
    r_replayed_bytes (snd (replay_with (Some (aof2_magic @ units_bytes us @ tail_bytes)) False)) = 9 + length (units_bytes us)"
proof -
  let ?f = "aof2_magic @ units_bytes us @ tail_bytes"
  from walk_units [OF assms(1), of "walk_at 9" tail_bytes "Some []"] obtain w1 where
    w1: "walk_v2 (units_bytes us @ tail_bytes) 9 (Some []) = walk_loop tail_bytes (Some (map argv_from (units_cmds us))) w1"
    "w_txn w1 = None" "w_pos w1 = 9 + length (units_bytes us)"
    unfolding walk_v2_def deliver_fold by (auto simp: walk_at_def)
  from assms(2) [OF w1(2)] obtain w2 where
    w2: "walk_loop tail_bytes (Some (map argv_from (units_cmds us))) w1 = (Some (map argv_from (units_cmds us)), w2)"
    "is_corrupt_frame (w_stop w2)" "w_txn w2 = None" "w_pos w2 = w_pos w1" by blast
  have "map (argv_list \<circ> argv_from) (units_cmds us) = units_cmds us"
    using units_loggable [OF assms(1)] by (intro map_idI) (auto simp: list_all_iff argv_list_from_loggable)
  moreover have "take 9 ?f = aof2_magic" "drop 9 ?f = units_bytes us @ tail_bytes" by simp_all
  ultimately show ?thesis
    using w1 w2 by (simp add: replay_with_def sniff_format_def stream_v2_def settled_end_def Let_def)
qed



section \<open>Resynchronizing runs stored bytes\<close>

lemma resync_scan_skip:
  assumes "list_all (\<lambda>q. next_record buf q \<in> {Truncated, Corrupt}) [a..<b]" "a \<le> b" "b \<le> length buf"
  shows "resync_scan buf a = resync_scan buf b"
  using assms
proof (induction "b - a" arbitrary: a)
  case (Suc n)
  then have "a < b" by simp
  then have "next_record buf a \<in> {Truncated, Corrupt}" "list_all (\<lambda>q. next_record buf q \<in> {Truncated, Corrupt}) [Suc a..<b]"
    using Suc.prems(1) by (simp_all add: upt_conv_Cons)
  then have "resync_scan buf a = resync_scan buf (Suc a)"
    using \<open>a < b\<close> Suc.prems(3) by (subst resync_scan.simps) auto
  also have "\<dots> = resync_scan buf b"
    using Suc \<open>a < b\<close> \<open>list_all _ [Suc a..<b]\<close> by (intro Suc.hyps(1)) auto
  finally show ?case .
qed simp

text \<open>The command a client stores, and the command whose record its value begins with.\<close>

definition flushall :: "bytes list" where "flushall = [[70, 76, 85, 83, 72, 65, 76, 76]]"

definition stored_record :: bytes where
  "stored_record = [18, 0, 0, 0, 246, 173, 173, 255, 42, 49, 13, 10, 36, 56, 13, 10, 70, 76, 85, 83, 72, 65, 76, 76, 13, 10]"

definition set_stored :: "bytes list" where
  "set_stored = [[83, 69, 84], [107], stored_record @ [120]]"

definition set_head :: bytes where
  "set_head = [54, 0, 0, 0, 224, 44, 26, 217, 42, 51, 13, 10, 36, 51, 13, 10, 83, 69, 84, 13, 10, 36, 49, 13, 10, 107, 13, 10,
     36, 50, 55, 13, 10]"

lemma crc_bits8: "(crc_bit ^^ 8) x = crc_bit (crc_bit (crc_bit (crc_bit (crc_bit (crc_bit (crc_bit (crc_bit x)))))))"
  by (simp add: numeral_eq_Suc)

lemmas crc_eval = checksum_def crc32c_def crc32c_append_serial crc32c_serial_def crc32c_u8_def crc_bits8 crc_bit_def

lemma stored_record_eq: "stored_record = write_record_multibulk flushall"
proof -
  have p: "write_multibulk flushall = [42, 49, 13, 10, 36, 56, 13, 10, 70, 76, 85, 83, 72, 65, 76, 76, 13, 10]"
    by (simp add: write_multibulk_def flushall_def dec_digits.simps digit_byte_def)
  have "checksum (write_multibulk flushall) = 0xffadadf6" unfolding p by (simp add: crc_eval)
  then show ?thesis
    by (simp add: stored_record_def write_record_multibulk_def write_record_def p to_le_u32_def upt_rec)
qed

lemma set_record_eq: "write_record_multibulk set_stored = set_head @ stored_record @ [120, 13, 10]"
proof -
  have p: "write_multibulk set_stored = drop 8 set_head @ stored_record @ [120, 13, 10]"
    by (simp add: write_multibulk_def set_stored_def set_head_def stored_record_def dec_digits.simps digit_byte_def)
  have "checksum (write_multibulk set_stored) = 0xd91a2ce0" unfolding p
    by (simp add: set_head_def stored_record_def crc_eval)
  then show ?thesis
    by (simp add: write_record_multibulk_def write_record_def p)
      (simp add: set_head_def stored_record_def to_le_u32_def upt_rec)
qed

lemma flushall_ok: "frame_ok flushall" "base_of (argv_from flushall) = None" "argv_list (argv_from flushall) = flushall"
proof -
  show "frame_ok flushall"
    by (simp add: frame_ok_def sendable_def max_multibulk_len_def max_bulk_len_def write_multibulk_def max_record_def
        dec_digits.simps flushall_def)
  show "base_of (argv_from flushall) = None" "argv_list (argv_from flushall) = flushall"
    by (simp_all add: base_of_def argv_from_def argv_extend_def argv_push_def argv_default_def argv_list_def
        argv_len_def argv_get_def nth_opt_def slice_def as_u32_def flushall_def)
qed

lemma one_command_frame: "frame_ok c \<Longrightarrow> one_command (write_multibulk c) = Some (argv_from c)"
  using command_encoded [of c "[]"]
  by (simp add: one_command_def parse_command_def parse_command_into_def write_multibulk_eq frame_ok_def)

lemma stored_at: "next_record (set_head @ stored_record) 33 = Record (write_multibulk flushall) 26"
  "next_record (set_head @ stored_record) 59 = Truncated"
proof -
  have "drop 33 (set_head @ stored_record) = write_record (write_multibulk flushall) @ []"
    by (simp add: stored_record_eq set_head_def write_record_multibulk_def)
  moreover have "length (write_multibulk flushall) = 18"
    by (simp add: write_multibulk_def flushall_def dec_digits.simps)
  ultimately show "next_record (set_head @ stored_record) 33 = Record (write_multibulk flushall) 26"
    using record_at_write [of "write_multibulk flushall" "[]"] flushall_ok(1) by (simp add: next_record_at frame_ok_def)
  show "next_record (set_head @ stored_record) 59 = Truncated"
    by (simp add: next_record_def set_head_def stored_record_def)
qed

lemma scan_stored: "resync_scan (set_head @ stored_record) 1 = Some 33"
proof -
  have "list_all (\<lambda>q. next_record (set_head @ stored_record) q \<in> {Truncated, Corrupt}) [1..<33]"
    by (simp add: upt_rec next_record_def set_head_def stored_record_def record_header_len_def max_record_def from_le_u32_def Let_def)
  then have "resync_scan (set_head @ stored_record) 1 = resync_scan (set_head @ stored_record) 33"
    by (rule resync_scan_skip) (simp_all add: set_head_def)
  also have "length (set_head @ stored_record) = 59" by (simp add: set_head_def stored_record_def)
  then have "resync_scan (set_head @ stored_record) 33 = Some 33"
    using one_command_frame [OF flushall_ok(1)] by (subst resync_scan.simps) (simp add: stored_at)
  finally show ?thesis .
qed

lemma run_stored:
  "resync_run (set_head @ stored_record) 33 (Some []) 0 0 = (Some [argv_from flushall], 1, 59, Inl False)"
proof -
  have "length (set_head @ stored_record) = 59" by (simp add: set_head_def stored_record_def)
  then show ?thesis
    using one_command_frame [OF flushall_ok(1)] flushall_ok(2)
    by (subst resync_run.simps, subst resync_run.simps) (simp add: stored_at deliver_def)
qed

lemma walk_stored:
  "walk_v2 (set_head @ stored_record) 9 (Some []) = (Some [], (walk_at 9)\<lparr>w_stop := Length_outran_file 54 51\<rparr>)"
proof -
  have "next_header (set_head @ stored_record) (walk_at 9) = (Ok (54, 0xd91a2ce0, drop 8 (set_head @ stored_record)), walk_at 9)"
    by (simp add: next_header_def set_head_def max_record_def from_le_u32_def Let_def)
  moreover have "length (take 54 (drop 8 (set_head @ stored_record))) = 51" by (simp add: set_head_def stored_record_def)
  ultimately show ?thesis unfolding walk_v2_def
    by (subst walk_loop.simps) (simp add: Let_def del: take_append drop_append length_take length_drop)
qed

text \<open>
  C25: The resynchronizing replay runs bytes that a client stored. A client sets a key to a value
  that begins with the bytes of a record holding \<open>FLUSHALL\<close>, and the file is cut inside that
  value. The strict replay delivers nothing. The resynchronizing replay finds the stored record
  inside the torn one and delivers \<open>FLUSHALL\<close>, which no client ever sent.
\<close>

theorem resync_runs_stored_bytes:
  "take 68 (aof2_magic @ write_record_multibulk set_stored) = aof2_magic @ set_head @ stored_record \<and>
   fst (replay_with (Some (take 68 (aof2_magic @ write_record_multibulk set_stored))) False) = [] \<and>
   map argv_list (fst (replay_with (Some (take 68 (aof2_magic @ write_record_multibulk set_stored))) True)) = [flushall]"
proof -
  let ?f = "aof2_magic @ set_head @ stored_record"
  have cut: "take 68 (aof2_magic @ write_record_multibulk set_stored) = ?f"
    unfolding set_record_eq by (simp add: set_head_def stored_record_def)
  have f: "take 9 ?f = aof2_magic" "drop 9 ?f = set_head @ stored_record" by simp_all
  have r: "resync_slice (set_head @ stored_record) 9 (Some []) [] = ((59, 1, False), Some [argv_from flushall], [(9, 42)])"
    unfolding resync_slice_def by (subst resync_from.simps) (simp add: scan_stored [unfolded One_nat_def] run_stored)
  have v2: "sniff_format (Some ?f) = V2" unfolding sniff_format_def using f(1) by simp
  have "w_pos ((walk_at 9)\<lparr>w_stop := Length_outran_file 54 51\<rparr>) = 9" by (simp add: walk_at_def)
  then have "fst (replay_with (Some ?f) False) = []" "fst (replay_with (Some ?f) True) = [argv_from flushall]"
    unfolding replay_with_def v2 stream_v2_def resync_fallback_def option.case f(2)
    using r f(2) by (simp_all add: walk_stored Let_def)
  then show ?thesis unfolding cut using flushall_ok(3) by simp
qed

end
