(* ===== verification/Snapshot_Commit.thy ===== *)
theory Snapshot_Commit
  imports Aof_Runs
begin

text \<open>
  Committing a snapshot: \<open>snapshot_commit.rs\<close> and \<open>log_base.rs\<close>. A commit changes two
  files of a shard, the snapshot and the log that continues it, and a restart settles which
  snapshot the log belongs to. The directory is the files the commit touches; a commit is a
  sequence of steps on it, between any two of which the process may stop.
\<close>

section \<open>The directory\<close>

record shard_dir =
  sd_snapshot :: "bytes option"
  sd_prev :: "bytes option"
  sd_tmp :: "bytes option"
  sd_log :: "bytes option"
  sd_reset :: "bytes option"

definition snapshot_id_tag :: bytes where "snapshot_id_tag = [75, 69, 86, 89, 83, 78, 73, 68]"
definition footer_len :: nat where "footer_len = 16"

text \<open>What \<open>write_snapshot_id\<close> writes after a snapshot's body; the id is drawn from the clock.\<close>

definition snapshot_footer :: "64 word \<Rightarrow> bytes" where
  "snapshot_footer sid = snapshot_id_tag @ to_le_bytes sid"

definition snapshot_id :: "bytes option \<Rightarrow> 64 word option" where
  "snapshot_id path =
     (case path of
        None \<Rightarrow> None
      | Some file \<Rightarrow>
          if length file < footer_len then None
          else
            let footer = drop (length file - footer_len) file; tag = take 8 footer; sid = drop 8 footer
            in if tag \<noteq> snapshot_id_tag then None else Some (from_le_bytes sid))"

datatype log_head = Missing | Legacy | StandsAlone | After "64 word"

definition read_log_head :: "bytes option \<Rightarrow> log_head" where
  "read_log_head path =
     (case path of
        None \<Rightarrow> Missing
      | Some file \<Rightarrow>
          let head = take 128 file in
          if take (length aof2_magic) head \<noteq> aof2_magic then Legacy
          else case next_record head (length aof2_magic) of
            Record payload consumed \<Rightarrow>
              (case parse_command_into payload argv_default of
                 Inr (Some (args, used)) \<Rightarrow>
                   (case base_of args of None \<Rightarrow> Legacy | Some sid \<Rightarrow> if sid = 0 then StandsAlone else After sid)
               | _ \<Rightarrow> Legacy)
          | _ \<Rightarrow> Legacy)"

section \<open>Settling\<close>

datatype settle_error = Unpaired (named: "64 word") (found: "64 word option")

definition settle_snapshot :: "shard_dir \<Rightarrow> (settle_error, bool) result \<times> shard_dir" where
  "settle_snapshot d =
     (let head = read_log_head (sd_log d);
          d1 = (case sd_prev d of
                  None \<Rightarrow> d
                | Some old \<Rightarrow>
                    let committed = (case head of
                          After sid \<Rightarrow> snapshot_id (sd_snapshot d) = Some sid
                        | Missing \<Rightarrow> sd_snapshot d \<noteq> None
                        | _ \<Rightarrow> False)
                    in if committed then d\<lparr>sd_prev := None\<rparr> else d\<lparr>sd_snapshot := Some old, sd_prev := None\<rparr>)
      in (case head of
            StandsAlone \<Rightarrow> Ok False
          | After sid \<Rightarrow>
              if snapshot_id (sd_snapshot d1) = Some sid then Ok True else Err (Unpaired sid (snapshot_id (sd_snapshot d1)))
          | _ \<Rightarrow> Ok (sd_snapshot d1 \<noteq> None), d1))"

text \<open>What a restart restores: the snapshot it loads, if any, and the log it replays over it.\<close>

definition restored :: "shard_dir \<Rightarrow> (bytes option \<times> bytes option) option" where
  "restored d =
     (case settle_snapshot d of
        (Inl e, d') \<Rightarrow> None
      | (Inr loads, d') \<Rightarrow> Some (if loads then sd_snapshot d' else None, sd_log d'))"

section \<open>Committing\<close>

definition keep_prev :: "shard_dir \<Rightarrow> shard_dir" where
  "keep_prev d = (case sd_snapshot d of Some s \<Rightarrow> d\<lparr>sd_prev := Some s, sd_snapshot := None\<rparr> | None \<Rightarrow> d)"

definition place_snapshot :: "shard_dir \<Rightarrow> shard_dir" where
  "place_snapshot d = d\<lparr>sd_snapshot := sd_tmp d, sd_tmp := None\<rparr>"

definition write_log_base :: "64 word \<Rightarrow> shard_dir \<Rightarrow> shard_dir" where
  "write_log_base sid d = d\<lparr>sd_reset := Some (aof2_magic @ write_record_multibulk (argv_list (base_frame sid)))\<rparr>"

definition append_tee :: "bytes \<Rightarrow> shard_dir \<Rightarrow> shard_dir" where
  "append_tee tee d = d\<lparr>sd_reset := map_option (\<lambda>f. f @ tee) (sd_reset d)\<rparr>"

definition swap_log :: "shard_dir \<Rightarrow> shard_dir" where
  "swap_log d = d\<lparr>sd_log := sd_reset d, sd_reset := None\<rparr>"

definition drop_prev :: "shard_dir \<Rightarrow> shard_dir" where
  "drop_prev d = d\<lparr>sd_prev := None\<rparr>"

definition undo :: "bool \<Rightarrow> bool \<Rightarrow> shard_dir \<Rightarrow> shard_dir" where
  "undo held placed d =
     (if held then d\<lparr>sd_snapshot := sd_prev d, sd_prev := None\<rparr>
      else if placed then d\<lparr>sd_snapshot := None\<rparr> else d)"

datatype commit_step = Keep | Place | Write_base | Tee | Swap | Reopen | Probe | Undo

datatype commit_error = No_id | Failed commit_step

text \<open>
  \<open>commit_snapshot_steps\<close> with \<open>finish_concurrent_rewrite\<close> inlined. \<open>fails\<close> says which
  steps meet an I/O error; removing the kept snapshot at the end ignores one, \<open>leftover\<close>.
\<close>

definition commit_snapshot_steps ::
    "(commit_step \<Rightarrow> bool) \<Rightarrow> bool \<Rightarrow> bytes \<Rightarrow> shard_dir \<Rightarrow> (commit_error, unit) result \<times> shard_dir" where
  "commit_snapshot_steps fails leftover tee d =
     (case snapshot_id (sd_tmp d) of
        None \<Rightarrow> (Err No_id, d)
      | Some sid \<Rightarrow>
          let held = (sd_snapshot d \<noteq> None); back = (\<lambda>placed d. if fails Undo then d else undo held placed d) in
          if held \<and> fails Keep then (Err (Failed Keep), d)
          else
            let d1 = keep_prev d in
            if fails Place then (Err (Failed Place), back False d1)
            else
              let d2 = place_snapshot d1;
                  swapped = (\<lambda>step d. if fails Probe then (Err (Failed Probe), d)
                                      else if read_log_head (sd_log d) = After sid then (Err (Failed step), d)
                                      else (Err (Failed step), back True d)) in
              if fails Write_base then swapped Write_base d2
              else
                let d3 = write_log_base sid d2 in
                if fails Tee then swapped Tee d3
                else
                  let d4 = append_tee tee d3 in
                  if fails Swap then swapped Swap d4
                  else
                    let d5 = swap_log d4 in
                    if fails Reopen then swapped Reopen d5
                    else (Ok (), if held \<and> \<not> leftover then drop_prev d5 else d5))"

definition commit_snapshot ::
    "(commit_step \<Rightarrow> bool) \<Rightarrow> bool \<Rightarrow> bytes \<Rightarrow> shard_dir \<Rightarrow> (commit_error, unit) result \<times> shard_dir" where
  "commit_snapshot fails leftover tee d =
     (case commit_snapshot_steps fails leftover tee d of
        (Inl e, d') \<Rightarrow> (Err e, d'\<lparr>sd_reset := None\<rparr>)
      | (Inr u, d') \<Rightarrow> (Ok u, d'))"

text \<open>The directories a crash in a commit without I/O errors can leave.\<close>

definition commit_points :: "64 word \<Rightarrow> bytes \<Rightarrow> shard_dir \<Rightarrow> shard_dir list" where
  "commit_points sid tee d =
     (let d1 = keep_prev d; d2 = place_snapshot d1; d3 = write_log_base sid d2; d4 = append_tee tee d3; d5 = swap_log d4
      in [d, d1, d2, d3, d4, d5, if sd_snapshot d \<noteq> None then drop_prev d5 else d5])"

section \<open>Heads of logs\<close>

lemma argv_list_base: "argv_list (base_frame sid) = [log_base, to_le_bytes sid]"
proof -
  have "base_frame sid = argv_from [log_base, to_le_bytes sid]" by (simp add: base_frame_def argv_from_def argv_extend_def)
  moreover have "sum_list (map length [log_base, to_le_bytes sid]) < 4294967296" by (simp add: log_base_def to_le_bytes_def)
  ultimately show ?thesis using argv_list_from by metis
qed

lemma from_to_le_bytes: "from_le_bytes (to_le_bytes w) = w"
proof (rule bit_word_eqI)
  fix n assume n: "n < LENGTH(64)"
  have "length (to_le_bytes w) = 8" by (simp add: to_le_bytes_def)
  then have "bit (from_le_bytes (to_le_bytes w)) n = bit (uint (to_le_bytes w ! (n div 8))) (n mod 8)"
    using n less_mult_imp_div_less [of n 8 8] by (simp add: bit_word_uint uint_from_le_bytes bit_le_int)
  also have "\<dots> = bit w n" using n less_mult_imp_div_less [of n 8 8] by (simp add: to_le_bytes_def bit_simps)
  finally show "bit (from_le_bytes (to_le_bytes w)) n = bit w n" .
qed

lemma base_of_base: "base_of (argv_from [log_base, to_le_bytes sid]) = Some sid"
  using from_to_le_bytes [of sid]
  by (simp add: base_of_def argv_from_def argv_extend_def argv_push_def argv_default_def argv_len_def argv_get_def
      nth_opt_def slice_def as_u32_def log_base_def Let_def) (simp add: to_le_bytes_def)

lemma head_of_record:
  assumes "frame_ok c"
  shows "read_log_head (Some (aof2_magic @ write_record_multibulk c @ rest)) =
    (if length (write_record_multibulk c) \<le> 119
     then (case base_of (argv_from c) of None \<Rightarrow> Legacy | Some sid \<Rightarrow> if sid = 0 then StandsAlone else After sid)
     else Legacy)"
proof (cases "length (write_record_multibulk c) \<le> 119")
  case True
  let ?h = "take 128 (aof2_magic @ write_record_multibulk c @ rest)"
  have "drop 9 ?h = write_record (write_multibulk c) @ take (119 - length (write_record_multibulk c)) rest"
    using True by (simp add: write_record_multibulk_def)
  then have "next_record ?h 9 = Record (write_multibulk c) (8 + length (write_multibulk c))"
    using assms record_at_write [of "write_multibulk c"] by (simp add: next_record_at frame_ok_def)
  moreover have "parse_command_into (write_multibulk c) argv_default = Ok (Some (argv_from c, length (write_multibulk c)))"
    using assms command_encoded [of c "[]"] by (simp add: parse_command_into_def write_multibulk_eq frame_ok_def)
  moreover have "take 9 ?h = aof2_magic" by simp
  ultimately show ?thesis using True by (simp add: read_log_head_def Let_def del: take_append)
next
  case False
  let ?h = "take 128 (aof2_magic @ write_record_multibulk c @ rest)"
  have "drop 9 ?h = take 119 (write_record (write_multibulk c))" using False by (simp add: write_record_multibulk_def)
  then have "next_record ?h 9 = Truncated"
    using assms False record_at_cut [of "write_multibulk c" 119] by (simp add: next_record_at frame_ok_def write_record_multibulk_def)
  moreover have "take 9 ?h = aof2_magic" by simp
  ultimately show ?thesis using False by (simp add: read_log_head_def Let_def del: take_append)
qed

lemma head_of_base:
  assumes "sid \<noteq> 0"
  shows "read_log_head (Some (aof2_magic @ write_record_multibulk [log_base, to_le_bytes sid] @ rest)) = After sid"
proof -
  have "length (write_record_multibulk [log_base, to_le_bytes sid]) \<le> 119"
    by (simp add: write_record_multibulk_def write_multibulk_def log_base_def to_le_bytes_def dec_digits.simps)
  then show ?thesis using assms by (simp add: head_of_record [OF base_args(1)] base_of_base)
qed

section \<open>Crashes and failures\<close>

text \<open>
  A directory a commit may start from: no commit is half done, the restart finds a matching pair,
  and the new snapshot carries an id that neither the old snapshot nor the log knows.
\<close>

definition commit_ready :: "64 word \<Rightarrow> bytes \<Rightarrow> shard_dir \<Rightarrow> bool" where
  "commit_ready sid s d \<longleftrightarrow>
     sd_prev d = None \<and> sd_log d \<noteq> None \<and> sd_tmp d = Some s \<and> snapshot_id (Some s) = Some sid \<and> sid \<noteq> 0 \<and>
     snapshot_id (sd_snapshot d) \<noteq> Some sid \<and> read_log_head (sd_log d) \<noteq> After sid \<and> restored d \<noteq> None"

text \<open>The pair after the commit: the new snapshot, and a log that names it.\<close>

definition new_log :: "64 word \<Rightarrow> bytes \<Rightarrow> bytes" where
  "new_log sid tee = aof2_magic @ write_record_multibulk [log_base, to_le_bytes sid] @ tee"

lemmas commit_step_defs = keep_prev_def place_snapshot_def write_log_base_def append_tee_def swap_log_def drop_prev_def undo_def

lemma read_head_not_missing: "f \<noteq> None \<Longrightarrow> read_log_head f \<noteq> Missing"
  by (auto simp: read_log_head_def Let_def split: record_step.splits sum.splits option.splits)

text \<open>With the old log in place, a directory whose snapshot was only moved aside restores the old pair.\<close>

lemma restored_old:
  assumes "commit_ready sid s d" "sd_snapshot d = Some old" "sd_prev e = Some old" "sd_log e = sd_log d"
    "sd_snapshot e = None \<or> sd_snapshot e = Some s"
  shows "restored e = restored d"
proof (cases "read_log_head (sd_log d)")
  case Missing
  then show ?thesis using assms(1) read_head_not_missing by (auto simp: commit_ready_def)
next
  case Legacy
  then show ?thesis using assms by (auto simp: commit_ready_def restored_def settle_snapshot_def)
next
  case StandsAlone
  then show ?thesis using assms by (auto simp: commit_ready_def restored_def settle_snapshot_def)
next
  case (After j)
  have "snapshot_id (sd_snapshot e) \<noteq> Some j"
    using assms(1,5) After by (auto simp: commit_ready_def snapshot_id_def [of None])
  then show ?thesis using assms After by (auto simp: commit_ready_def restored_def settle_snapshot_def Let_def)
qed

lemma restored_alone:
  assumes "commit_ready sid s d" "sd_snapshot d = None" "read_log_head (sd_log d) = StandsAlone"
    "sd_prev e = None" "sd_log e = sd_log d"
  shows "restored e = restored d"
  using assms by (simp add: restored_def settle_snapshot_def commit_ready_def)

lemma restored_new:
  assumes "snapshot_id (Some s) = Some sid" "sid \<noteq> 0" "sd_snapshot e = Some s" "sd_log e = Some (new_log sid tee)"
  shows "restored e = Some (Some s, Some (new_log sid tee))"
  using assms head_of_base [OF assms(2), of tee] by (auto simp: restored_def settle_snapshot_def new_log_def split: option.splits)

text \<open>A first snapshot over a log without a base frame is the one case left out.\<close>

definition log_names_base :: "shard_dir \<Rightarrow> bool" where
  "log_names_base d \<longleftrightarrow> sd_snapshot d \<noteq> None \<or> read_log_head (sd_log d) = StandsAlone"

lemma ready_without_snapshot:
  assumes "commit_ready sid s d" "log_names_base d" "sd_snapshot d = None"
  shows "read_log_head (sd_log d) = StandsAlone"
  using assms by (simp add: log_names_base_def)

text \<open>The directory at each point of a commit: with the old log, or with the new pair.\<close>

definition at_old :: "bytes \<Rightarrow> shard_dir \<Rightarrow> shard_dir \<Rightarrow> bool" where
  "at_old s d e \<longleftrightarrow> sd_log e = sd_log d \<and>
     (sd_prev e = None \<and> sd_snapshot e = sd_snapshot d \<or>
      sd_prev e = sd_snapshot d \<and> (sd_snapshot e = None \<or> sd_snapshot e = Some s))"

definition at_new :: "64 word \<Rightarrow> bytes \<Rightarrow> bytes \<Rightarrow> shard_dir \<Rightarrow> bool" where
  "at_new sid s tee e \<longleftrightarrow> sd_log e = Some (new_log sid tee) \<and> sd_snapshot e = Some s"

lemma restored_at_old:
  assumes "commit_ready sid s d" "log_names_base d" "at_old s d e"
  shows "restored e = restored d"
proof (cases "sd_prev e = None \<and> sd_snapshot e = sd_snapshot d")
  case True
  then show ?thesis
    using assms(1,3) by (auto simp: restored_def settle_snapshot_def at_old_def commit_ready_def split: log_head.splits)
next
  case False
  then have e: "sd_prev e = sd_snapshot d" "sd_snapshot e = None \<or> sd_snapshot e = Some s" "sd_log e = sd_log d"
    using assms(3) by (auto simp: at_old_def)
  show ?thesis
  proof (cases "sd_snapshot d")
    case None
    then show ?thesis using restored_alone [OF assms(1) None ready_without_snapshot [OF assms(1,2) None]] e by simp
  next
    case (Some old)
    then show ?thesis using restored_old [OF assms(1) Some _ e(3,2)] e(1) by simp
  qed
qed

lemma restored_at_new:
  "commit_ready sid s d \<Longrightarrow> at_new sid s tee e \<Longrightarrow> restored e = Some (Some s, Some (new_log sid tee))"
  by (rule restored_new) (simp_all add: commit_ready_def at_new_def)

lemma commit_points_at:
  assumes "commit_ready sid s d" "e \<in> set (commit_points sid tee d)"
  shows "at_old s d e \<or> at_new sid s tee e"
  using assms
  by (cases "sd_snapshot d")
    (auto simp: commit_points_def at_old_def at_new_def commit_step_defs commit_ready_def Let_def argv_list_base new_log_def)

text \<open>
  C6: A commit that the process does not survive leaves a matching pair. When an earlier snapshot
  exists or the log says that it stands alone, a restart after a crash between any two steps restores
  either the state before the commit or the new snapshot with a log that holds exactly the writes
  since it was taken.
\<close>

theorem commit_crash_safe:
  assumes "commit_ready sid s d" "log_names_base d" "e \<in> set (commit_points sid tee d)"
  shows "restored e = restored d \<or> restored e = Some (Some s, Some (new_log sid tee))"
  using commit_points_at [OF assms(1,3)] restored_at_old [OF assms(1,2)] restored_at_new [OF assms(1)] by blast

lemma commit_result_at:
  assumes "commit_ready sid s d" "commit_snapshot fails leftover tee d = (res, e)"
  shows "(case res of
      Inl (Failed Probe) \<Rightarrow> at_old s d e \<or> at_new sid s tee e | Inl (Failed Reopen) \<Rightarrow> at_new sid s tee e
    | Inl err \<Rightarrow> at_old s d e \<and> (\<not> fails Undo \<longrightarrow> sd_snapshot e = sd_snapshot d \<and> sd_prev e = None)
    | Inr u \<Rightarrow> at_new sid s tee e)"
  using assms
  by (cases "sd_snapshot d"; cases res)
    (auto simp: commit_snapshot_def commit_snapshot_steps_def at_old_def at_new_def commit_step_defs commit_ready_def Let_def
      argv_list_base new_log_def head_of_base split: if_splits prod.splits sum.splits commit_error.splits commit_step.splits)


section \<open>The first snapshot\<close>

lemma head_of_units:
  assumes "list_all unit_ok us" "us = [] \<or> (\<forall>i. hd us \<noteq> Base i)"
  shows "read_log_head (Some (aof2_magic @ units_bytes us)) = Legacy"
proof (cases us)
  case Nil
  have "next_record (take 128 aof2_magic) 9 = Truncated" by (simp add: next_record_def)
  then show ?thesis using Nil by (simp add: read_log_head_def Let_def)
next
  case (Cons u vs)
  show ?thesis
  proof (cases u)
    case (Single c)
    then have "frame_ok c" "base_of (argv_from c) = None" using assms(1) Cons by (simp_all add: unit_ok_def loggable_def)
    then show ?thesis using Cons Single head_of_record [of c "units_bytes vs"] by simp
  next
    case (Group cs)
    then show ?thesis
      using Cons head_of_record [OF marker_ok(1), of "records cs @ write_record_multibulk [txn_commit] @ units_bytes vs"]
      by (simp add: marker_args)
  next
    case (Base i)
    then show ?thesis using assms(2) Cons by simp
  qed
qed

text \<open>
  C26: The first snapshot over a new log is not crash safe. A log that was opened as a new file has
  no base frame. When the process stops after the new snapshot took its name and before the log was
  swapped, the restart loads the snapshot and replays the whole log over it, and the log holds every
  command the snapshot already contains.
\<close>

theorem first_snapshot_applied_twice:
  assumes "aof_log a us None tu" "us = [] \<or> (\<forall>i. hd us \<noteq> Base i)"
    and "d = \<lparr>sd_snapshot = None, sd_prev = None, sd_tmp = Some s, sd_log = Some (a_disk (file_flush a)), sd_reset = None\<rparr>"
  shows "place_snapshot (keep_prev d) \<in> set (commit_points sid tee d) \<and> restored d = Some (None, sd_log d) \<and>
    restored (place_snapshot (keep_prev d)) = Some (Some s, sd_log d) \<and>
    map argv_list (fst (replay_with (sd_log d) False)) = units_cmds us"
proof -
  note h = holds_flush [OF aof_log_holds [OF assms(1)]]
  have f: "a_disk (file_flush a) = aof2_magic @ units_bytes us" "list_all unit_ok us"
    using h by (simp_all add: log_holds_def file_flush_def open_bytes_def)
  note head = head_of_units [OF f(2) assms(2)]
  have s: "a_synced (file_flush a) \<le> length (a_disk (file_flush a))" using h unfolding log_holds_def by (elim conjE)
  have "kept (length (a_disk (file_flush a))) us = length us" unfolding kept_def f(1) by (subst complete_all) simp_all
  then have "map argv_list (fst (replay_with (Some (a_disk (file_flush a))) False)) = units_cmds us"
    using replay_of_cut [OF h s order_refl] by simp
  moreover have "place_snapshot (keep_prev d) \<in> set (commit_points sid tee d)" by (simp add: commit_points_def Let_def)
  moreover have "restored d = Some (None, sd_log d)" "restored (place_snapshot (keep_prev d)) = Some (Some s, sd_log d)"
    unfolding assms(3) f(1) by (simp_all add: restored_def settle_snapshot_def head commit_step_defs)
  ultimately show ?thesis using assms(3) by simp
qed

section \<open>Witnesses\<close>

definition sample_dir :: shard_dir where
  "sample_dir = \<lparr>sd_snapshot = None, sd_prev = None, sd_tmp = Some (snapshot_footer 7),
     sd_log = Some (aof2_magic @ write_record_multibulk [log_base, to_le_bytes 0]), sd_reset = None\<rparr>"

lemma footer_id: "snapshot_id (Some (snapshot_footer sid)) = Some sid"
proof -
  have "length (to_le_bytes sid) = 8" by (simp add: to_le_bytes_def)
  then show ?thesis
    by (simp add: snapshot_id_def snapshot_footer_def footer_len_def snapshot_id_tag_def from_to_le_bytes)
qed

lemma sample_ready: "commit_ready 7 (snapshot_footer 7) sample_dir" "log_names_base sample_dir"
proof -
  have "length (write_record_multibulk [log_base, to_le_bytes 0]) \<le> 119"
    by (simp add: write_record_multibulk_def write_multibulk_def log_base_def to_le_bytes_def dec_digits.simps)
  then have "read_log_head (sd_log sample_dir) = StandsAlone"
    using head_of_record [OF base_args(1), of 0 "[]"] by (simp add: sample_dir_def base_of_base)
  then show "commit_ready 7 (snapshot_footer 7) sample_dir" "log_names_base sample_dir"
    by (simp_all add: commit_ready_def log_names_base_def footer_id restored_def settle_snapshot_def)
      (simp_all add: sample_dir_def snapshot_id_def)
qed

theorem commit_crash_safe_witness:
  "restored (place_snapshot (keep_prev sample_dir)) = restored sample_dir \<or>
   restored (place_snapshot (keep_prev sample_dir)) = Some (Some (snapshot_footer 7), Some (new_log 7 []))"
  by (rule commit_crash_safe [OF sample_ready]) (simp add: commit_points_def Let_def)


theorem first_snapshot_applied_twice_witness:
  "restored (place_snapshot (keep_prev \<lparr>sd_snapshot = None, sd_prev = None, sd_tmp = Some (snapshot_footer 7),
      sd_log = Some (a_disk (file_flush (sample_log Always))), sd_reset = None\<rparr>)) =
    Some (Some (snapshot_footer 7), Some (a_disk (file_flush (sample_log Always))))"
  using first_snapshot_applied_twice [OF sample_log_reached [of Always] _ refl, of "snapshot_footer 7" 7 "[]"] by simp

end
