(* ===== verification/Spsc_Ring.thy ===== *)
theory Spsc_Ring
  imports Kevy_Prelude
begin

text \<open>
  The bounded ring between two threads: \<open>kevy-ring/src/lib.rs\<close>. The producer and the consumer run
  concurrently, one access to shared memory at a time. A slot is \<open>None\<close> while it is uninitialised;
  reading such a slot, or writing one that still holds a value, breaks the ring. An \<open>Acquire\<close> load
  may return any value of the other side's cursor since the last one it returned.
\<close>

section \<open>The ring and its two halves\<close>

type_synonym usize = "64 word"

definition max_capacity :: nat where "max_capacity = 2 ^ 63"

record 'a ring =
  rb_buf :: "'a option list"
  rb_mask :: usize
  rb_head :: usize
  rb_tail :: usize

definition with_capacity :: "nat \<Rightarrow> 'a ring" where
  "with_capacity cap =
     (let c = (case checked_next_power_of_two (max cap 2) of Some p \<Rightarrow> p | None \<Rightarrow> max_capacity)
      in \<lparr>rb_buf = replicate c None, rb_mask = of_nat (c - 1), rb_head = 0, rb_tail = 0\<rparr>)"

record producer = p_head_cache :: usize
record consumer = c_tail_cache :: usize

definition ring_new :: "nat \<Rightarrow> 'a ring \<times> producer \<times> consumer" where
  "ring_new cap = (with_capacity cap, \<lparr>p_head_cache = 0\<rparr>, \<lparr>c_tail_cache = 0\<rparr>)"

definition slot_index :: "'a ring \<Rightarrow> usize \<Rightarrow> nat" where
  "slot_index r i = unat (i AND rb_mask r)"

definition write_slot :: "'a ring \<Rightarrow> usize \<Rightarrow> 'a \<Rightarrow> 'a ring option" where
  "write_slot r i v =
     (let k = slot_index r i in
      if k < length (rb_buf r) \<and> rb_buf r ! k = None then Some (r\<lparr>rb_buf := (rb_buf r)[k := Some v]\<rparr>) else None)"

definition read_slot :: "'a ring \<Rightarrow> usize \<Rightarrow> ('a \<times> 'a ring) option" where
  "read_slot r i =
     (let k = slot_index r i in
      if k < length (rb_buf r) then map_option (\<lambda>v. (v, r\<lparr>rb_buf := (rb_buf r)[k := None]\<rparr>)) (rb_buf r ! k) else None)"

section \<open>A push, access by access\<close>

datatype 'a push_pc = Push_idle | Push_refresh 'a usize | Push_write 'a usize | Push_publish 'a usize

definition push_begin :: "'a ring \<Rightarrow> producer \<Rightarrow> 'a \<Rightarrow> 'a push_pc" where
  "push_begin r p v =
     (let tail = rb_tail r in if tail - p_head_cache p > rb_mask r then Push_refresh v tail else Push_write v tail)"

definition push_refresh :: "'a ring \<Rightarrow> 'a \<Rightarrow> usize \<Rightarrow> usize \<Rightarrow> ('a, 'a push_pc) result \<times> producer" where
  "push_refresh r v tail head =
     (if tail - head > rb_mask r then (Err v, \<lparr>p_head_cache = head\<rparr>) else (Ok (Push_write v tail), \<lparr>p_head_cache = head\<rparr>))"

definition push_publish :: "'a ring \<Rightarrow> usize \<Rightarrow> 'a ring" where
  "push_publish r tail = r\<lparr>rb_tail := tail + 1\<rparr>"

section \<open>A pop, access by access\<close>

datatype 'a pop_pc = Pop_idle | Pop_refresh usize | Pop_read usize | Pop_publish 'a usize

definition pop_begin :: "'a ring \<Rightarrow> consumer \<Rightarrow> 'a pop_pc" where
  "pop_begin r c = (let head = rb_head r in if head = c_tail_cache c then Pop_refresh head else Pop_read head)"

definition pop_refresh :: "usize \<Rightarrow> usize \<Rightarrow> 'a pop_pc \<times> consumer" where
  "pop_refresh head tail = (if head = tail then Pop_idle else Pop_read head, \<lparr>c_tail_cache = tail\<rparr>)"

definition pop_publish :: "'a ring \<Rightarrow> usize \<Rightarrow> 'a ring" where
  "pop_publish r head = r\<lparr>rb_head := head + 1\<rparr>"

section \<open>The operations run to their end\<close>

definition push_finish :: "'a ring \<Rightarrow> producer \<Rightarrow> 'a \<Rightarrow> usize \<Rightarrow> (('a, unit) result \<times> 'a ring \<times> producer) option" where
  "push_finish r p v tail = map_option (\<lambda>r'. (Ok (), push_publish r' tail, p)) (write_slot r tail v)"

definition push :: "'a ring \<Rightarrow> producer \<Rightarrow> 'a \<Rightarrow> (('a, unit) result \<times> 'a ring \<times> producer) option" where
  "push r p v =
     (case push_begin r p v of
        Push_refresh _ tail \<Rightarrow>
          (case push_refresh r v tail (rb_head r) of
             (Inl w, p') \<Rightarrow> Some (Err w, r, p')
           | (Inr _, p') \<Rightarrow> push_finish r p' v tail)
      | _ \<Rightarrow> push_finish r p v (rb_tail r))"

definition pop_finish :: "'a ring \<Rightarrow> consumer \<Rightarrow> usize \<Rightarrow> ('a option \<times> 'a ring \<times> consumer) option" where
  "pop_finish r c head = map_option (\<lambda>(v, r'). (Some v, pop_publish r' head, c)) (read_slot r head)"

definition pop :: "'a ring \<Rightarrow> consumer \<Rightarrow> ('a option \<times> 'a ring \<times> consumer) option" where
  "pop r c =
     (case pop_begin r c of
        Pop_refresh head \<Rightarrow>
          (case pop_refresh head (rb_tail r) :: 'a pop_pc \<times> consumer of
             (Pop_idle, c') \<Rightarrow> Some (None, r, c')
           | (_, c') \<Rightarrow> pop_finish r c' head)
      | _ \<Rightarrow> pop_finish r c (rb_head r))"

definition is_full :: "'a ring \<Rightarrow> bool" where
  "is_full r \<longleftrightarrow> rb_tail r - rb_head r > rb_mask r"

definition ring_is_empty :: "'a ring \<Rightarrow> bool" where
  "ring_is_empty r \<longleftrightarrow> rb_head r = rb_tail r"

definition ring_len :: "'a ring \<Rightarrow> usize" where
  "ring_len r = rb_tail r - rb_head r"

definition capacity :: "'a ring \<Rightarrow> usize" where
  "capacity r = rb_mask r + 1"

text \<open>\<open>Drop\<close>: the elements it drops, in order.\<close>

function drop_from :: "'a ring \<Rightarrow> usize \<Rightarrow> 'a list option" where
  "drop_from r i =
     (if i = rb_tail r then Some []
      else (case read_slot r i of None \<Rightarrow> None | Some (v, r') \<Rightarrow> map_option (Cons v) (drop_from r' (i + 1))))"
  by pat_completeness auto
termination
proof (relation "measure (\<lambda>(r, i). unat (rb_tail r - i))")
  fix r :: "'a ring" and i x v r'
  assume a: "i \<noteq> rb_tail r" "read_slot r i = Some x" "(v, r') = x"
  then have "rb_tail r' = rb_tail r" by (auto simp: read_slot_def Let_def split: if_splits)
  moreover have "rb_tail r - i \<noteq> 0" using a(1) by simp
  then have "unat (rb_tail r - i - 1) < unat (rb_tail r - i)" by (simp add: unat_minus_one unat_gt_0)
  ultimately show "((r', i + 1), (r, i)) \<in> measure (\<lambda>(r, i). unat (rb_tail r - i))" by (simp add: diff_diff_add)
qed simp

declare drop_from.simps [simp del]

definition ring_drop :: "'a ring \<Rightarrow> 'a list option" where
  "ring_drop r = drop_from r (rb_head r)"

section \<open>Two threads\<close>

text \<open>
  A state of the system: the shared ring, both halves, where each thread is inside an operation, and
  the values that were accepted and delivered so far. \<open>sy_broken\<close> records a faulty slot access.
\<close>

record 'a spsc =
  sy_ring :: "'a ring"
  sy_prod :: producer
  sy_cons :: consumer
  sy_push :: "'a push_pc"
  sy_pop :: "'a pop_pc"
  sy_accepted :: "'a list"
  sy_delivered :: "'a list"
  sy_broken :: bool

definition spsc_start :: "nat \<Rightarrow> 'a spsc" where
  "spsc_start cap =
     (case ring_new cap of (r, p, c) \<Rightarrow>
        \<lparr>sy_ring = r, sy_prod = p, sy_cons = c, sy_push = Push_idle, sy_pop = Pop_idle,
         sy_accepted = [], sy_delivered = [], sy_broken = False\<rparr>)"

text \<open>A load of the cursor \<open>cur\<close> that last returned \<open>seen\<close>.\<close>

definition may_load :: "usize \<Rightarrow> usize \<Rightarrow> usize \<Rightarrow> bool" where
  "may_load cur seen v \<longleftrightarrow> unat (cur - v) \<le> unat (cur - seen)"

inductive spsc_step :: "'a spsc \<Rightarrow> 'a spsc \<Rightarrow> bool" where
  call_push: "sy_push s = Push_idle \<Longrightarrow> spsc_step s (s\<lparr>sy_push := push_begin (sy_ring s) (sy_prod s) v\<rparr>)"
| push_full: "sy_push s = Push_refresh v tail \<Longrightarrow> may_load (rb_head (sy_ring s)) (p_head_cache (sy_prod s)) h \<Longrightarrow>
    push_refresh (sy_ring s) v tail h = (Inl w, p) \<Longrightarrow> spsc_step s (s\<lparr>sy_push := Push_idle, sy_prod := p\<rparr>)"
| push_room: "sy_push s = Push_refresh v tail \<Longrightarrow> may_load (rb_head (sy_ring s)) (p_head_cache (sy_prod s)) h \<Longrightarrow>
    push_refresh (sy_ring s) v tail h = (Inr pc, p) \<Longrightarrow> spsc_step s (s\<lparr>sy_push := pc, sy_prod := p\<rparr>)"
| push_stores: "sy_push s = Push_write v tail \<Longrightarrow> write_slot (sy_ring s) tail v = Some r \<Longrightarrow>
    spsc_step s (s\<lparr>sy_push := Push_publish v tail, sy_ring := r\<rparr>)"
| push_breaks: "sy_push s = Push_write v tail \<Longrightarrow> write_slot (sy_ring s) tail v = None \<Longrightarrow>
    spsc_step s (s\<lparr>sy_push := Push_idle, sy_broken := True\<rparr>)"
| push_returns: "sy_push s = Push_publish v tail \<Longrightarrow>
    spsc_step s (s\<lparr>sy_push := Push_idle, sy_ring := push_publish (sy_ring s) tail, sy_accepted := sy_accepted s @ [v]\<rparr>)"
| call_pop: "sy_pop s = Pop_idle \<Longrightarrow> spsc_step s (s\<lparr>sy_pop := pop_begin (sy_ring s) (sy_cons s)\<rparr>)"
| pop_refreshes: "sy_pop s = Pop_refresh head \<Longrightarrow> may_load (rb_tail (sy_ring s)) (c_tail_cache (sy_cons s)) t \<Longrightarrow>
    pop_refresh head t = (pc, c) \<Longrightarrow> spsc_step s (s\<lparr>sy_pop := pc, sy_cons := c\<rparr>)"
| pop_takes: "sy_pop s = Pop_read head \<Longrightarrow> read_slot (sy_ring s) head = Some (v, r) \<Longrightarrow>
    spsc_step s (s\<lparr>sy_pop := Pop_publish v head, sy_ring := r\<rparr>)"
| pop_breaks: "sy_pop s = Pop_read head \<Longrightarrow> read_slot (sy_ring s) head = None \<Longrightarrow>
    spsc_step s (s\<lparr>sy_pop := Pop_idle, sy_broken := True\<rparr>)"
| pop_returns: "sy_pop s = Pop_publish v head \<Longrightarrow>
    spsc_step s (s\<lparr>sy_pop := Pop_idle, sy_ring := pop_publish (sy_ring s) head, sy_delivered := sy_delivered s @ [v]\<rparr>)"

section \<open>Cursors\<close>

text \<open>The cursors wrap; the counts of accepted and delivered values they stand for do not.\<close>

lemma capacity_power:
  obtains k where "length (rb_buf (with_capacity cap)) = 2 ^ k" "k \<le> 63" "2 ^ k \<ge> min (max cap 2) (2 ^ 63)"
proof -
  obtain k where k: "pow2_from (max cap 2) 1 = 2 ^ k" "max cap 2 \<le> 2 ^ k"
    using pow2_from_power [of 1 0 "max cap 2"] less_max_iff_disj [of 0 cap 2] by auto
  show thesis
  proof (cases "(2::nat) ^ k < 2 ^ 64")
    case True
    then have "k < 64" by (rule power_less_imp_less_exp [rotated]) simp
    moreover have "min (max cap 2) (2 ^ 63) \<le> 2 ^ k" using k(2) by (rule min.coboundedI1)
    ultimately show ?thesis using k(1) True that [of k]
      by (simp add: with_capacity_def checked_next_power_of_two_def Let_def)
  next
    case False
    then show ?thesis using k that [of 63]
      by (simp add: with_capacity_def checked_next_power_of_two_def Let_def max_capacity_def)
  qed
qed

lemma cursor_diff: "b \<le> a \<Longrightarrow> a - b < 2 ^ 64 \<Longrightarrow> unat (of_nat a - of_nat b :: usize) = a - b"
  by (simp flip: of_nat_diff add: unat_of_nat take_bit_nat_eq_self)

lemma cursor_eq: "a - b < 2 ^ 64 \<Longrightarrow> b \<le> a \<Longrightarrow> (of_nat a :: usize) = of_nat b \<longleftrightarrow> a = b"
  using cursor_diff [of b a] by fastforce

lemma cursor_loaded:
  assumes "may_load (of_nat a) (of_nat b) v" "b \<le> a" "a - b < 2 ^ 64"
  obtains c where "v = of_nat c" "b \<le> c" "c \<le> a"
proof
  define k where "k = unat (of_nat a - v)"
  have k: "k \<le> a - b" using assms by (simp add: may_load_def k_def cursor_diff)
  have "of_nat k = of_nat a - v" by (simp add: k_def)
  then show "v = of_nat (a - k)" using k by (simp add: of_nat_diff)
  show "b \<le> a - k" "a - k \<le> a" using k assms(2) by auto
qed

section \<open>The invariant\<close>

text \<open>
  The cursors count the accepted and the delivered values; the slots of the values in between are
  the initialised ones, apart from a slot that was written and not yet published, or taken and not
  yet released. The cached cursors are older values of the true ones.
\<close>

definition live_from :: "'a spsc \<Rightarrow> nat" where
  "live_from s = length (sy_delivered s) + (case sy_pop s of Pop_publish _ _ \<Rightarrow> 1 | _ \<Rightarrow> 0)"

definition written :: "'a spsc \<Rightarrow> 'a list" where
  "written s = sy_accepted s @ (case sy_push s of Push_publish v _ \<Rightarrow> [v] | _ \<Rightarrow> [])"

definition slots_hold :: "'a option list \<Rightarrow> nat \<Rightarrow> 'a list \<Rightarrow> bool" where
  "slots_hold buf from vs \<longleftrightarrow> from \<le> length vs \<and> length vs \<le> from + length buf \<and>
     (\<forall>i. from \<le> i \<and> i < from + length buf \<longrightarrow> buf ! (i mod length buf) = (if i < length vs then Some (vs ! i) else None))"

definition push_pc_ok :: "'a spsc \<Rightarrow> nat \<Rightarrow> bool" where
  "push_pc_ok s hc \<longleftrightarrow> (case sy_push s of
       Push_idle \<Rightarrow> True
     | Push_refresh v tail \<Rightarrow> tail = rb_tail (sy_ring s)
     | Push_write v tail \<Rightarrow> tail = rb_tail (sy_ring s) \<and> length (sy_accepted s) - hc < length (rb_buf (sy_ring s))
     | Push_publish v tail \<Rightarrow> tail = rb_tail (sy_ring s) \<and> length (sy_accepted s) - hc < length (rb_buf (sy_ring s)))"

definition pop_pc_ok :: "'a spsc \<Rightarrow> nat \<Rightarrow> bool" where
  "pop_pc_ok s tc \<longleftrightarrow> (case sy_pop s of
       Pop_idle \<Rightarrow> True
     | Pop_refresh head \<Rightarrow> head = rb_head (sy_ring s)
     | Pop_read head \<Rightarrow> head = rb_head (sy_ring s) \<and> length (sy_delivered s) < tc
     | Pop_publish v head \<Rightarrow> head = rb_head (sy_ring s) \<and> length (sy_delivered s) < tc \<and> sy_accepted s ! length (sy_delivered s) = v)"

definition spsc_inv :: "'a spsc \<Rightarrow> nat \<Rightarrow> nat \<Rightarrow> bool" where
  "spsc_inv s hc tc \<longleftrightarrow>
     \<not> sy_broken s \<and> (\<exists>k\<le>63. length (rb_buf (sy_ring s)) = 2 ^ k) \<and>
     rb_mask (sy_ring s) = of_nat (length (rb_buf (sy_ring s)) - 1) \<and>
     rb_head (sy_ring s) = of_nat (length (sy_delivered s)) \<and> rb_tail (sy_ring s) = of_nat (length (sy_accepted s)) \<and>
     p_head_cache (sy_prod s) = of_nat hc \<and> c_tail_cache (sy_cons s) = of_nat tc \<and>
     hc \<le> length (sy_delivered s) \<and> length (sy_delivered s) \<le> tc \<and> tc \<le> length (sy_accepted s) \<and>
     length (sy_accepted s) - hc \<le> length (rb_buf (sy_ring s)) \<and>
     sy_delivered s = take (length (sy_delivered s)) (sy_accepted s) \<and>
     push_pc_ok s hc \<and> pop_pc_ok s tc \<and> slots_hold (rb_buf (sy_ring s)) (live_from s) (written s)"

lemma index_mod:
  assumes "length (rb_buf r) = 2 ^ k" "k \<le> 63" "rb_mask r = of_nat (length (rb_buf r) - 1)"
  shows "slot_index r (of_nat n) = n mod length (rb_buf r)"
proof -
  have "rb_mask r = mask k" using assms by (simp add: mask_eq_decr_exp of_nat_diff)
  then have "slot_index r (of_nat n) = take_bit (min k 64) n"
    by (simp add: slot_index_def take_bit_eq_mask [symmetric] unsigned_take_bit_eq unat_of_nat)
      (simp add: take_bit_eq_mod [of 64 n, simplified, symmetric])
  then show ?thesis using assms(1,2) by (simp add: min_def take_bit_eq_mod)
qed

lemma mask_less:
  assumes "length (rb_buf r) = 2 ^ k" "k \<le> 63" "rb_mask r = of_nat (length (rb_buf r) - 1)" "b \<le> a" "a - b \<le> length (rb_buf r)"
  shows "of_nat a - of_nat b > rb_mask r \<longleftrightarrow> a - b = length (rb_buf r)"
proof -
  have l: "length (rb_buf r) \<le> 2 ^ 63" unfolding assms(1) using assms(2) by (rule power_increasing) simp
  have "unat (rb_mask r) = length (rb_buf r) - 1" using assms(3) l by (simp add: unat_of_nat take_bit_nat_eq_self)
  moreover have "unat (of_nat a - of_nat b :: usize) = a - b" using l assms(4,5) by (intro cursor_diff) auto
  moreover have "0 < length (rb_buf r)" using assms(1) by simp
  ultimately show ?thesis using assms(5) unfolding word_less_nat_alt by linarith
qed

lemma slots_write:
  assumes "slots_hold buf from vs" "length vs < from + length buf"
  shows "buf ! (length vs mod length buf) = None \<and> slots_hold (buf[length vs mod length buf := Some v]) from (vs @ [v])"
proof -
  have f: "from \<le> length vs" using assms(1) by (simp add: slots_hold_def)
  have "buf[length vs mod length buf := Some v] ! (i mod length buf) =
      (if i < length (vs @ [v]) then Some ((vs @ [v]) ! i) else None)"
    if i: "from \<le> i" "i < from + length buf" for i
  proof (cases "i = length vs")
    case True
    moreover have "length vs mod length buf < length buf" using assms(2) f by (intro mod_less_divisor) linarith
    ultimately show ?thesis by simp
  next
    case False
    then have "i mod length buf \<noteq> length vs mod length buf"
      using window_inj [of i "length buf" "length vs"] assms(2) f i by auto
    then show ?thesis using assms(1) False i by (auto simp: slots_hold_def nth_append)
  qed
  then show ?thesis using assms f by (auto simp: slots_hold_def)
qed

lemma slots_take:
  assumes "slots_hold buf from vs" "from < length vs"
  shows "buf ! (from mod length buf) = Some (vs ! from) \<and> slots_hold (buf[from mod length buf := None]) (Suc from) vs"
proof -
  have n: "0 < length buf" "length vs \<le> from + length buf" using assms by (auto simp: slots_hold_def)
  have "buf[from mod length buf := None] ! (i mod length buf) = (if i < length vs then Some (vs ! i) else None)"
    if i: "Suc from \<le> i" "i < Suc from + length buf" for i
  proof (cases "i = from + length buf")
    case True
    then show ?thesis using n by simp
  next
    case False
    then have "i mod length buf \<noteq> from mod length buf" using window_inj [of i "length buf" "from"] i by auto
    then show ?thesis using assms(1) False i by (auto simp: slots_hold_def)
  qed
  then show ?thesis using assms n by (auto simp: slots_hold_def)
qed

lemma spsc_start_inv: "spsc_inv (spsc_start cap) 0 0"
proof -
  obtain k where k: "length (rb_buf (with_capacity cap :: 'a ring)) = 2 ^ k" "k \<le> 63" by (rule capacity_power)
  have "rb_buf (with_capacity cap :: 'a ring) = replicate (2 ^ k) None"
    "rb_mask (with_capacity cap :: 'a ring) = of_nat (2 ^ k - 1)" "rb_head (with_capacity cap :: 'a ring) = 0"
    "rb_tail (with_capacity cap :: 'a ring) = 0"
    using k(1) by (auto simp: with_capacity_def Let_def)
  then show ?thesis using k(2)
    by (auto simp: spsc_inv_def spsc_start_def ring_new_def push_pc_ok_def pop_pc_ok_def slots_hold_def live_from_def
        written_def)
qed

lemma inv_room:
  assumes "spsc_inv s hc tc" "hc \<le> h" "h \<le> length (sy_delivered s)"
  shows "rb_tail (sy_ring s) - of_nat h > rb_mask (sy_ring s) \<longleftrightarrow> length (sy_accepted s) - h = length (rb_buf (sy_ring s))"
proof -
  obtain k where "length (rb_buf (sy_ring s)) = 2 ^ k" "k \<le> 63" using assms(1) by (auto simp: spsc_inv_def)
  then have "of_nat (length (sy_accepted s)) - of_nat h > rb_mask (sy_ring s) \<longleftrightarrow>
      length (sy_accepted s) - h = length (rb_buf (sy_ring s))"
    using assms by (intro mask_less) (auto simp: spsc_inv_def)
  then show ?thesis using assms by (simp add: spsc_inv_def)
qed

lemma inv_small:
  assumes "spsc_inv s hc tc"
  shows "length (sy_accepted s) - hc < 2 ^ 64"
proof -
  obtain k where k: "length (rb_buf (sy_ring s)) = 2 ^ k" "k \<le> 63" using assms by (auto simp: spsc_inv_def)
  have "(2::nat) ^ k < 2 ^ 64" using k(2) by (intro power_strict_increasing) auto
  then show ?thesis using assms k(1) by (auto simp: spsc_inv_def)
qed

lemma inv_slot:
  assumes "spsc_inv s hc tc"
  shows "slot_index (sy_ring s) (of_nat n) = n mod length (rb_buf (sy_ring s))"
    "n mod length (rb_buf (sy_ring s)) < length (rb_buf (sy_ring s))"
  using assms by (auto simp: spsc_inv_def intro!: index_mod)

lemmas spsc_defs = spsc_inv_def push_pc_ok_def pop_pc_ok_def live_from_def written_def

lemma inv_call_push:
  assumes "spsc_inv s hc tc" "sy_push s = Push_idle"
  shows "spsc_inv (s\<lparr>sy_push := push_begin (sy_ring s) (sy_prod s) v\<rparr>) hc tc"
  using assms inv_room [OF assms(1), of hc]
  by (auto simp: spsc_defs push_begin_def Let_def split: pop_pc.splits)

lemma inv_push_refresh:
  assumes "spsc_inv s hc tc" "sy_push s = Push_refresh v tail" "may_load (rb_head (sy_ring s)) (p_head_cache (sy_prod s)) h"
    "push_refresh (sy_ring s) v tail h = (x, p)"
  shows "\<exists>hc. spsc_inv (s\<lparr>sy_push := (case x of Inl w \<Rightarrow> Push_idle | Inr pc \<Rightarrow> pc), sy_prod := p\<rparr>) hc tc"
proof -
  obtain c where c: "h = of_nat c" "hc \<le> c" "c \<le> length (sy_delivered s)"
    using assms(1,3) inv_small [OF assms(1)] by (auto simp: spsc_inv_def elim!: cursor_loaded)
  have "spsc_inv (s\<lparr>sy_push := (case x of Inl w \<Rightarrow> Push_idle | Inr pc \<Rightarrow> pc), sy_prod := p\<rparr>) c tc"
    using assms inv_room [OF assms(1) c(2,3)] c
    by (auto simp: spsc_defs push_refresh_def split: if_splits pop_pc.splits)
  then show ?thesis ..
qed

lemma inv_push_write:
  assumes "spsc_inv s hc tc" "sy_push s = Push_write v tail"
  obtains r where "write_slot (sy_ring s) tail v = Some r" "spsc_inv (s\<lparr>sy_push := Push_publish v tail, sy_ring := r\<rparr>) hc tc"
proof -
  let ?r = "sy_ring s"
  let ?k = "length (sy_accepted s) mod length (rb_buf ?r)"
  have t: "slot_index ?r tail = ?k" "?k < length (rb_buf ?r)"
    using assms inv_slot [OF assms(1)] by (auto simp: spsc_defs)
  have "slots_hold (rb_buf ?r) (live_from s) (sy_accepted s)" "length (sy_accepted s) < live_from s + length (rb_buf ?r)"
    using assms by (auto simp: spsc_defs)
  note w = slots_write [OF this, of v]
  have "write_slot ?r tail v = Some (?r\<lparr>rb_buf := (rb_buf ?r)[?k := Some v]\<rparr>)"
    using t w by (simp add: write_slot_def Let_def)
  moreover have "spsc_inv (s\<lparr>sy_push := Push_publish v tail, sy_ring := ?r\<lparr>rb_buf := (rb_buf ?r)[?k := Some v]\<rparr>\<rparr>) hc tc"
    using assms w by (auto simp: spsc_defs split: pop_pc.splits)
  ultimately show thesis by (rule that)
qed

lemma inv_push_publish:
  assumes "spsc_inv s hc tc" "sy_push s = Push_publish v tail"
  shows "spsc_inv (s\<lparr>sy_push := Push_idle, sy_ring := push_publish (sy_ring s) tail, sy_accepted := sy_accepted s @ [v]\<rparr>) hc tc"
  using assms by (auto simp: spsc_defs push_publish_def nth_append split: pop_pc.splits)

lemma inv_call_pop:
  assumes "spsc_inv s hc tc" "sy_pop s = Pop_idle"
  shows "spsc_inv (s\<lparr>sy_pop := pop_begin (sy_ring s) (sy_cons s)\<rparr>) hc tc"
proof -
  have "tc - length (sy_delivered s) < 2 ^ 64" "length (sy_delivered s) \<le> tc"
    using assms(1) inv_small [OF assms(1)] by (auto simp: spsc_inv_def)
  then have "rb_head (sy_ring s) = c_tail_cache (sy_cons s) \<longleftrightarrow> length (sy_delivered s) = tc"
    using assms(1) cursor_eq [of tc "length (sy_delivered s)"] by (auto simp: spsc_inv_def)
  then show ?thesis using assms by (auto simp: spsc_defs pop_begin_def Let_def split: push_pc.splits)
qed

lemma inv_pop_refresh:
  assumes "spsc_inv s hc tc" "sy_pop s = Pop_refresh head" "may_load (rb_tail (sy_ring s)) (c_tail_cache (sy_cons s)) t"
    "pop_refresh head t = (pc, c)"
  shows "\<exists>tc. spsc_inv (s\<lparr>sy_pop := pc, sy_cons := c\<rparr>) hc tc"
proof -
  obtain n where n: "t = of_nat n" "tc \<le> n" "n \<le> length (sy_accepted s)"
    using assms(1,3) inv_small [OF assms(1)] by (auto simp: spsc_inv_def elim!: cursor_loaded)
  have "n - length (sy_delivered s) < 2 ^ 64" "length (sy_delivered s) \<le> n"
    using assms(1) inv_small [OF assms(1)] n by (auto simp: spsc_inv_def)
  then have "head = t \<longleftrightarrow> length (sy_delivered s) = n"
    using assms(1,2) cursor_eq [of n "length (sy_delivered s)"] n(1) by (auto simp: spsc_defs)
  then have "spsc_inv (s\<lparr>sy_pop := pc, sy_cons := c\<rparr>) hc n"
    using assms n by (auto simp: spsc_defs pop_refresh_def split: if_splits push_pc.splits)
  then show ?thesis ..
qed

lemma inv_pop_read:
  assumes "spsc_inv s hc tc" "sy_pop s = Pop_read head"
  obtains v r where "read_slot (sy_ring s) head = Some (v, r)" "v = sy_accepted s ! length (sy_delivered s)"
    "spsc_inv (s\<lparr>sy_pop := Pop_publish v head, sy_ring := r\<rparr>) hc tc"
proof -
  let ?r = "sy_ring s" and ?v = "sy_accepted s ! length (sy_delivered s)"
  let ?k = "length (sy_delivered s) mod length (rb_buf ?r)"
  have t: "slot_index ?r head = ?k" "?k < length (rb_buf ?r)"
    using assms inv_slot [OF assms(1)] by (auto simp: spsc_defs)
  have a: "length (sy_delivered s) < length (sy_accepted s)" using assms by (auto simp: spsc_defs)
  then have "slots_hold (rb_buf ?r) (length (sy_delivered s)) (written s)" "length (sy_delivered s) < length (written s)"
    "written s ! length (sy_delivered s) = ?v"
    using assms by (auto simp: spsc_defs nth_append)
  note w = slots_take [OF this(1,2), unfolded this(3)]
  have "read_slot ?r head = Some (?v, ?r\<lparr>rb_buf := (rb_buf ?r)[?k := None]\<rparr>)"
    using t w by (simp add: read_slot_def Let_def)
  moreover have "spsc_inv (s\<lparr>sy_pop := Pop_publish ?v head, sy_ring := ?r\<lparr>rb_buf := (rb_buf ?r)[?k := None]\<rparr>\<rparr>) hc tc"
    using assms w by (auto simp: spsc_defs split: push_pc.splits)
  ultimately show thesis using that by blast
qed

lemma inv_pop_publish:
  assumes "spsc_inv s hc tc" "sy_pop s = Pop_publish v head"
  shows "spsc_inv (s\<lparr>sy_pop := Pop_idle, sy_ring := pop_publish (sy_ring s) head, sy_delivered := sy_delivered s @ [v]\<rparr>) hc tc"
proof -
  have "length (sy_delivered s) < length (sy_accepted s)" "sy_accepted s ! length (sy_delivered s) = v"
    "sy_delivered s = take (length (sy_delivered s)) (sy_accepted s)"
    using assms by (auto simp: spsc_defs)
  then have "sy_delivered s @ [v] = take (Suc (length (sy_delivered s))) (sy_accepted s)"
    by (metis take_Suc_conv_app_nth)
  then show ?thesis using assms by (auto simp: spsc_defs pop_publish_def split: push_pc.splits)
qed

lemma spsc_step_inv:
  assumes "spsc_step s s'" "\<exists>hc tc. spsc_inv s hc tc"
  shows "\<exists>hc tc. spsc_inv s' hc tc"
  using assms
proof cases
  case (push_full v tail h w p)
  then show ?thesis using assms(2) inv_push_refresh [of s _ _ v tail h "Inl w" p] by simp blast
next
  case (push_room v tail h pc p)
  then show ?thesis using assms(2) inv_push_refresh [of s _ _ v tail h "Inr pc" p] by simp blast
next
  case (push_stores v tail r)
  then show ?thesis using assms(2) by (metis inv_push_write option.inject)
next
  case (push_breaks v tail)
  then show ?thesis using assms(2) by (metis inv_push_write option.distinct(1))
next
  case (pop_takes head v r)
  then show ?thesis using assms(2) by (metis inv_pop_read option.inject prod.inject)
next
  case (pop_breaks head)
  then show ?thesis using assms(2) by (metis inv_pop_read option.distinct(1))
qed (use assms(2) in \<open>blast intro: inv_call_push inv_push_publish inv_call_pop inv_pop_refresh inv_pop_publish\<close>)+

lemma spsc_reachable_inv: "spsc_step\<^sup>*\<^sup>* (spsc_start cap) s \<Longrightarrow> \<exists>hc tc. spsc_inv s hc tc"
  by (induction rule: rtranclp_induct) (use spsc_start_inv spsc_step_inv in blast)+

section \<open>The ring as a bounded queue\<close>

datatype 'a queue_op = Put 'a | Take

text \<open>The promise of a bounded queue to a user who runs its operations one at a time.\<close>

fun queue_step :: "nat \<Rightarrow> 'a list \<Rightarrow> 'a queue_op \<Rightarrow> 'a option \<times> 'a list" where
  "queue_step n q (Put v) = (if length q = n then (Some v, q) else (None, q @ [v]))"
| "queue_step n q Take = (case q of [] \<Rightarrow> (None, []) | v # q' \<Rightarrow> (Some v, q'))"

fun queue_run :: "nat \<Rightarrow> 'a queue_op list \<Rightarrow> 'a list \<Rightarrow> 'a option list \<times> 'a list" where
  "queue_run n [] q = ([], q)"
| "queue_run n (c # ops) q =
     (case queue_step n q c of (a, q') \<Rightarrow> case queue_run n ops q' of (as, q'') \<Rightarrow> (a # as, q''))"

fun serve :: "('s \<Rightarrow> 'a \<Rightarrow> ('a option \<times> 's) option) \<Rightarrow> ('s \<Rightarrow> ('a option \<times> 's) option) \<Rightarrow> 'a queue_op list \<Rightarrow> 's \<Rightarrow>
    ('a option list \<times> 's) option" where
  "serve put take_out [] st = Some ([], st)"
| "serve put take_out (c # ops) st =
     (case (case c of Put v \<Rightarrow> put st v | Take \<Rightarrow> take_out st) of None \<Rightarrow> None
      | Some (a, st') \<Rightarrow> map_option (\<lambda>(as, st''). (a # as, st'')) (serve put take_out ops st'))"

locale bounded_queue =
  fixes put :: "'s \<Rightarrow> 'a \<Rightarrow> ('a option \<times> 's) option" and take_out :: "'s \<Rightarrow> ('a option \<times> 's) option"
    and holds :: "'s \<Rightarrow> nat \<Rightarrow> 'a list \<Rightarrow> bool"
  assumes put_law: "holds st n q \<Longrightarrow>
      \<exists>st'. put st v = Some (fst (queue_step n q (Put v)), st') \<and> holds st' n (snd (queue_step n q (Put v)))"
    and take_law: "holds st n q \<Longrightarrow>
      \<exists>st'. take_out st = Some (fst (queue_step n q Take), st') \<and> holds st' n (snd (queue_step n q Take))"
begin

lemma step_refines:
  assumes "holds st n q"
  shows "\<exists>st'. (case c of Put v \<Rightarrow> put st v | Take \<Rightarrow> take_out st) = Some (fst (queue_step n q c), st') \<and>
    holds st' n (snd (queue_step n q c))"
  using put_law [OF assms] take_law [OF assms] by (cases c) auto

lemma serve_refines:
  "holds st n q \<Longrightarrow> \<exists>st'. serve put take_out ops st = Some (fst (queue_run n ops q), st') \<and> holds st' n (snd (queue_run n ops q))"
proof (induction ops arbitrary: st q)
  case (Cons c ops)
  obtain st1 where st1: "(case c of Put v \<Rightarrow> put st v | Take \<Rightarrow> take_out st) = Some (fst (queue_step n q c), st1)"
    "holds st1 n (snd (queue_step n q c))"
    using step_refines [OF Cons.prems] by blast
  obtain st2 where "serve put take_out ops st1 = Some (fst (queue_run n ops (snd (queue_step n q c))), st2)"
    "holds st2 n (snd (queue_run n ops (snd (queue_step n q c))))"
    using Cons.IH [OF st1(2)] by blast
  then show ?case using st1(1) by (auto simp: split_beta)
qed simp

end

definition ring_put :: "'a ring \<times> producer \<times> consumer \<Rightarrow> 'a \<Rightarrow> ('a option \<times> 'a ring \<times> producer \<times> consumer) option" where
  "ring_put st v =
     (case st of (r, p, c) \<Rightarrow>
        map_option (\<lambda>(res, r', p'). (case res of Inl w \<Rightarrow> Some w | Inr _ \<Rightarrow> None, r', p', c)) (push r p v))"

definition ring_take :: "'a ring \<times> producer \<times> consumer \<Rightarrow> ('a option \<times> 'a ring \<times> producer \<times> consumer) option" where
  "ring_take st = (case st of (r, p, c) \<Rightarrow> map_option (\<lambda>(res, r', c'). (res, r', p, c')) (pop r c))"

definition at_rest :: "'a ring \<times> producer \<times> consumer \<Rightarrow> 'a list \<Rightarrow> 'a list \<Rightarrow> 'a spsc" where
  "at_rest st acc del =
     (case st of (r, p, c) \<Rightarrow>
        \<lparr>sy_ring = r, sy_prod = p, sy_cons = c, sy_push = Push_idle, sy_pop = Pop_idle,
         sy_accepted = acc, sy_delivered = del, sy_broken = False\<rparr>)"

definition ring_holds :: "'a ring \<times> producer \<times> consumer \<Rightarrow> nat \<Rightarrow> 'a list \<Rightarrow> bool" where
  "ring_holds st n q \<longleftrightarrow>
     n = length (rb_buf (fst st)) \<and>
     (\<exists>acc del hc tc. spsc_inv (at_rest st acc del) hc tc \<and> q = drop (length del) acc)"

lemma at_rest_simps [simp]:
  "sy_ring (at_rest (r, p, c) acc del) = r" "sy_prod (at_rest (r, p, c) acc del) = p" "sy_cons (at_rest (r, p, c) acc del) = c"
  "sy_push (at_rest st acc del) = Push_idle" "sy_pop (at_rest st acc del) = Pop_idle"
  "sy_accepted (at_rest st acc del) = acc" "sy_delivered (at_rest st acc del) = del"
  by (auto simp: at_rest_def split: prod.splits)

lemma may_load_now: "may_load cur seen cur"
  by (simp add: may_load_def)

lemma ring_holdsI:
  "spsc_inv (at_rest (r, p, c) acc del) hc tc \<Longrightarrow> n = length (rb_buf r) \<Longrightarrow> q = drop (length del) acc \<Longrightarrow> ring_holds (r, p, c) n q"
  by (auto simp: ring_holds_def)

lemma push_finish_rest:
  assumes "spsc_inv ((at_rest (r, p, c) acc del)\<lparr>sy_push := Push_write v tail\<rparr>) hc tc"
  shows "\<exists>r'. push_finish r p v tail = Some (Ok (), r', p) \<and>
    ring_holds (r', p, c) (length (rb_buf r)) (drop (length del) acc @ [v])"
proof -
  obtain r1 where "write_slot r tail v = Some r1"
    "spsc_inv ((at_rest (r, p, c) acc del)\<lparr>sy_push := Push_publish v tail, sy_ring := r1\<rparr>) hc tc"
    using inv_push_write [OF assms, of v tail] by auto
  then have "push_finish r p v tail = Some (Ok (), push_publish r1 tail, p)"
    "spsc_inv (at_rest (push_publish r1 tail, p, c) (acc @ [v]) del) hc tc" "length (rb_buf r1) = length (rb_buf r)"
    using inv_push_publish [of _ hc tc v tail]
    by (fastforce simp: push_finish_def at_rest_def push_publish_def write_slot_def Let_def split: if_splits)+
  moreover have "length del \<le> length acc" using assms by (simp add: spsc_inv_def)
  ultimately show ?thesis by (auto simp: push_publish_def intro!: ring_holdsI)
qed

lemma push_law:
  assumes "ring_holds (r, p, c) n q"
  shows "\<exists>r' p'. push r p v = Some (if length q = n then Err v else Ok (), r', p') \<and>
    ring_holds (r', p', c) n (if length q = n then q else q @ [v])"
proof -
  obtain acc del hc tc where i: "spsc_inv (at_rest (r, p, c) acc del) hc tc" and q: "q = drop (length del) acc"
    and n: "n = length (rb_buf r)"
    using assms by (auto simp: ring_holds_def)
  have l: "length del \<le> length acc" "hc \<le> length del" "length acc - hc \<le> n" "rb_head r = of_nat (length del)"
    "p_head_cache p = of_nat hc"
    using i by (auto simp: spsc_inv_def n)
  have full: "rb_tail r - rb_head r > rb_mask r \<longleftrightarrow> length q = n"
    using inv_room [OF i, of "length del"] l q by (simp add: n)
  note b = inv_call_push [OF i, of v, simplified]
  show ?thesis
  proof (cases "push_begin r p v")
    case (Push_refresh w tail)
    then have w: "w = v" "tail = rb_tail r" by (auto simp: push_begin_def Let_def split: if_splits)
    obtain x p' where x: "push_refresh r v tail (rb_head r) = (x, p')" by fastforce
    then have y: "x = (if length q = n then Inl v else Inr (Push_write v tail))"
      using full w by (auto simp: push_refresh_def split: if_splits)
    obtain hc' where "spsc_inv ((at_rest (r, p, c) acc del)\<lparr>sy_push := (case x of Inl w \<Rightarrow> Push_idle | Inr pc \<Rightarrow> pc), sy_prod := p'\<rparr>) hc' tc"
      using inv_push_refresh [OF b, of v tail "rb_head r" x p'] Push_refresh w x may_load_now by auto
    then show ?thesis
      using y Push_refresh x q w n push_finish_rest [of v tail r p' c acc del hc' tc] ring_holdsI [of r p' c acc del hc' tc n q]
      by (auto simp: push_def at_rest_def split: if_splits)
  next
    case (Push_write w tail)
    then have w: "w = v" "tail = rb_tail r" "\<not> rb_tail r - of_nat hc > rb_mask r"
      using l(5) by (auto simp: push_begin_def Let_def split: if_splits)
    then have "length q \<noteq> n" using inv_room [OF i, of hc] l q by (auto simp: n)
    then show ?thesis using b Push_write w push_finish_rest [of v tail r p c acc del hc tc] q n by (auto simp: push_def)
  qed (auto simp: push_begin_def Let_def split: if_splits)
qed

lemma pop_finish_rest:
  assumes "spsc_inv ((at_rest (r, p, c) acc del)\<lparr>sy_pop := Pop_read head\<rparr>) hc tc"
  shows "\<exists>r'. pop_finish r c head = Some (Some (acc ! length del), r', c) \<and> length del < length acc \<and>
    ring_holds (r', p, c) (length (rb_buf r)) (drop (Suc (length del)) acc)"
proof -
  obtain r1 where "read_slot r head = Some (acc ! length del, r1)"
    "spsc_inv ((at_rest (r, p, c) acc del)\<lparr>sy_pop := Pop_publish (acc ! length del) head, sy_ring := r1\<rparr>) hc tc"
    using inv_pop_read [OF assms, of head] by auto
  then have "pop_finish r c head = Some (Some (acc ! length del), pop_publish r1 head, c)"
    "spsc_inv (at_rest (pop_publish r1 head, p, c) acc (del @ [acc ! length del])) hc tc" "length (rb_buf r1) = length (rb_buf r)"
    using inv_pop_publish [of _ hc tc "acc ! length del" head]
    by (fastforce simp: pop_finish_def at_rest_def pop_publish_def read_slot_def Let_def split: if_splits)+
  moreover have "length del < length acc" using assms by (auto simp: spsc_inv_def pop_pc_ok_def)
  ultimately show ?thesis by (auto simp: pop_publish_def intro!: ring_holdsI)
qed

lemma pop_law:
  assumes "ring_holds (r, p, c) n q"
  shows "\<exists>r' c'. pop r c = Some (case q of [] \<Rightarrow> None | v # q' \<Rightarrow> Some v, r', c') \<and> ring_holds (r', p, c') n (tl q)"
proof -
  obtain acc del hc tc where i: "spsc_inv (at_rest (r, p, c) acc del) hc tc" and q: "q = drop (length del) acc"
    and n: "n = length (rb_buf r)"
    using assms by (auto simp: ring_holds_def)
  have l: "length del \<le> length acc" "length acc - length del < 2 ^ 64" "rb_head r = of_nat (length del)"
    "rb_tail r = of_nat (length acc)"
    using i inv_small [OF i] by (auto simp: spsc_inv_def)
  have empty: "rb_head r = rb_tail r \<longleftrightarrow> q = []" using cursor_eq [OF l(2,1)] l q by auto
  have found: "\<exists>r' c'. pop_finish r c1 head = Some (case q of [] \<Rightarrow> None | v # q' \<Rightarrow> Some v, r', c') \<and> ring_holds (r', p, c') n (tl q)"
    if "spsc_inv ((at_rest (r, p, c1) acc del)\<lparr>sy_pop := Pop_read head\<rparr>) hc1 tc1" for c1 head hc1 tc1
    using pop_finish_rest [OF that] q n Cons_nth_drop_Suc [of "length del" acc] by (metis list.sel(3) list.simps(5))
  note b = inv_call_pop [OF i, simplified]
  show ?thesis
  proof (cases "pop_begin r c")
    case (Pop_refresh head)
    then have h: "head = rb_head r" by (auto simp: pop_begin_def Let_def split: if_splits)
    obtain pc :: "'a pop_pc" and c' where x: "pop_refresh head (rb_tail r) = (pc, c')" by fastforce
    then have y: "pc = (if q = [] then Pop_idle else Pop_read head)" using empty h by (auto simp: pop_refresh_def)
    obtain tc' where t: "spsc_inv ((at_rest (r, p, c) acc del)\<lparr>sy_pop := pc, sy_cons := c'\<rparr>) hc tc'"
      using inv_pop_refresh [OF b, of head "rb_tail r" pc c'] Pop_refresh x may_load_now by auto
    show ?thesis
    proof (cases "q = []")
      case True
      then show ?thesis using y Pop_refresh x q n t ring_holdsI [of r p c' acc del hc tc' n q]
        by (auto simp: pop_def at_rest_def)
    next
      case False
      then show ?thesis using y Pop_refresh x t found [of head c' hc tc'] by (simp add: pop_def at_rest_def)
    qed
  next
    case (Pop_read head)
    then have "head = rb_head r" by (auto simp: pop_begin_def Let_def split: if_splits)
    then show ?thesis using b Pop_read found [of head c hc tc] by (simp add: pop_def)
  qed (auto simp: pop_begin_def Let_def split: if_splits)
qed

interpretation ring_queue: bounded_queue ring_put ring_take ring_holds
proof
  fix st :: "'a ring \<times> producer \<times> consumer" and n q v
  assume h: "ring_holds st n q"
  obtain r p c where st: "st = (r, p, c)" by (cases st)
  show "\<exists>st'. ring_put st v = Some (fst (queue_step n q (Put v)), st') \<and> ring_holds st' n (snd (queue_step n q (Put v)))"
    using push_law [of r p c n q v] h st by (auto simp: ring_put_def split: if_splits)
  show "\<exists>st'. ring_take st = Some (fst (queue_step n q Take), st') \<and> ring_holds st' n (snd (queue_step n q Take))"
    using pop_law [of r p c n q] h st by (cases q) (auto simp: ring_take_def)
qed

lemma drop_from_rest:
  assumes "slots_hold (rb_buf r) from acc" "length (rb_buf r) = 2 ^ k" "k \<le> 63" "rb_mask r = of_nat (length (rb_buf r) - 1)"
    "rb_tail r = of_nat (length acc)"
  shows "drop_from r (of_nat from) = Some (drop from acc)"
  using assms
proof (induction "length acc - from" arbitrary: "from" r)
  case 0
  then have "from = length acc" by (simp add: slots_hold_def)
  then show ?case using "0.prems" by (subst drop_from.simps) simp
next
  case (Suc d)
  then have f: "from < length acc" "length acc - from \<le> 2 ^ k" by (auto simp: slots_hold_def)
  have "(2::nat) ^ k < 2 ^ 64" using Suc.prems(3) by (intro power_strict_increasing) auto
  then have ne: "of_nat from \<noteq> rb_tail r" using cursor_eq [of "length acc" "from"] f Suc.prems(5) by auto
  let ?k = "from mod length (rb_buf r)"
  note t = slots_take [OF Suc.prems(1) f(1)]
  have i: "slot_index r (of_nat from) = ?k" "?k < length (rb_buf r)"
    using index_mod [OF Suc.prems(2,3,4)] Suc.prems(2) by simp_all
  let ?r = "r\<lparr>rb_buf := (rb_buf r)[?k := None]\<rparr>"
  have "drop_from ?r (of_nat (Suc from)) = Some (drop (Suc from) acc)"
    using Suc.hyps(2) t Suc.prems by (intro Suc.hyps(1)) auto
  moreover have "read_slot r (of_nat from) = Some (acc ! from, ?r)" using i t by (simp add: read_slot_def Let_def)
  ultimately show ?case using ne f(1) by (subst drop_from.simps) (simp add: Cons_nth_drop_Suc add.commute)
qed

lemma holds_drop:
  assumes "ring_holds st n q"
  shows "ring_drop (fst st) = Some q \<and> is_full (fst st) = (length q = n) \<and> ring_is_empty (fst st) = (q = []) \<and>
    unat (ring_len (fst st)) = length q \<and> unat (capacity (fst st)) = n"
proof -
  obtain r p c where st: "st = (r, p, c)" by (cases st)
  obtain acc del hc tc where i: "spsc_inv (at_rest (r, p, c) acc del) hc tc" and q: "q = drop (length del) acc"
    and n: "n = length (rb_buf r)"
    using assms st by (auto simp: ring_holds_def)
  obtain k where k: "length (rb_buf r) = 2 ^ k" "k \<le> 63" using i by (auto simp: spsc_inv_def)
  have l: "length del \<le> length acc" "length acc - length del < 2 ^ 64" "hc \<le> length del" "rb_head r = of_nat (length del)"
    "rb_tail r = of_nat (length acc)" "slots_hold (rb_buf r) (length del) acc" "rb_mask r = of_nat (length (rb_buf r) - 1)"
    using i inv_small [OF i] by (auto simp: spsc_inv_def live_from_def written_def)
  have "(2::nat) ^ k < 2 ^ 64" using k(2) by (intro power_strict_increasing) auto
  then have "unat (of_nat n :: usize) = n" using k(1) n cursor_diff [of 0 n] by simp
  moreover have "capacity r = of_nat n" using l(7) k(1) n by (simp add: capacity_def of_nat_diff)
  ultimately have "unat (capacity r) = n" by simp
  then show ?thesis
    using drop_from_rest [OF l(6) k l(7,5)] inv_room [OF i, of "length del"] cursor_eq [OF l(2,1)] cursor_diff [OF l(1,2)] l q st n
    by (auto simp: ring_drop_def is_full_def ring_is_empty_def ring_len_def)
qed

text \<open>
  C13: Whatever two threads do with the ring, one pushing and one popping, and however stale the
  cursors they load are, no uninitialised slot is read and no value is overwritten; the delivered
  values are the accepted ones in their order, and at most the ring's size of them are under way.
  The size is the requested capacity or more, up to \<open>MAX_CAPACITY\<close>.
\<close>

theorem ring_is_fifo:
  assumes "spsc_step\<^sup>*\<^sup>* (spsc_start cap) s"
  shows "\<not> sy_broken s \<and> sy_delivered s = take (length (sy_delivered s)) (sy_accepted s) \<and>
    length (sy_accepted s) \<le> length (sy_delivered s) + length (rb_buf (sy_ring s)) \<and>
    min cap max_capacity \<le> length (rb_buf (sy_ring s))"
proof -
  have "length (rb_buf (sy_ring s)) = length (rb_buf (with_capacity cap :: 'a ring))"
    using assms
  proof induction
    case (step t u)
    show ?case using step(2,3)
      by cases (auto simp: write_slot_def read_slot_def push_publish_def pop_publish_def Let_def split: if_splits)
  qed (simp add: spsc_start_def ring_new_def)
  moreover obtain k where "length (rb_buf (with_capacity cap :: 'a ring)) = 2 ^ k" "min (max cap 2) (2 ^ 63) \<le> 2 ^ k"
    by (rule capacity_power)
  moreover have "min cap max_capacity \<le> min (max cap 2) (2 ^ 63)" unfolding max_capacity_def by (intro min.mono) auto
  ultimately show ?thesis using spsc_reachable_inv [OF assms] by (auto simp: spsc_inv_def simp del: power_numeral)
qed

text \<open>
  C14: While the other thread rests, the operations of the ring are those of a bounded queue: from
  every reachable state without an operation under way, a sequence of pushes and pops gives the
  answers of the queue of its size that holds the accepted and undelivered values, a push is refused
  exactly when the queue is full, and dropping the ring drops exactly what is left in it.
\<close>

theorem ring_refines_queue:
  assumes "spsc_step\<^sup>*\<^sup>* (spsc_start cap) s" "sy_push s = Push_idle" "sy_pop s = Pop_idle"
    and "queue_run (length (rb_buf (sy_ring s))) ops (drop (length (sy_delivered s)) (sy_accepted s)) = (answers, q)"
  shows "\<exists>r p c. serve ring_put ring_take ops (sy_ring s, sy_prod s, sy_cons s) = Some (answers, r, p, c) \<and>
    ring_drop r = Some q \<and> is_full r = (length q = length (rb_buf (sy_ring s))) \<and> ring_is_empty r = (q = []) \<and>
    unat (ring_len r) = length q"
proof -
  obtain hc tc where i: "spsc_inv s hc tc" using spsc_reachable_inv [OF assms(1)] by blast
  have "s = at_rest (sy_ring s, sy_prod s, sy_cons s) (sy_accepted s) (sy_delivered s)"
    using assms(2,3) i by (cases s) (simp add: at_rest_def spsc_inv_def)
  then have "ring_holds (sy_ring s, sy_prod s, sy_cons s) (length (rb_buf (sy_ring s))) (drop (length (sy_delivered s)) (sy_accepted s))"
    using i by (metis ring_holdsI)
  from ring_queue.serve_refines [OF this, of ops] show ?thesis using assms(4) holds_drop by fastforce
qed

section \<open>Witnesses\<close>

definition sample_state :: "nat spsc" where
  "sample_state =
     \<lparr>sy_ring = \<lparr>rb_buf = [Some 7, None], rb_mask = 1, rb_head = 0, rb_tail = 1\<rparr>,
      sy_prod = \<lparr>p_head_cache = 0\<rparr>, sy_cons = \<lparr>c_tail_cache = 0\<rparr>, sy_push = Push_idle, sy_pop = Pop_idle,
      sy_accepted = [7], sy_delivered = [], sy_broken = False\<rparr>"

lemma sample_reached: "spsc_step\<^sup>*\<^sup>* (spsc_start 2) sample_state"
proof -
  have s0: "spsc_start 2 = sample_state\<lparr>sy_ring := \<lparr>rb_buf = [None, None], rb_mask = 1, rb_head = 0, rb_tail = 0\<rparr>, sy_accepted := []\<rparr>"
    by (simp add: spsc_start_def ring_new_def with_capacity_def checked_next_power_of_two_def pow2_from.simps sample_state_def)
      (simp add: numeral_2_eq_2)
  let ?s1 = "(spsc_start 2 :: nat spsc)\<lparr>sy_push := Push_write 7 0\<rparr>"
  let ?s2 = "sample_state\<lparr>sy_push := Push_publish 7 0, sy_ring := (sy_ring sample_state)\<lparr>rb_tail := 0\<rparr>, sy_accepted := []\<rparr>"
  have "spsc_step (spsc_start 2 :: nat spsc) ?s1"
    using call_push [of "spsc_start 2 :: nat spsc" 7] by (simp add: s0 push_begin_def sample_state_def)
  moreover have "spsc_step ?s1 ?s2"
    using push_stores [of ?s1 7 0 "(sy_ring sample_state)\<lparr>rb_tail := 0\<rparr>"]
    by (simp add: s0 write_slot_def slot_index_def sample_state_def)
  moreover have "spsc_step ?s2 sample_state"
    using push_returns [of ?s2 7 0] by (simp add: push_publish_def sample_state_def)
  ultimately show ?thesis by (meson converse_rtranclp_into_rtranclp rtranclp.rtrancl_refl)
qed

theorem ring_is_fifo_witness: "\<not> sy_broken sample_state \<and> 2 \<le> length (rb_buf (sy_ring sample_state))"
  using ring_is_fifo [OF sample_reached] by (simp add: max_capacity_def)

theorem ring_refines_queue_witness:
  "\<exists>r p c. serve ring_put ring_take [Put 8, Put 9, Take, Take] (sy_ring sample_state, sy_prod sample_state, sy_cons sample_state) =
     Some ([None, Some 9, Some 7, Some 8], r, p, c) \<and> ring_drop r = Some []"
  using ring_refines_queue [OF sample_reached, of "[Put 8, Put 9, Take, Take]" "[None, Some 9, Some 7, Some 8]" "[]"]
  by (simp add: sample_state_def) blast

end
