(* ===== verification/Map_Group.thy ===== *)
theory Map_Group
  imports Find_Crlf
begin

text \<open>
  A group of sixteen metadata bytes of the hash table: \<open>kevy-map/src/group.rs\<close>. A comparison with
  one byte gives a bit mask, one bit per slot on x86-64 and in the portable build, one in four on
  aarch64. The lemmas show that every build enumerates exactly the matching slots, in order.
\<close>

section \<open>Loading and comparing\<close>

definition group_width :: nat where "group_width = 16"

text \<open>\<open>Group::load\<close>, \<open>None\<close> when it would read past the buffer.\<close>

definition group_load :: "bytes \<Rightarrow> nat \<Rightarrow> bytes option" where
  "group_load buf p = (if p + group_width \<le> length buf then Some (take group_width (drop p buf)) else None)"

text \<open>The lanes of a vector compare, and the two ways to compress them.\<close>

definition lanes_eq :: "bytes \<Rightarrow> u8 \<Rightarrow> bytes" where
  "lanes_eq g b = map (\<lambda>x. if x = b then 0xFF else 0) g"

definition movemask :: "bytes \<Rightarrow> 64 word" where
  "movemask ls = horner_sum of_bool 2 (map (\<lambda>x. bit x 7) ls)"

definition reinterpret_u16 :: "bytes \<Rightarrow> 16 word list" where
  "reinterpret_u16 ls = map (\<lambda>j. ucast (ls ! (2 * j)) OR push_bit 8 (ucast (ls ! (2 * j + 1)))) [0..<8]"

definition shrn_4 :: "16 word list \<Rightarrow> bytes" where
  "shrn_4 ws = map (\<lambda>w. ucast (drop_bit 4 w)) ws"

definition bits_of_bytes :: "bytes \<Rightarrow> bool list" where
  "bits_of_bytes bs = concat (map (\<lambda>b. map (bit b) [0..<8]) bs)"

definition get_lane_u64 :: "bytes \<Rightarrow> 64 word" where
  "get_lane_u64 bs = horner_sum of_bool 2 (bits_of_bytes bs)"

fun match_byte :: "target \<Rightarrow> bytes \<Rightarrow> u8 \<Rightarrow> 64 word" where
  "match_byte (X86_64 _) g b = movemask (lanes_eq g b)"
| "match_byte Aarch64 g b = get_lane_u64 (shrn_4 (reinterpret_u16 (lanes_eq g b))) AND 0x1111111111111111"
| "match_byte Other g b = foldl (\<lambda>m i. if g ! i = b then m OR push_bit i 1 else m) 0 [0..<length g]"

section \<open>Bit masks\<close>

fun bit_to_slot :: "target \<Rightarrow> nat \<Rightarrow> nat" where
  "bit_to_slot Aarch64 n = drop_bit 2 n"
| "bit_to_slot _ n = n"

definition mask_is_empty :: "64 word \<Rightarrow> bool" where
  "mask_is_empty m \<longleftrightarrow> m = 0"

definition lowest_set :: "target \<Rightarrow> 64 word \<Rightarrow> nat option" where
  "lowest_set t m = (if m = 0 then None else Some (bit_to_slot t (trailing_zeros m)))"

lemma clear_lowest_less: "m \<noteq> 0 \<Longrightarrow> unat (m AND (m - 1)) < unat (m :: 64 word)"
  using word_and_le1 [of m "m - 1"] word_and_le2 [of m "m - 1"] word_and_le1 [of "m - 1" m] word_and_le2 [of "m - 1" m]
    measure_unat [of m] by (simp add: word_le_nat_alt ac_simps)

function mask_iter :: "target \<Rightarrow> 64 word \<Rightarrow> nat list" where
  "mask_iter t m = (if m = 0 then [] else bit_to_slot t (trailing_zeros m) # mask_iter t (m AND (m - 1)))"
  by pat_completeness auto
termination
  by (relation "measure (\<lambda>(t, m). unat m)") (auto simp: clear_lowest_less)

declare mask_iter.simps [simp del]

definition slot_mask :: "target \<Rightarrow> 64 word \<Rightarrow> 16 word" where
  "slot_mask t m = foldl (\<lambda>a s. a OR push_bit s 1) 0 (mask_iter t m)"

definition leading_zeros_u16 :: "16 word \<Rightarrow> nat" where
  "leading_zeros_u16 w = length (takeWhile (\<lambda>i. \<not> bit w i) (rev [0..<16]))"

definition trailing_zeros_u16 :: "16 word \<Rightarrow> nat" where
  "trailing_zeros_u16 w = length (takeWhile (\<lambda>i. \<not> bit w i) [0..<16])"

section \<open>Enumerating a mask\<close>

lemma bit_pred_nat:
  fixes x :: nat
  assumes "bit x k" "\<And>i. i < k \<Longrightarrow> \<not> bit x i"
  shows "bit (x - 1) n \<longleftrightarrow> n < k \<or> k < n \<and> bit x n"
proof -
  define q where "q = drop_bit (Suc k) x"
  have "take_bit (Suc k) x = 2 ^ k"
    using assms by (intro bit_eqI) (auto simp: bit_simps less_Suc_eq)
  then have x: "x = push_bit (Suc k) q + 2 ^ k" using bits_ident [of "Suc k" x] by (simp add: q_def)
  then have "x - 1 = push_bit (Suc k) q + mask k" by (simp add: mask_eq_exp_minus_1)
  also have "\<dots> = push_bit (Suc k) q OR mask k" by (rule disjunctive_add) (simp add: bit_simps)
  finally have "bit (x - 1) n \<longleftrightarrow> Suc k \<le> n \<and> bit q (n - Suc k) \<or> n < k"
    by (simp add: bit_simps del: push_bit_Suc)
  then show ?thesis by (auto simp: q_def bit_simps)
qed

lemma trailing_zeros_bit:
  assumes "m \<noteq> 0"
  shows "bit m (trailing_zeros m) \<and> (\<forall>i < trailing_zeros m. \<not> bit m i) \<and> trailing_zeros m < 64"
proof -
  have "\<exists>n. bit m n" using assms by (auto simp: bit_eq_iff)
  then obtain k where k: "bit m k" "\<forall>i < k. \<not> bit m i" by (metis LeastI_ex not_less_Least)
  moreover have "k < 64" using k(1) bit_imp_le_length by fastforce
  ultimately show ?thesis by (simp add: trailing_zeros_eq)
qed

lemma bit_clear_lowest:
  assumes "m \<noteq> 0"
  shows "bit (m AND (m - 1)) n \<longleftrightarrow> bit m n \<and> n \<noteq> trailing_zeros m"
proof -
  have "bit (unat m - 1) n \<longleftrightarrow> n < trailing_zeros m \<or> trailing_zeros m < n \<and> bit (unat m) n"
    using trailing_zeros_bit [OF assms] by (intro bit_pred_nat) (auto simp: bit_simps)
  moreover have "unat (m - 1) = unat m - 1" using assms by (rule unat_minus_one)
  moreover have "bit (m - 1) n \<longleftrightarrow> bit (unat (m - 1)) n" by (auto simp: bit_simps dest: bit_imp_le_length)
  ultimately show ?thesis using trailing_zeros_bit [OF assms] by (auto simp: bit_simps dest: bit_imp_le_length)
qed

lemma filter_upt_first:
  assumes "P k" "k < n" "\<And>i. i < k \<Longrightarrow> \<not> P i"
  shows "filter P [0..<n] = k # filter (\<lambda>i. P i \<and> i \<noteq> k) [0..<n]"
proof -
  have u: "[0..<n] = [0..<k] @ k # [Suc k..<n]" using assms(2) by (metis le0 upt_add_eq_append upt_conv_Cons le_add_diff_inverse less_imp_le add_0)
  have "filter P [0..<k] = []" "filter (\<lambda>i. P i \<and> i \<noteq> k) [0..<k] = []" using assms(3) by (simp_all add: filter_empty_conv)
  moreover have "filter (\<lambda>i. P i \<and> i \<noteq> k) [Suc k..<n] = filter P [Suc k..<n]" by (rule filter_cong) auto
  ultimately show ?thesis using assms(1) by (simp add: u)
qed

lemma mask_iter_bits: "mask_iter t m = map (bit_to_slot t) (filter (bit m) [0..<64])"
proof (induction t m rule: mask_iter.induct)
  case (1 t m)
  show ?case
  proof (cases "m = 0")
    case True
    then show ?thesis by (subst mask_iter.simps) simp
  next
    case False
    then show ?thesis
      using 1 trailing_zeros_bit [OF False] filter_upt_first [of "bit m" "trailing_zeros m" 64]
      by (subst mask_iter.simps) (simp add: bit_clear_lowest)
  qed
qed

lemma lowest_set_iter: "lowest_set t m = (case mask_iter t m of [] \<Rightarrow> None | s # _ \<Rightarrow> Some s)"
  by (simp add: lowest_set_def mask_iter.simps [of t m])

lemma mask_is_empty_iter: "mask_is_empty m \<longleftrightarrow> mask_iter t m = []"
  by (simp add: mask_is_empty_def mask_iter.simps [of t m])

section \<open>The builds agree\<close>

lemma bits_of_bytes_nth: "n < 8 * length bs \<Longrightarrow> bits_of_bytes bs ! n = bit (bs ! (n div 8)) (n mod 8)"
proof (induction bs arbitrary: n)
  case (Cons b bs)
  show ?case
  proof (cases "n < 8")
    case True
    then show ?thesis by (simp add: bits_of_bytes_def nth_append)
  next
    case False
    then have n: "n - 8 < 8 * length bs" "n div 8 = Suc ((n - 8) div 8)" "n mod 8 = (n - 8) mod 8"
      using Cons.prems by (simp_all add: le_div_geq le_mod_geq)
    then show ?thesis using False Cons.IH [OF n(1)] by (simp add: bits_of_bytes_def nth_append)
  qed
qed simp

lemma length_bits_of_bytes: "length (bits_of_bytes bs) = 8 * length bs"
  by (induction bs) (simp_all add: bits_of_bytes_def)

lemma bit_255: "bit (0xFF :: u8) n \<longleftrightarrow> n < 8"
proof -
  have m: "(0xFF :: u8) = mask 8" by (simp add: mask_eq_decr_exp)
  show ?thesis unfolding m bit_mask_iff by auto
qed

lemma length_lanes_eq [simp]: "length (lanes_eq g b) = length g"
  by (simp add: lanes_eq_def)

lemma bit_lanes_eq:
  assumes "i < length g" "p < 8"
  shows "bit (lanes_eq g b ! i) p \<longleftrightarrow> g ! i = b"
proof (cases "g ! i = b")
  case True
  then have "lanes_eq g b ! i = 0xFF" using assms(1) by (simp add: lanes_eq_def)
  then show ?thesis using True assms(2) bit_255 [of p] by metis
next
  case False
  then have "lanes_eq g b ! i = 0" using assms(1) by (simp add: lanes_eq_def)
  then show ?thesis using False by simp
qed

lemma bit_movemask:
  assumes "length g = 16"
  shows "bit (movemask (lanes_eq g b)) n \<longleftrightarrow> n < 16 \<and> g ! n = b"
proof (cases "n < 16")
  case True
  then have "bit (movemask (lanes_eq g b)) n \<longleftrightarrow> bit (lanes_eq g b ! n) 7"
    using assms by (simp add: movemask_def bit_horner_sum_bit_word_iff)
  then show ?thesis using True assms bit_lanes_eq [of n g 7 b] by simp
next
  case False
  then show ?thesis using assms by (simp add: movemask_def bit_horner_sum_bit_word_iff)
qed

lemma bit_every_fourth:
  assumes "i < 64"
  shows "bit (0x1111111111111111 :: 64 word) i \<longleftrightarrow> i mod 4 = 0"
proof -
  have "(0x1111111111111111 :: 64 word) = horner_sum of_bool 2 (map (\<lambda>i. i mod 4 = 0) [0..<64])"
    by (simp add: upt_rec)
  also have "bit \<dots> i \<longleftrightarrow> i mod 4 = 0" unfolding bit_horner_sum_bit_word_iff using assms by auto
  finally show ?thesis .
qed

lemma filter_low: "k \<le> m \<Longrightarrow> filter (\<lambda>n. n < k \<and> Q n) [0..<m] = filter Q [0..<k]"
proof -
  assume "k \<le> m"
  then have "[0..<m] = [0..<k] @ [k..<m]" using upt_add_eq_append [of 0 k "m - k"] by simp
  moreover have "filter (\<lambda>n. n < k \<and> Q n) [k..<m] = []" by (simp add: filter_empty_conv)
  moreover have "filter (\<lambda>n. n < k \<and> Q n) [0..<k] = filter Q [0..<k]" by (rule filter_cong) auto
  ultimately show ?thesis by simp
qed

lemma lane_nibble:
  assumes "length g = 16" "k < 8" "p < 8"
  shows "bit (shrn_4 (reinterpret_u16 (lanes_eq g b)) ! k) p \<longleftrightarrow> g ! (2 * k + p div 4) = b"
proof (cases "p < 4")
  case True
  then show ?thesis using assms bit_lanes_eq [of "2 * k" g "4 + p" b]
    by (simp add: shrn_4_def reinterpret_u16_def bit_simps)
next
  case False
  then have "p div 4 = 1" using assms(3) by auto
  moreover have "\<not> bit (lanes_eq g b ! (2 * k)) (4 + p)" using False by (auto dest: bit_imp_le_length)
  moreover have "p - 4 < 16" using assms(3) by simp
  ultimately show ?thesis using False assms bit_lanes_eq [of "2 * k + 1" g "p - 4" b]
    by (simp add: shrn_4_def reinterpret_u16_def bit_simps)
qed

lemma filter_fourth:
  "map (\<lambda>n. n div 4) (filter (\<lambda>n. n mod 4 = 0 \<and> Q (n div 4)) [0..<4 * m]) = filter Q [0..<m]"
proof (induction m)
  case (Suc m)
  have "[0..<4 * Suc m] = [0..<4 * m] @ [4 * m, 4 * m + 1, 4 * m + 2, 4 * m + 3]"
    using upt_add_eq_append [of 0 "4 * m" 4] by (simp add: add.commute upt_rec)
  moreover have "(4 * m + 1) mod 4 = 1" "(4 * m + 2) mod 4 = 2" "(4 * m + 3) mod 4 = 3" by presburger+
  ultimately show ?case using Suc.IH by simp
qed simp

lemma bit_match_neon:
  assumes "length g = 16"
  shows "bit (match_byte Aarch64 g b) n \<longleftrightarrow> n < 64 \<and> n mod 4 = 0 \<and> g ! (n div 4) = b"
proof (cases "n < 64")
  case True
  have "2 * (n div 8) + n mod 8 div 4 = n div 4" by presburger
  moreover have "length (shrn_4 (reinterpret_u16 (lanes_eq g b))) = 8" by (simp add: shrn_4_def reinterpret_u16_def)
  ultimately show ?thesis
    using True bit_every_fourth [OF True] lane_nibble [OF assms, of "n div 8" "n mod 8" b]
    by (auto simp: get_lane_u64_def bit_and_iff bit_horner_sum_bit_word_iff bits_of_bytes_nth length_bits_of_bytes)
qed (auto dest: bit_imp_le_length)

lemma bit_or_fold:
  "bit (foldl (\<lambda>m i. if P i then m OR push_bit i 1 else m) (w :: 64 word) xs) n \<longleftrightarrow> bit w n \<or> n < 64 \<and> n \<in> set xs \<and> P n"
proof (induction xs arbitrary: w)
  case (Cons a xs)
  have "bit (push_bit a 1 :: 64 word) n \<longleftrightarrow> n = a \<and> n < 64" by (auto simp: bit_exp_iff)
  then show ?case using Cons.IH [of w] Cons.IH [of "w OR push_bit a 1"] by (auto simp: bit_or_iff)
qed simp

lemma match_byte_slots:
  assumes "length g = 16"
  shows "mask_iter t (match_byte t g b) = filter (\<lambda>i. g ! i = b) [0..<16]"
proof -
  have low: "filter (\<lambda>n. n < 16 \<and> g ! n = b) [0..<64] = filter (\<lambda>i. g ! i = b) [0..<16]"
    by (rule filter_low) simp
  show ?thesis
  proof (cases t)
    case (X86_64 f)
    have "bit (match_byte t g b) = (\<lambda>n. n < 16 \<and> g ! n = b)" "bit_to_slot t = (\<lambda>n. n)"
      using bit_movemask [OF assms] X86_64 by (auto simp: fun_eq_iff)
    then show ?thesis by (simp only: mask_iter_bits low map_ident)
  next
    case Other
    have "bit (match_byte t g b) = (\<lambda>n. n < 16 \<and> g ! n = b)" "bit_to_slot t = (\<lambda>n. n)"
      using assms Other by (auto simp: fun_eq_iff bit_or_fold)
    then show ?thesis by (simp only: mask_iter_bits low map_ident)
  next
    case Aarch64
    have e: "4 * 16 = (64::nat)" by simp
    have "bit (match_byte t g b) = (\<lambda>n. n < 64 \<and> n mod 4 = 0 \<and> g ! (n div 4) = b)" "bit_to_slot t = (\<lambda>n. n div 4)"
      using bit_match_neon [OF assms] Aarch64 by (auto simp: fun_eq_iff drop_bit_eq_div)
    then show ?thesis
      using filter_fourth [of "\<lambda>i. g ! i = b" 16, unfolded e] by (simp only: mask_iter_bits filter_low [OF order_refl])
  qed
qed

lemma le_takeWhile: "e \<le> length (takeWhile P xs) \<longleftrightarrow> e \<le> length xs \<and> (\<forall>i < e. P (xs ! i))"
proof (induction xs arbitrary: e)
  case (Cons x xs)
  then show ?case by (cases e) (auto simp: less_Suc_eq_0_disj)
qed auto

lemma le_trailing_zeros_u16: "e \<le> 16 \<Longrightarrow> e \<le> trailing_zeros_u16 w \<longleftrightarrow> (\<forall>i < e. \<not> bit w i)"
  by (auto simp: trailing_zeros_u16_def le_takeWhile)

lemma le_leading_zeros_u16: "e \<le> 16 \<Longrightarrow> e \<le> leading_zeros_u16 w \<longleftrightarrow> (\<forall>i < e. \<not> bit w (15 - i))"
  by (auto simp: leading_zeros_u16_def le_takeWhile rev_nth)

lemma bit_slot_fold:
  "bit (foldl (\<lambda>a s. a OR push_bit s 1) (w :: 16 word) xs) n \<longleftrightarrow> bit w n \<or> n < 16 \<and> n \<in> set xs"
proof (induction xs arbitrary: w)
  case (Cons a xs)
  have "bit (push_bit a 1 :: 16 word) n \<longleftrightarrow> n = a \<and> n < 16" by (auto simp: bit_exp_iff)
  then show ?case using Cons.IH [of "w OR push_bit a 1"] by (auto simp: bit_or_iff)
qed simp

lemma bit_slot_mask: "length g = 16 \<Longrightarrow> bit (slot_mask t (match_byte t g b)) n \<longleftrightarrow> n < 16 \<and> g ! n = b"
  unfolding slot_mask_def bit_slot_fold by (auto simp: match_byte_slots)

lemma lowest_match:
  assumes "length g = 16"
  shows "lowest_set t (match_byte t g b) = (case filter (\<lambda>i. g ! i = b) [0..<16] of [] \<Rightarrow> None | i # _ \<Rightarrow> Some i)"
  by (simp only: lowest_set_iter match_byte_slots [OF assms])

lemma no_match:
  assumes "length g = 16"
  shows "mask_is_empty (match_byte t g b) \<longleftrightarrow> b \<notin> set g"
  unfolding mask_is_empty_iter [of _ t] match_byte_slots [OF assms] using assms
  by (auto simp: filter_empty_conv in_set_conv_nth)

end
