(* ===== verification/Kevy_Map.thy ===== *)
theory Kevy_Map
  imports Map_Group
begin

text \<open>
  The hash table under the keyspace: \<open>kevy-map/src\<close> (\<open>map.rs\<close>, \<open>map_keyed.rs\<close>, \<open>grow.rs\<close>, \<open>slot.rs\<close>,
  \<open>aux.rs\<close>, \<open>raw_entry.rs\<close>, \<open>clone.rs\<close>, \<open>alloc.rs\<close>, \<open>iter.rs\<close>). A slot is \<open>None\<close> while it is
  uninitialised; the outer \<open>None\<close> of an operation is a read of such a slot, a read past a buffer, or
  a probe that does not end. The hash function of the key type is an argument, as is the build.
\<close>

section \<open>The table\<close>

definition empty_byte :: u8 where "empty_byte = 0xFF"
definition deleted_byte :: u8 where "deleted_byte = 0x80"
definition min_cap :: nat where "min_cap = 16"

definition h2 :: "64 word \<Rightarrow> u8" where
  "h2 hash = ucast (drop_bit 57 hash AND 0x7F)"

record ('k, 'v) kevy_map =
  km_slots :: "('k \<times> 'v) option list"
  km_meta :: bytes
  km_cap :: nat
  km_occupied :: nat
  km_deleted :: nat
  km_aux :: "64 word list option"

definition map_new :: "('k, 'v) kevy_map" where
  "map_new = \<lparr>km_slots = [], km_meta = [], km_cap = 0, km_occupied = 0, km_deleted = 0, km_aux = None\<rparr>"

definition alloc_table :: "nat \<Rightarrow> ('k, 'v) kevy_map" where
  "alloc_table cap = \<lparr>km_slots = replicate cap None, km_meta = replicate (cap + group_width) empty_byte, km_cap = cap,
     km_occupied = 0, km_deleted = 0, km_aux = None\<rparr>"

text \<open>\<open>next_power_of_two\<close> panics past the largest power; such a table cannot be allocated either.\<close>

definition map_with_capacity :: "nat \<Rightarrow> ('k, 'v) kevy_map option" where
  "map_with_capacity cap_hint =
     (if cap_hint = 0 then Some map_new
      else map_option (\<lambda>p. alloc_table (max p min_cap))
        (checked_next_power_of_two ((min (cap_hint * 8) u64_max + 6) div 7)))"

definition wrapping_sub :: "nat \<Rightarrow> nat \<Rightarrow> nat" where
  "wrapping_sub a b = (a + 2 ^ 64 - b) mod 2 ^ 64"

definition km_mask :: "('k, 'v) kevy_map \<Rightarrow> nat" where
  "km_mask m = wrapping_sub (km_cap m) 1"

definition set_meta :: "('k, 'v) kevy_map \<Rightarrow> nat \<Rightarrow> u8 \<Rightarrow> ('k, 'v) kevy_map" where
  "set_meta m i v =
     (let i2 = (wrapping_sub i group_width AND km_mask m) + group_width
      in m\<lparr>km_meta := (km_meta m)[i := v, i2 := v]\<rparr>)"

definition threshold :: "('k, 'v) kevy_map \<Rightarrow> nat" where
  "threshold m = km_cap m - km_cap m div 8"

definition grows_on_insert :: "('k, 'v) kevy_map \<Rightarrow> bool" where
  "grows_on_insert m \<longleftrightarrow> km_cap m = 0 \<or> km_occupied m + km_deleted m \<ge> threshold m"

definition room :: "('k, 'v) kevy_map \<Rightarrow> nat" where
  "room m = (if km_cap m = 0 then 0 else threshold m - (km_occupied m + km_deleted m))"

definition map_len :: "('k, 'v) kevy_map \<Rightarrow> nat" where "map_len m = km_occupied m"

definition is_full_byte :: "u8 \<Rightarrow> bool" where "is_full_byte b \<longleftrightarrow> b AND 0x80 = 0"

definition slot_is_full :: "('k, 'v) kevy_map \<Rightarrow> nat \<Rightarrow> bool" where
  "slot_is_full m slot \<longleftrightarrow> slot < km_cap m \<and> is_full_byte (km_meta m ! slot)"

text \<open>\<open>assume_init_ref\<close> and \<open>write\<close> of a slot.\<close>

definition slot_ref :: "('k, 'v) kevy_map \<Rightarrow> nat \<Rightarrow> ('k \<times> 'v) option" where
  "slot_ref m i = (if i < length (km_slots m) then km_slots m ! i else None)"

definition slot_write :: "('k, 'v) kevy_map \<Rightarrow> nat \<Rightarrow> 'k \<times> 'v \<Rightarrow> ('k, 'v) kevy_map option" where
  "slot_write m i kv = (if i < length (km_slots m) then Some (m\<lparr>km_slots := (km_slots m)[i := Some kv]\<rparr>) else None)"

text \<open>\<open>ptr::read\<close>: the pair moves out.\<close>

definition slot_move :: "('k, 'v) kevy_map \<Rightarrow> nat \<Rightarrow> (('k \<times> 'v) \<times> ('k, 'v) kevy_map) option" where
  "slot_move m i = map_option (\<lambda>kv. (kv, m\<lparr>km_slots := (km_slots m)[i := None]\<rparr>)) (slot_ref m i)"

section \<open>Probing\<close>

text \<open>The keys of the slots whose metadata byte matched.\<close>

fun match_keys :: "('k, 'v) kevy_map \<Rightarrow> 'k \<Rightarrow> nat \<Rightarrow> nat list \<Rightarrow> nat option option" where
  "match_keys m key group_start [] = Some None"
| "match_keys m key group_start (i # is) =
     (let slot = (group_start + i) AND km_mask m in
      case slot_ref m slot of None \<Rightarrow> None
      | Some kv \<Rightarrow> if fst kv = key then Some (Some slot) else match_keys m key group_start is)"

partial_function (option) find_loop :: "target \<Rightarrow> ('k, 'v) kevy_map \<Rightarrow> 'k \<Rightarrow> u8 \<Rightarrow> nat \<Rightarrow> nat option option" where
  "find_loop t m key h2v group_start =
     do {
       g \<leftarrow> group_load (km_meta m) group_start;
       found \<leftarrow> match_keys m key group_start (mask_iter t (match_byte t g h2v));
       (case found of
          Some slot \<Rightarrow> Some (Some slot)
        | None \<Rightarrow>
            if \<not> mask_is_empty (match_byte t g empty_byte) then Some None
            else find_loop t m key h2v ((group_start + group_width) AND km_mask m))
     }"

definition find_by_borrow :: "target \<Rightarrow> ('k \<Rightarrow> 64 word) \<Rightarrow> ('k, 'v) kevy_map \<Rightarrow> 'k \<Rightarrow> nat option option" where
  "find_by_borrow t kevy_hash m key =
     (if km_cap m = 0 then Some None
      else let hash = kevy_hash key in find_loop t m key (h2 hash) (unat hash AND km_mask m))"

datatype probe_outcome = Found nat | Not_found (insert_at: nat) (via_tombstone: bool)

partial_function (option) probe_fast :: "target \<Rightarrow> ('k, 'v) kevy_map \<Rightarrow> 'k \<Rightarrow> u8 \<Rightarrow> nat \<Rightarrow> probe_outcome option" where
  "probe_fast t m key h2v group_start =
     do {
       g \<leftarrow> group_load (km_meta m) group_start;
       found \<leftarrow> match_keys m key group_start (mask_iter t (match_byte t g h2v));
       (case found of
          Some slot \<Rightarrow> Some (Found slot)
        | None \<Rightarrow>
            (case lowest_set t (match_byte t g empty_byte) of
               Some i \<Rightarrow> Some (Not_found ((group_start + i) AND km_mask m) False)
             | None \<Rightarrow> probe_fast t m key h2v ((group_start + group_width) AND km_mask m)))
     }"

partial_function (option) probe_slow ::
    "target \<Rightarrow> ('k, 'v) kevy_map \<Rightarrow> 'k \<Rightarrow> u8 \<Rightarrow> nat option \<Rightarrow> nat \<Rightarrow> probe_outcome option" where
  "probe_slow t m key h2v first_deleted group_start =
     do {
       g \<leftarrow> group_load (km_meta m) group_start;
       found \<leftarrow> match_keys m key group_start (mask_iter t (match_byte t g h2v));
       (case found of
          Some slot \<Rightarrow> Some (Found slot)
        | None \<Rightarrow>
            let first = (if first_deleted = None
                         then map_option (\<lambda>i. (group_start + i) AND km_mask m) (lowest_set t (match_byte t g deleted_byte))
                         else first_deleted) in
            (case lowest_set t (match_byte t g empty_byte) of
               Some i \<Rightarrow>
                 Some (Not_found (case first of Some d \<Rightarrow> d | None \<Rightarrow> (group_start + i) AND km_mask m) (first \<noteq> None))
             | None \<Rightarrow> probe_slow t m key h2v first ((group_start + group_width) AND km_mask m)))
     }"

definition probe_with_key :: "target \<Rightarrow> ('k, 'v) kevy_map \<Rightarrow> 64 word \<Rightarrow> 'k \<Rightarrow> probe_outcome option" where
  "probe_with_key t m hash key =
     (if km_cap m = 0 then Some (Not_found 0 False)
      else
        let h2v = h2 hash; group_start = unat hash AND km_mask m in
        if km_deleted m = 0 then probe_fast t m key h2v group_start
        else probe_slow t m key h2v None group_start)"

definition probe_by_borrow :: "target \<Rightarrow> ('k \<Rightarrow> 64 word) \<Rightarrow> ('k, 'v) kevy_map \<Rightarrow> 'k \<Rightarrow> probe_outcome option" where
  "probe_by_borrow t kevy_hash m key =
     (if km_cap m = 0 then Some (Not_found 0 False)
      else
        let hash = kevy_hash key; h2v = h2 hash; group_start = unat hash AND km_mask m in
        if km_deleted m = 0 then probe_fast t m key h2v group_start
        else probe_slow t m key h2v None group_start)"

section \<open>Growing\<close>

partial_function (option) insert_known_unique ::
    "target \<Rightarrow> ('k, 'v) kevy_map \<Rightarrow> u8 \<Rightarrow> 'k \<times> 'v \<Rightarrow> nat \<Rightarrow> (nat \<times> ('k, 'v) kevy_map) option" where
  "insert_known_unique t m h2v kv group_start =
     do {
       g \<leftarrow> group_load (km_meta m) group_start;
       (case lowest_set t (match_byte t g empty_byte) of
          Some i \<Rightarrow>
            (let slot = (group_start + i) AND km_mask m in
             do {
               m1 \<leftarrow> slot_write (set_meta m slot h2v) slot kv;
               Some (slot, m1\<lparr>km_occupied := km_occupied m1 + 1\<rparr>)
             })
        | None \<Rightarrow> insert_known_unique t m h2v kv ((group_start + group_width) AND km_mask m))
     }"

definition move_slot ::
    "target \<Rightarrow> ('k \<Rightarrow> 64 word) \<Rightarrow> nat \<Rightarrow> ('k, 'v) kevy_map \<times> ('k, 'v) kevy_map \<Rightarrow>
     (('k, 'v) kevy_map \<times> ('k, 'v) kevy_map) option" where
  "move_slot t kevy_hash i tables =
     (case tables of (m, dst) \<Rightarrow>
        if \<not> is_full_byte (km_meta m ! i) then Some (m, dst)
        else do {
          ((k, v), m1) \<leftarrow> slot_move m i;
          let hash = kevy_hash k;
          (at, dst1) \<leftarrow> insert_known_unique t dst (h2 hash) (k, v) (unat hash AND km_mask dst);
          Some (m1\<lparr>km_meta := (km_meta m1)[i := deleted_byte]\<rparr>,
            (case (km_aux m, km_aux dst1) of
               (Some old, Some new) \<Rightarrow> dst1\<lparr>km_aux := Some (new[at := old ! i])\<rparr>
             | _ \<Rightarrow> dst1))
        })"

fun move_slots ::
    "target \<Rightarrow> ('k \<Rightarrow> 64 word) \<Rightarrow> nat list \<Rightarrow> ('k, 'v) kevy_map \<times> ('k, 'v) kevy_map \<Rightarrow>
     (('k, 'v) kevy_map \<times> ('k, 'v) kevy_map) option" where
  "move_slots t kevy_hash [] tables = Some tables"
| "move_slots t kevy_hash (i # is) tables = do { tables' \<leftarrow> move_slot t kevy_hash i tables; move_slots t kevy_hash is tables' }"

definition grow :: "target \<Rightarrow> ('k \<Rightarrow> 64 word) \<Rightarrow> ('k, 'v) kevy_map \<Rightarrow> ('k, 'v) kevy_map option" where
  "grow t kevy_hash m =
     do {
       new_cap \<leftarrow> (if km_cap m = 0 then Some min_cap else checked_u64 (km_cap m * 2));
       let new_table = (alloc_table new_cap)\<lparr>km_aux := map_option (\<lambda>_. replicate new_cap 0) (km_aux m)\<rparr>;
       (_, grown) \<leftarrow> move_slots t kevy_hash [0..<km_cap m] (m, new_table);
       Some grown
     }"

definition maybe_grow :: "target \<Rightarrow> ('k \<Rightarrow> 64 word) \<Rightarrow> ('k, 'v) kevy_map \<Rightarrow> ('k, 'v) kevy_map option" where
  "maybe_grow t kevy_hash m = (if grows_on_insert m then grow t kevy_hash m else Some m)"

section \<open>Operations\<close>

definition reset_aux :: "('k, 'v) kevy_map \<Rightarrow> nat \<Rightarrow> ('k, 'v) kevy_map" where
  "reset_aux m slot = m\<lparr>km_aux := map_option (\<lambda>lane. lane[slot := 0]) (km_aux m)\<rparr>"

text \<open>The branch of an insertion that takes a free slot, shared by both ways to insert.\<close>

definition occupy :: "('k, 'v) kevy_map \<Rightarrow> u8 \<Rightarrow> 'k \<times> 'v \<Rightarrow> nat \<Rightarrow> bool \<Rightarrow> ('k, 'v) kevy_map option" where
  "occupy m h2v kv at via =
     do {
       m1 \<leftarrow> slot_write (set_meta m at h2v) at kv;
       let m2 = reset_aux m1 at;
       Some (m2\<lparr>km_occupied := km_occupied m2 + 1, km_deleted := (if via then km_deleted m2 - 1 else km_deleted m2)\<rparr>)
     }"

definition insert_with_room ::
    "target \<Rightarrow> ('k \<Rightarrow> 64 word) \<Rightarrow> ('k, 'v) kevy_map \<Rightarrow> 'k \<Rightarrow> 'v \<Rightarrow> ((nat \<times> 'v option) \<times> ('k, 'v) kevy_map) option" where
  "insert_with_room t kevy_hash m key value =
     do {
       let hash = kevy_hash key;
       outcome \<leftarrow> probe_with_key t m hash key;
       (case outcome of
          Found idx \<Rightarrow>
            do {
              (k, old) \<leftarrow> slot_ref m idx;
              m1 \<leftarrow> slot_write m idx (k, value);
              Some ((idx, Some old), m1)
            }
        | Not_found at via \<Rightarrow> map_option (\<lambda>m1. ((at, None), m1)) (occupy m (h2 hash) (key, value) at via))
     }"

definition insert_slot ::
    "target \<Rightarrow> ('k \<Rightarrow> 64 word) \<Rightarrow> ('k, 'v) kevy_map \<Rightarrow> 'k \<Rightarrow> 'v \<Rightarrow> ((nat \<times> 'v option) \<times> ('k, 'v) kevy_map) option" where
  "insert_slot t kevy_hash m key value =
     do { m1 \<leftarrow> maybe_grow t kevy_hash m; insert_with_room t kevy_hash m1 key value }"

definition map_insert ::
    "target \<Rightarrow> ('k \<Rightarrow> 64 word) \<Rightarrow> ('k, 'v) kevy_map \<Rightarrow> 'k \<Rightarrow> 'v \<Rightarrow> ('v option \<times> ('k, 'v) kevy_map) option" where
  "map_insert t kevy_hash m key value = map_option (\<lambda>((_, old), m'). (old, m')) (insert_slot t kevy_hash m key value)"

definition map_get :: "target \<Rightarrow> ('k \<Rightarrow> 64 word) \<Rightarrow> ('k, 'v) kevy_map \<Rightarrow> 'k \<Rightarrow> 'v option option" where
  "map_get t kevy_hash m key =
     do {
       found \<leftarrow> find_by_borrow t kevy_hash m key;
       (case found of None \<Rightarrow> Some None | Some idx \<Rightarrow> map_option (\<lambda>kv. Some (snd kv)) (slot_ref m idx))
     }"

text \<open>\<open>get_mut\<close>: what the caller writes through the reference is \<open>f\<close>.\<close>

definition get_mut ::
    "target \<Rightarrow> ('k \<Rightarrow> 64 word) \<Rightarrow> ('k, 'v) kevy_map \<Rightarrow> 'k \<Rightarrow> ('v \<Rightarrow> 'v) \<Rightarrow> ('v option \<times> ('k, 'v) kevy_map) option" where
  "get_mut t kevy_hash m key f =
     do {
       found \<leftarrow> find_by_borrow t kevy_hash m key;
       (case found of
          None \<Rightarrow> Some (None, m)
        | Some idx \<Rightarrow>
            do { (k, v) \<leftarrow> slot_ref m idx; m1 \<leftarrow> slot_write m idx (k, f v); Some (Some v, m1) })
     }"

definition contains_key :: "target \<Rightarrow> ('k \<Rightarrow> 64 word) \<Rightarrow> ('k, 'v) kevy_map \<Rightarrow> 'k \<Rightarrow> bool option" where
  "contains_key t kevy_hash m key = map_option (\<lambda>found. found \<noteq> None) (find_by_borrow t kevy_hash m key)"

definition erase_mark :: "target \<Rightarrow> ('k, 'v) kevy_map \<Rightarrow> nat \<Rightarrow> u8 option" where
  "erase_mark t m idx =
     do {
       let before = wrapping_sub idx group_width AND km_mask m;
       gb \<leftarrow> group_load (km_meta m) before;
       ga \<leftarrow> group_load (km_meta m) idx;
       let empty_before = leading_zeros_u16 (slot_mask t (match_byte t gb empty_byte));
       let empty_after = trailing_zeros_u16 (slot_mask t (match_byte t ga empty_byte));
       Some (if empty_before + empty_after \<ge> group_width then deleted_byte else empty_byte)
     }"

definition map_remove ::
    "target \<Rightarrow> ('k \<Rightarrow> 64 word) \<Rightarrow> ('k, 'v) kevy_map \<Rightarrow> 'k \<Rightarrow> ('v option \<times> ('k, 'v) kevy_map) option" where
  "map_remove t kevy_hash m key =
     do {
       found \<leftarrow> find_by_borrow t kevy_hash m key;
       (case found of
          None \<Rightarrow> Some (None, m)
        | Some idx \<Rightarrow>
            do {
              mark \<leftarrow> erase_mark t m idx;
              let m1 = set_meta m idx mark;
              ((_, v), m2) \<leftarrow> slot_move m1 idx;
              Some (Some v, m2\<lparr>km_occupied := km_occupied m2 - 1,
                km_deleted := (if mark = deleted_byte then km_deleted m2 + 1 else km_deleted m2)\<rparr>)
            })
     }"

definition map_clear :: "('k, 'v) kevy_map \<Rightarrow> ('k, 'v) kevy_map" where
  "map_clear m =
     (if km_cap m = 0 then m
      else m\<lparr>km_slots := map (\<lambda>i. if is_full_byte (km_meta m ! i) then None else km_slots m ! i) [0..<km_cap m],
             km_meta := replicate (km_cap m + group_width) empty_byte, km_occupied := 0, km_deleted := 0\<rparr>)"

end
