(* ===== verification/Spec2Isabelle.thy ===== *)
theory Spec2Isabelle
  imports Resp_Reply_Laws Elect_Runs Elect_Wire RankTree_Laws Repl_Conn Key_Slot Aof_Faults Snapshot_Commit Spsc_Ring Kevy_Map
begin

text \<open>
  kevy is a Redis-compatible key-value store written in Rust. A client speaks RESP to a server
  whose shards own slices of the keyspace; every write is logged, may be snapshotted, and is
  streamed to replicas; nodes elect a primary among themselves. This development models the parts
  of the program that carry its promises to a client: the protocol, durability, replication,
  election, and the ordered index behind sorted sets.

  \<^bold>\<open>Conventions.\<close> A byte is an \<open>8 word\<close> and a byte string a list of them. A \<open>Result\<close> is a sum with
  the error on the left, a panic or a failed \<open>expect\<close> is \<open>None\<close>, an object with mutable fields is a
  record that every operation returns updated. Integers whose width matters are words or natural
  numbers with the wrap, the saturation or the checked bound written out. Clocks, socket results,
  random draws and the float conversion of the standard library are arguments. Names follow the
  source, with a prefix where Isabelle has the name already.

  \<^bold>\<open>Kevy_Prelude\<close>: byte strings, results, integer bounds, decimal digits.

  \<^bold>\<open>Protocol\<close> (\<open>kevy-bytes/src/find_crlf.rs\<close>, \<open>kevy-resp/src\<close>). \<open>Swar\<close> and \<open>Find_Crlf\<close> hold the CRLF
  scanners, byte by byte, word at a time and vectorised, and show that each finds the first CRLF.
  \<open>Resp_Argv\<close> has the owned and the borrowed argument vectors with their 32-bit offsets and the
  interface both satisfy. \<open>Resp_Request\<close> has both request parsers and \<open>Resp_Encode\<close> the encoders;
  \<open>Resp_Command\<close> shows the round trips, that a prefix is incomplete, that a decision is final, that
  no expectation fails, and where the two parsers agree and differ. \<open>Utf8\<close> has the validation
  and the lossy decoding of strings. \<open>Resp_Reply\<close> and \<open>Resp_Reply_Laws\<close> do the same for the reply
  parser, whose recursion is bounded by its depth limit.

  \<^bold>\<open>Election\<close> (\<open>kevy-elect/src\<close>). \<open>Elect_Core\<close> is the elector: its state, the message handlers and
  the tick. \<open>Elect_Net\<close> is a network of electors as an inductive step relation in which messages
  are lost, repeated and reordered and nodes restart from what they persisted. \<open>Elect_Runs\<close> has
  the safety theorems and two runs in which safety fails. \<open>Elect_Wire\<close> has the message format.

  \<^bold>\<open>Ordered index\<close> (\<open>kevy-ranktree/src\<close>). \<open>RankTree\<close> is the B-tree with subtree counts,
  \<open>RankTree_Insert\<close> and \<open>RankTree_Remove\<close> relate its operations to a sorted list, \<open>RankTree_Query\<close>
  has the rank queries and the iterators with their bounded path stacks, \<open>RankTree_Iter\<close> shows
  that they yield their range, and \<open>RankTree_Laws\<close> states the refinement of a finite set.

  \<^bold>\<open>Replication\<close> (\<open>kevy-replicate/src\<close>, \<open>kevy-rt/src/replication*.rs\<close>). \<open>Repl_Wire\<close> has the frames,
  \<open>Repl_Source\<close> the byte-bounded backlog and the feed over it, \<open>Repl_Log\<close> and \<open>Repl_Feed\<close> their
  refinement of an unbounded log, \<open>Repl_Replica\<close> and \<open>Repl_Follow\<close> the replica's handshake and
  event decoder, \<open>Repl_Pump\<close> the primary's connection and its pump, \<open>Repl_Link\<close> and \<open>Repl_Live\<close> the
  composition of pump, socket and decoder with its safety and liveness, \<open>Repl_Slots\<close> the slot
  table with the retention watermark, and \<open>Repl_Conn\<close> a connection from its first byte on.

  \<^bold>\<open>Checksums and slots\<close> (\<open>kevy-sys/src/checksum.rs\<close>, \<open>kevy-persist/src/crc32c.rs\<close>, \<open>kevy-hash/src\<close>).
  \<open>Crc\<close> shows that every CRC32C routine computes the bit-serial checksum and that a burst of at
  most 32 bits always changes it; \<open>Key_Slot\<close> does the former for the cluster slot of a key.

  \<^bold>\<open>Durability\<close> (\<open>kevy-persist/src\<close>). \<open>Aof_Record\<close> has the checksummed records, \<open>Aof_Replay\<close> the
  strict, resynchronizing and old-format replays, \<open>Aof_Handle\<close> the open log with appends, groups,
  queues, syncs, rewrites and repair. \<open>Aof_Crash\<close> shows what a replay gives for every prefix of a
  log, \<open>Aof_Runs\<close> follows the handle through every sequence of operations and crashes,
  \<open>Aof_Faults\<close> treats damage. \<open>Snapshot_Commit\<close> commits a snapshot together with the reset of its
  log and settles what a crash left of it.

  \<^bold>\<open>Bounds and fuel.\<close> Loops are structural or come with a termination proof. The removals of the
  rank tree take the height as fuel, which is shown to be enough; the iterators keep the 24 path
  entries of the code, and a tree of at most \<open>usize::MAX\<close> keys is shown to have height at most 21.

  \<^bold>\<open>Not modelled.\<close> Sockets, threads, memory mappings and the io_uring reactor are the environment of
  the modelled code and appear as its arguments. The value types of \<open>kevy-store\<close> and the commands
  over them, the snapshot serializer, the indexes, the SQL and Lua layers, the Noise layer and its
  cryptography, the clients, the command line tools and the language bindings are outside this
  development. Of the log handle the staging ring and the mapped log are left out: they replace
  the writes of the handle by stores to shared memory.
\<close>

end
